(* ===== verification/Ors_Prelude.thy ===== *)
theory Ors_Prelude
  imports Main "HOL-Library.Word" "HOL-Library.Multiset"
begin

text \<open>
  Shared vocabulary of the development: the machine integer types of the kernel (x86_64, so
  \<open>usize\<close> is 64 bits wide), the outcome of a fallible Rust computation, byte slices and
  little-endian integers (\<open>u16::from_le_bytes\<close> and friends), and the generic list lemmas
  the component theories rest on.

  The kernel is built with the debug profile (\<open>Makefile\<close>: \<open>cargo build\<close>), so failed
  \<open>debug_assert!\<close>s and arithmetic overflow stop the kernel like \<open>panic!\<close> does.
\<close>

unbundle bit_operations_syntax

section \<open>Types\<close>

type_synonym u8 = "8 word"
type_synonym u16 = "16 word"
type_synonym u32 = "32 word"
type_synonym u64 = "64 word"
type_synonym bytes = "u8 list"

text \<open>
  A Rust function of type \<open>Result<T, E>\<close> yields \<open>Ok\<close> or \<open>Err\<close>; \<open>Panic\<close> is the third
  outcome: a failed assertion, an index out of range, an \<open>unwrap\<close> of nothing, an overflow.
  \<open>Hang\<close> is the fourth: a loop that need not end is modelled with fuel, the number of iterations
  allowed, and \<open>Hang\<close> says that the fuel ran out. A theorem that such a loop returns gives the fuel
  that is enough.
\<close>

datatype ('e, 'a) outcome = Ok 'a | Err 'e | Panic | Hang

text \<open>The \<open>?\<close> operator: go on with the value, or return the error (or the panic).\<close>

fun try_then :: "('e, 'a) outcome \<Rightarrow> ('a \<Rightarrow> ('e, 'b) outcome) \<Rightarrow> ('e, 'b) outcome" where
  "try_then (Ok x) f = f x"
| "try_then (Err e) f = Err e"
| "try_then Panic f = Panic"
| "try_then Hang f = Hang"

text \<open>The same with a state threaded through.\<close>

fun try_st :: "('e, 'a) outcome \<times> 's \<Rightarrow> ('a \<Rightarrow> 's \<Rightarrow> ('e, 'b) outcome \<times> 's)
    \<Rightarrow> ('e, 'b) outcome \<times> 's" where
  "try_st (Ok x, s) f = f x s"
| "try_st (Err e, s) f = (Err e, s)"
| "try_st (Panic, s) f = (Panic, s)"
| "try_st (Hang, s) f = (Hang, s)"

text \<open>\<open>Result::map_err\<close>, used by the \<open>From\<close> conversions the \<open>?\<close> operator applies.\<close>

fun map_err :: "('e \<Rightarrow> 'f) \<Rightarrow> ('e, 'a) outcome \<Rightarrow> ('f, 'a) outcome" where
  "map_err g (Ok x) = Ok x"
| "map_err g (Err e) = Err (g e)"
| "map_err g Panic = Panic"
| "map_err g Hang = Hang"

lemma try_then_Ok_iff [simp]:
  "try_then m f = Ok y \<longleftrightarrow> (\<exists>x. m = Ok x \<and> f x = Ok y)"
  by (cases m) auto

lemma try_then_Ok_right [simp]: "try_then m Ok = m"
  by (cases m) auto

lemma map_err_Ok_iff [simp]: "map_err g m = Ok y \<longleftrightarrow> m = Ok y"
  by (cases m) auto

section \<open>Byte slices\<close>

named_theorems slice_simps \<open>reading and overwriting ranges of a list\<close>

text \<open>
  \<open>SliceExt::array\<close> and \<open>SliceExt::copy_from_array\<close> of \<open>fs/fat.rs\<close>, and every other
  \<open>xs[i..i + n]\<close> read and \<open>copy_from_slice\<close> of the code. Both panic in Rust when the range
  leaves the slice; \<open>in_range\<close> is the check, made where the range is not fixed by the types.
\<close>

definition array :: "nat \<Rightarrow> nat \<Rightarrow> 'a list \<Rightarrow> 'a list" where
  "array n offset xs = take n (drop offset xs)"

definition copy_from_array :: "nat \<Rightarrow> 'a list \<Rightarrow> 'a list \<Rightarrow> 'a list" where
  "copy_from_array offset ys xs = take offset xs @ ys @ drop (offset + length ys) xs"

definition in_range :: "nat \<Rightarrow> nat \<Rightarrow> 'a list \<Rightarrow> bool" where
  "in_range offset n xs \<longleftrightarrow> offset + n \<le> length xs"

lemma length_array [simp]: "offset + n \<le> length xs \<Longrightarrow> length (array n offset xs) = n"
  by (simp add: array_def)

lemma nth_array [slice_simps]:
  "offset + n \<le> length xs \<Longrightarrow> i < n \<Longrightarrow> array n offset xs ! i = xs ! (offset + i)"
  by (simp add: array_def)

lemma length_copy_from_array [simp]:
  "offset + length ys \<le> length xs \<Longrightarrow> length (copy_from_array offset ys xs) = length xs"
  by (simp add: copy_from_array_def)

lemma nth_copy_from_array [slice_simps]:
  assumes "offset + length ys \<le> length xs" and "i < length xs"
  shows "copy_from_array offset ys xs ! i =
    (if offset \<le> i \<and> i < offset + length ys then ys ! (i - offset) else xs ! i)"
  using assms by (auto simp: copy_from_array_def nth_append min_def)

text \<open>What was written is read back, and disjoint ranges do not disturb each other.\<close>

lemma array_copy_same [simp]:
  "offset + length ys \<le> length xs \<Longrightarrow> n = length ys \<Longrightarrow>
    array n offset (copy_from_array offset ys xs) = ys"
  by (simp add: array_def copy_from_array_def)

lemma array_copy_other:
  assumes "offset + length ys \<le> length xs" and "i + n \<le> length xs"
    and "i + n \<le> offset \<or> offset + length ys \<le> i"
  shows "array n i (copy_from_array offset ys xs) = array n i xs"
  using assms by (intro nth_equalityI) (auto simp: slice_simps)

lemma copy_from_array_id:
  "offset + n \<le> length xs \<Longrightarrow> copy_from_array offset (array n offset xs) xs = xs"
  by (intro nth_equalityI) (auto simp: slice_simps)

text \<open>Lists of blocks of one size, as one list.\<close>

lemma length_concat_same:
  "\<forall>x \<in> set xss. length x = sz \<Longrightarrow> length (concat xss) = length xss * sz"
  by (induction xss) auto

lemma concat_nth_same:
  assumes "\<forall>x \<in> set xss. length x = sz" and "k < length xss * sz"
  shows "concat xss ! k = xss ! (k div sz) ! (k mod sz)"
  using assms
proof (induction xss arbitrary: k)
  case (Cons x xss)
  then have "0 < sz" by (cases sz) auto
  with Cons.prems have sz: "length x = sz" "0 < sz" by simp_all
  show ?case
  proof (cases "k < sz")
    case True
    with sz show ?thesis by (simp add: nth_append)
  next
    case False
    then obtain m where m: "k = sz + m" using le_Suc_ex by (metis not_less)
    then have "k div sz = Suc (m div sz)" "k mod sz = m mod sz"
      using sz div_add_self1 [of sz m] by simp_all
    with Cons m sz show ?thesis by (simp add: nth_append)
  qed
qed simp

lemma block_end: "k < n \<Longrightarrow> k * sz + sz \<le> n * sz" for k n sz :: nat
  using mult_le_mono1 [of "Suc k" n sz] by simp

lemma block_position:
  assumes "i < (sz :: nat)" shows "(k * sz + i) div sz = k" and "(k * sz + i) mod sz = i"
  using assms by simp_all

text \<open>A range within one block of a list of blocks.\<close>

lemma array_concat:
  assumes "\<forall>x \<in> set xss. length x = sz" and "k < length xss" and "i + n \<le> sz"
  shows "array n (k * sz + i) (concat xss) = array n i (xss ! k)"
proof (rule nth_equalityI)
  have len: "k * sz + sz \<le> length xss * sz"
    using block_end [OF assms(2)] .
  then have fits: "k * sz + i + n \<le> length (concat xss)"
    unfolding length_concat_same [OF assms(1)] using assms(3) by linarith
  have blk: "length (xss ! k) = sz" using assms by simp
  then show "length (array n (k * sz + i) (concat xss)) = length (array n i (xss ! k))"
    using fits assms(3) by simp
  fix m assume "m < length (array n (k * sz + i) (concat xss))"
  then have m: "m < n" using fits by simp
  have "concat xss ! (k * sz + (i + m)) = xss ! k ! (i + m)"
    using concat_nth_same [OF assms(1), of "k * sz + (i + m)"] block_position [of "i + m" sz k] m assms(3) len
    by simp
  then show "array n (k * sz + i) (concat xss) ! m = array n i (xss ! k) ! m"
    using m fits blk assms(3) by (simp add: slice_simps add.assoc)
qed

lemma copy_concat:
  assumes "\<forall>x \<in> set xss. length x = sz" and "k < length xss" and "i + length ys \<le> sz"
  shows "concat (xss[k := copy_from_array i ys (xss ! k)]) = copy_from_array (k * sz + i) ys (concat xss)"
proof (rule nth_equalityI)
  let ?yss = "xss[k := copy_from_array i ys (xss ! k)]"
  have blk: "length (xss ! k) = sz" using assms by simp
  then have all: "\<forall>x \<in> set ?yss. length x = sz"
    using assms by (auto dest!: set_update_subset_insert [THEN subsetD])
  have len: "k * sz + sz \<le> length xss * sz"
    using block_end [OF assms(2)] .
  then have fits: "k * sz + i + length ys \<le> length (concat xss)"
    unfolding length_concat_same [OF assms(1)] using assms(3) by linarith
  show "length (concat ?yss) = length (copy_from_array (k * sz + i) ys (concat xss))"
    using fits length_concat_same [OF all] length_concat_same [OF assms(1)] by simp
  fix p assume "p < length (concat ?yss)"
  then have p: "p < length xss * sz" using length_concat_same [OF all] by simp
  then have "0 < sz" by (cases sz) auto
  define q r where "q = p div sz" and "r = p mod sz"
  then have pqr: "p = q * sz + r" "r < sz" "q < length xss"
    using p \<open>0 < sz\<close> by (simp_all add: less_mult_imp_div_less)
  have yss: "concat ?yss ! p = ?yss ! q ! r"
    using concat_nth_same [OF all] p by (simp add: q_def r_def)
  have xss: "concat xss ! p = xss ! q ! r"
    using concat_nth_same [OF assms(1) p] by (simp add: q_def r_def)
  show "concat ?yss ! p = copy_from_array (k * sz + i) ys (concat xss) ! p"
  proof (cases "q = k")
    case True
    then show ?thesis
      using yss xss pqr blk assms fits p length_concat_same [OF assms(1)] by (simp add: slice_simps)
  next
    case False
    then have "p < k * sz \<or> k * sz + sz \<le> p"
      using pqr block_end [of q k sz] block_end [of k q sz] by (cases q k rule: linorder_cases) auto
    then have "\<not> (k * sz + i \<le> p \<and> p < k * sz + i + length ys)" using assms(3) by linarith
    then show ?thesis
      using False yss xss p fits length_concat_same [OF assms(1)] by (auto simp: slice_simps)
  qed
qed

lemma copy_copy_append:
  assumes "k + length ys + length zs \<le> length xs"
  shows "copy_from_array (k + length ys) zs (copy_from_array k ys xs) = copy_from_array k (ys @ zs) xs"
  using assms by (simp add: copy_from_array_def ac_simps)

lemma array_append:
  "k + m + n \<le> length xs \<Longrightarrow> array m k xs @ array n (k + m) xs = array (m + n) k xs"
  by (simp add: array_def take_add add.commute)

section \<open>Little-endian integers\<close>

text \<open>
  \<open>uN::from_le_bytes\<close> and \<open>uN::to_le_bytes\<close>, for every width at once: a byte string denotes
  a natural number, and the machine word is that number.
\<close>

fun le_nat :: "bytes \<Rightarrow> nat" where
  "le_nat [] = 0"
| "le_nat (b # bs) = unat b + 256 * le_nat bs"

fun le_bytes :: "nat \<Rightarrow> nat \<Rightarrow> bytes" where
  "le_bytes 0 n = []"
| "le_bytes (Suc k) n = word_of_nat (n mod 256) # le_bytes k (n div 256)"

definition from_le_bytes :: "bytes \<Rightarrow> 'a::len word" where
  "from_le_bytes bs = word_of_nat (le_nat bs)"

definition to_le_bytes :: "nat \<Rightarrow> 'a::len word \<Rightarrow> bytes" where
  "to_le_bytes k w = le_bytes k (unat w)"

lemma length_le_bytes [simp]: "length (le_bytes k n) = k"
  by (induction k arbitrary: n) auto

lemma length_to_le_bytes [simp]: "length (to_le_bytes k w) = k"
  by (simp add: to_le_bytes_def)

lemma unat_u8_less: "unat (b :: u8) < 256"
  using unsigned_less [of b] by simp

lemma le_nat_less: "le_nat bs < 256 ^ length bs"
proof (induction bs)
  case Nil
  then show ?case by simp
next
  case (Cons b bs)
  have "unat b < 256" by (rule unat_u8_less)
  with Cons.IH show ?case by simp
qed

lemma le_bytes_le_nat: "le_bytes (length bs) (le_nat bs) = bs"
proof (induction bs)
  case Nil
  then show ?case by simp
next
  case (Cons b bs)
  have "unat b < 256" by (rule unat_u8_less)
  with Cons.IH show ?case by simp
qed

lemma le_nat_le_bytes: "le_nat (le_bytes k n) = n mod 256 ^ k"
proof (induction k arbitrary: n)
  case 0
  then show ?case by simp
next
  case (Suc k)
  have "unat (word_of_nat (n mod 256) :: u8) = n mod 256"
    by (simp add: unat_of_nat)
  with Suc.IH [of "n div 256"] show ?case
    by (simp add: mod_mult2_eq)
qed

lemma from_to_le_bytes:
  assumes "LENGTH('a) = 8 * k"
  shows "from_le_bytes (to_le_bytes k w) = (w :: 'a::len word)"
proof -
  have "unat w < 2 ^ LENGTH('a)" by (rule unsigned_less)
  also have "2 ^ LENGTH('a) = (256 :: nat) ^ k"
    by (simp add: assms power_mult)
  finally show ?thesis
    by (simp add: from_le_bytes_def to_le_bytes_def le_nat_le_bytes)
qed

lemma to_from_le_bytes:
  assumes "LENGTH('a) = 8 * length bs"
  shows "to_le_bytes (length bs) (from_le_bytes bs :: 'a::len word) = bs"
proof -
  have "le_nat bs < 2 ^ LENGTH('a)"
    using le_nat_less [of bs] by (simp add: assms power_mult)
  then have "unat (word_of_nat (le_nat bs) :: 'a word) = le_nat bs"
    by (simp add: unat_of_nat)
  then show ?thesis
    by (simp add: from_le_bytes_def to_le_bytes_def le_bytes_le_nat)
qed

lemma from_to_le_u16 [simp]: "from_le_bytes (to_le_bytes 2 w) = (w :: u16)"
  by (rule from_to_le_bytes) simp

lemma from_to_le_u32 [simp]: "from_le_bytes (to_le_bytes 4 w) = (w :: u32)"
  by (rule from_to_le_bytes) simp

lemma to_from_le_u16: "length bs = 2 \<Longrightarrow> to_le_bytes 2 (from_le_bytes bs :: u16) = bs"
  using to_from_le_bytes [where 'a = 16 and bs = bs] by simp

lemma to_from_le_u32: "length bs = 4 \<Longrightarrow> to_le_bytes 4 (from_le_bytes bs :: u32) = bs"
  using to_from_le_bytes [where 'a = 32 and bs = bs] by simp

section \<open>Vectors\<close>

text \<open>
  The operations of \<open>Vec\<close> and \<open>VecDeque\<close> the components share: \<open>iter().position\<close>, \<open>remove\<close> and
  \<open>swap_remove\<close>.
\<close>

fun position :: "('a \<Rightarrow> bool) \<Rightarrow> 'a list \<Rightarrow> nat option" where
  "position P [] = None"
| "position P (x # xs) = (if P x then Some 0 else map_option Suc (position P xs))"

definition remove_nth :: "nat \<Rightarrow> 'a list \<Rightarrow> 'a list" where
  "remove_nth i xs = take i xs @ drop (Suc i) xs"

definition swap_remove :: "nat \<Rightarrow> 'a list \<Rightarrow> 'a list" where
  "swap_remove i xs = (if Suc i = length xs then butlast xs else (butlast xs)[i := last xs])"

lemma position_SomeD:
  "position P xs = Some i \<Longrightarrow> i < length xs \<and> P (xs ! i) \<and> (\<forall>j<i. \<not> P (xs ! j))"
  by (induction xs arbitrary: i) (auto split: if_splits simp: nth_Cons less_Suc_eq_0_disj)

lemma position_None: "position P xs = None \<longleftrightarrow> (\<forall>x\<in>set xs. \<not> P x)"
  by (induction xs) auto

lemma position_append:
  "position P (xs @ ys) =
    (case position P xs of Some i \<Rightarrow> Some i | None \<Rightarrow> map_option (\<lambda>i. length xs + i) (position P ys))"
  by (cases "position P ys"; induction xs) (auto split: option.splits)

lemma position_update:
  assumes "position P xs = Some i" and "P y"
  shows "position P (xs[i := y]) = Some i"
  using assms by (induction xs arbitrary: i) (auto split: nat.splits if_splits)

lemma mset_remove_nth: "i < length xs \<Longrightarrow> add_mset (xs ! i) (mset (remove_nth i xs)) = mset xs"
  unfolding remove_nth_def by (metis add_mset_add_single append_Cons id_take_nth_drop mset.simps(2)
      mset_append union_mset_add_mset_right)

lemma mset_list_update_eq:
  "i < length xs \<Longrightarrow> add_mset (xs ! i) (mset (xs[i := x])) = add_mset x (mset xs)"
  by (simp add: mset_update)

lemma mset_swap_remove:
  assumes "i < length xs"
  shows "add_mset (xs ! i) (mset (swap_remove i xs)) = mset xs"
proof -
  from assms have xs: "xs = butlast xs @ [last xs]" by (cases xs) auto
  show ?thesis
  proof (cases "Suc i = length xs")
    case True
    then have "xs ! i = last xs" by (metis diff_Suc_1 last_conv_nth length_0_conv nat.simps(3))
    with True show ?thesis
      by (subst (2) xs) (simp add: swap_remove_def)
  next
    case False
    with assms have i: "i < length (butlast xs)" by simp
    then have "butlast xs ! i = xs ! i" by (simp add: nth_butlast)
    moreover have "mset xs = add_mset (last xs) (mset (butlast xs))"
      by (subst xs) simp
    ultimately show ?thesis
      using False mset_list_update_eq [OF i, of "last xs"] by (simp add: swap_remove_def)
  qed
qed

lemma distinct_map_mset: "mset xs = mset ys \<Longrightarrow> distinct (map f xs) \<longleftrightarrow> distinct (map f ys)"
  by (metis mset_eq_imp_distinct_iff mset_map)

end
