(* ===== verification/Interrupt_Lock.thy ===== *)
theory Interrupt_Lock
  imports Ors_Prelude
begin

text \<open>
  The state of a processor (\<open>cpu.rs\<close>) and the interrupt lock \<open>Cli\<close> (\<open>interrupts.rs\<close>): interrupts are
  off while a \<open>Cli\<close> is alive, the locks nest, and the last one to be dropped turns interrupts on again
  unless they were off before the first. The counter is \<open>u32\<close>; its overflow and underflow panic.
\<close>

section \<open>Processor state\<close>

record cpu_thread_state =
  ncli :: nat
  zcli :: bool

definition new_thread_state :: cpu_thread_state where
  "new_thread_state = \<lparr>ncli = 0, zcli = False\<rparr>"

text \<open>The state the kernel keeps, and the interrupt flag of the processor itself.\<close>

record 't cpu_state =
  running_task :: "'t option"
  thread_state :: cpu_thread_state
  interrupts_enabled :: bool

definition new_cpu_state :: "'t cpu_state" where
  "new_cpu_state = \<lparr>running_task = None, thread_state = new_thread_state, interrupts_enabled = False\<rparr>"

section \<open>Cli\<close>

definition cli_new :: "'t cpu_state \<Rightarrow> (unit, 't cpu_state) outcome" where
  "cli_new cpu =
     (let cli = \<not> interrupts_enabled cpu; ts = thread_state cpu;
          ts = (if ncli ts = 0 then ts\<lparr>zcli := cli\<rparr> else ts)
      in if ncli ts + 1 < 2 ^ 32
         then Ok (cpu\<lparr>interrupts_enabled := False, thread_state := ts\<lparr>ncli := ncli ts + 1\<rparr>\<rparr>)
         else Panic)"

definition cli_drop :: "'t cpu_state \<Rightarrow> (unit, 't cpu_state) outcome" where
  "cli_drop cpu =
     (if interrupts_enabled cpu \<or> ncli (thread_state cpu) = 0 then Panic
      else let ts = (thread_state cpu)\<lparr>ncli := ncli (thread_state cpu) - 1\<rparr>
           in Ok (cpu\<lparr>thread_state := ts, interrupts_enabled := ncli ts = 0 \<and> \<not> zcli ts\<rparr>))"

text \<open>\<open>Spin::lock\<close> and the drop of its guard, as far as the interrupt lock is concerned.\<close>

definition with_cli :: "('t cpu_state \<Rightarrow> (unit, 'a \<times> 't cpu_state) outcome) \<Rightarrow> 't cpu_state \<Rightarrow> (unit, 'a \<times> 't cpu_state) outcome" where
  "with_cli f cpu =
     try_then (cli_new cpu) (\<lambda>cpu.
     try_then (f cpu) (\<lambda>(x, cpu).
     try_then (cli_drop cpu) (\<lambda>cpu. Ok (x, cpu))))"

section \<open>Nesting\<close>

text \<open>A processor in a consistent state: inside a lock interrupts are off, and outside of all locks the flag is free.\<close>

definition cpu_ok :: "'t cpu_state \<Rightarrow> bool" where
  "cpu_ok cpu \<longleftrightarrow> (0 < ncli (thread_state cpu) \<longrightarrow> \<not> interrupts_enabled cpu) \<and> ncli (thread_state cpu) < 2 ^ 32"

text \<open>What is running: taking a lock, dropping one, or work that leaves the interrupt state alone.\<close>

datatype cli_op = CliNew | CliDrop

fun cli_run :: "cli_op list \<Rightarrow> 't cpu_state \<Rightarrow> (unit, 't cpu_state) outcome" where
  "cli_run [] cpu = Ok cpu"
| "cli_run (CliNew # ops) cpu = try_then (cli_new cpu) (cli_run ops)"
| "cli_run (CliDrop # ops) cpu = try_then (cli_drop cpu) (cli_run ops)"

text \<open>Properly nested locks, as the scopes of a Rust program give them.\<close>

inductive nested :: "cli_op list \<Rightarrow> bool" where
  empty: "nested []"
| scope: "nested xs \<Longrightarrow> nested (CliNew # xs @ [CliDrop])"
| seq: "nested xs \<Longrightarrow> nested ys \<Longrightarrow> nested (xs @ ys)"

lemma cli_run_append: "cli_run (xs @ ys) cpu = try_then (cli_run xs cpu) (cli_run ys)"
proof (induction xs arbitrary: cpu)
  case (Cons x xs)
  then show ?case by (cases x; cases "cli_new cpu"; cases "cli_drop cpu") simp_all
qed simp

text \<open>The state after a nested sequence: nothing but the note of an unlocked processor may change.\<close>

definition same_locks :: "'t cpu_state \<Rightarrow> 't cpu_state \<Rightarrow> bool" where
  "same_locks cpu cpu' \<longleftrightarrow>
     running_task cpu' = running_task cpu \<and> interrupts_enabled cpu' = interrupts_enabled cpu
     \<and> ncli (thread_state cpu') = ncli (thread_state cpu)
     \<and> (0 < ncli (thread_state cpu) \<longrightarrow> zcli (thread_state cpu') = zcli (thread_state cpu))"

lemma same_locks_refl [simp]: "same_locks cpu cpu"
  by (simp add: same_locks_def)

lemma same_locks_trans: "same_locks a b \<Longrightarrow> same_locks b c \<Longrightarrow> same_locks a c"
  by (simp add: same_locks_def)

lemma same_locks_cpu_ok: "same_locks a b \<Longrightarrow> cpu_ok a \<Longrightarrow> cpu_ok b"
  by (simp add: same_locks_def cpu_ok_def)

lemma cli_new_ok:
  assumes "ncli (thread_state cpu) + 1 < 2 ^ 32"
  obtains cpu1 where "cli_new cpu = Ok cpu1" and "ncli (thread_state cpu1) = ncli (thread_state cpu) + 1"
    and "\<not> interrupts_enabled cpu1" and "running_task cpu1 = running_task cpu"
    and "zcli (thread_state cpu1)
      = (if ncli (thread_state cpu) = 0 then \<not> interrupts_enabled cpu else zcli (thread_state cpu))"
proof -
  let ?ts = "\<lparr>ncli = ncli (thread_state cpu) + 1,
    zcli = if ncli (thread_state cpu) = 0 then \<not> interrupts_enabled cpu else zcli (thread_state cpu)\<rparr>"
  have "cli_new cpu = Ok (cpu\<lparr>interrupts_enabled := False, thread_state := ?ts\<rparr>)"
    using assms by (cases "thread_state cpu") (simp add: cli_new_def Let_def)
  then show ?thesis by (rule that) simp_all
qed

lemma nested_run:
  assumes "nested ops" and "cpu_ok cpu" and "ncli (thread_state cpu) + length ops < 2 ^ 32"
  shows "\<exists>cpu'. cli_run ops cpu = Ok cpu' \<and> same_locks cpu cpu'"
  using assms
proof (induction ops arbitrary: cpu rule: nested.induct)
  case empty
  then show ?case by simp
next
  case (scope xs)
  then have fits: "ncli (thread_state cpu) + 1 < 2 ^ 32" by simp
  obtain cpu1 where 1: "cli_new cpu = Ok cpu1" "ncli (thread_state cpu1) = ncli (thread_state cpu) + 1"
    "\<not> interrupts_enabled cpu1" "running_task cpu1 = running_task cpu"
    "zcli (thread_state cpu1) = (if ncli (thread_state cpu) = 0 then \<not> interrupts_enabled cpu else zcli (thread_state cpu))"
    by (rule cli_new_ok [OF fits])
  then have "cpu_ok cpu1" using fits by (simp add: cpu_ok_def)
  with scope 1 obtain cpu2 where 2: "cli_run xs cpu1 = Ok cpu2" "same_locks cpu1 cpu2" by fastforce
  with 1 scope.prems(1) obtain cpu3 where "cli_drop cpu2 = Ok cpu3" "same_locks cpu cpu3"
    by (auto simp: cli_drop_def Let_def same_locks_def cpu_ok_def)
  with 1 2 show ?case by (simp add: cli_run_append)
next
  case (seq xs ys)
  then obtain cpu1 where 1: "cli_run xs cpu = Ok cpu1" "same_locks cpu cpu1" by fastforce
  have "cpu_ok cpu1" by (rule same_locks_cpu_ok [OF 1(2) seq.prems(1)])
  moreover have "ncli (thread_state cpu1) + length ys < 2 ^ 32" using 1(2) seq.prems(2) by (simp add: same_locks_def)
  ultimately obtain cpu2 where "cli_run ys cpu1 = Ok cpu2" "same_locks cpu1 cpu2" using seq.IH(2) by blast
  with 1 same_locks_trans show ?case by (auto simp: cli_run_append)
qed

text \<open>
  C27: interrupt locks nest: any properly nested use of \<open>Cli\<close>, however deep, ends without a panic with the
  interrupt flag and the lock count the processor had before, and inside of it interrupts are off.
\<close>

theorem cli_nesting:
  assumes "nested ops" and "cpu_ok cpu" and "ncli (thread_state cpu) + length ops + 1 < 2 ^ 32"
  shows "\<exists>cpu1 cpu2 cpu3. cli_new cpu = Ok cpu1 \<and> cli_run ops cpu1 = Ok cpu2 \<and> \<not> interrupts_enabled cpu2
    \<and> cli_drop cpu2 = Ok cpu3 \<and> interrupts_enabled cpu3 = interrupts_enabled cpu
    \<and> ncli (thread_state cpu3) = ncli (thread_state cpu) \<and> running_task cpu3 = running_task cpu"
proof -
  have fits: "ncli (thread_state cpu) + 1 < 2 ^ 32" using assms(3) by simp
  obtain cpu1 where 1: "cli_new cpu = Ok cpu1" "ncli (thread_state cpu1) = ncli (thread_state cpu) + 1"
    "\<not> interrupts_enabled cpu1" "running_task cpu1 = running_task cpu"
    "zcli (thread_state cpu1) = (if ncli (thread_state cpu) = 0 then \<not> interrupts_enabled cpu else zcli (thread_state cpu))"
    by (rule cli_new_ok [OF fits])
  then have "cpu_ok cpu1" using assms(3) by (simp add: cpu_ok_def)
  with assms 1 nested_run [OF assms(1), of cpu1] obtain cpu2 where 2: "cli_run ops cpu1 = Ok cpu2" "same_locks cpu1 cpu2"
    by auto
  with 1 assms(2) show ?thesis by (auto simp: cli_drop_def Let_def same_locks_def cpu_ok_def)
qed

theorem cli_nesting_witness:
  "\<exists>cpu1 cpu2 cpu3. cli_new (new_cpu_state\<lparr>interrupts_enabled := True\<rparr> :: nat cpu_state) = Ok cpu1
    \<and> cli_run [CliNew, CliDrop] cpu1 = Ok cpu2 \<and> \<not> interrupts_enabled cpu2
    \<and> cli_drop cpu2 = Ok cpu3 \<and> interrupts_enabled cpu3"
proof -
  let ?cpu = "new_cpu_state\<lparr>interrupts_enabled := True\<rparr> :: nat cpu_state"
  have "nested [CliNew, CliDrop]" using nested.scope [OF nested.empty] by simp
  moreover have "cpu_ok ?cpu" "ncli (thread_state ?cpu) + length [CliNew, CliDrop] + 1 < 2 ^ 32" "interrupts_enabled ?cpu"
    by (simp_all add: new_cpu_state_def new_thread_state_def cpu_ok_def)
  ultimately show ?thesis using cli_nesting [of "[CliNew, CliDrop]" ?cpu] by blast
qed

end
