(* ===== verification/Task_Scheduler.thy ===== *)
theory Task_Scheduler
  imports Interrupt_Lock "HOL-Library.AList" "HOL-Library.Multiset" "HOL-Library.Option_ord" "HOL-Library.Product_Lexorder"
begin

text \<open>
  The task scheduler, \<open>task.rs\<close> with \<open>Context::switch\<close> of \<open>context.rs\<close>: four queues of runnable tasks,
  the tasks that wait, by their pending id, the wait channels they block on, and a heap of timeouts.
  Wait channels are \<open>i64\<close>, ticks and ids are 64-bit; where an addition overflows, the code panics.
  \<open>BTreeMap\<close>s are association lists, the \<open>BinaryHeap\<close> of \<open>Reverse\<close> entries is an ascending list.
\<close>

section \<open>Tasks\<close>

datatype priority = L0 | L1 | L2 | L3

fun priority_index :: "priority \<Rightarrow> nat" where
  "priority_index L0 = 0"
| "priority_index L1 = 1"
| "priority_index L2 = 2"
| "priority_index L3 = 3"

text \<open>
  Of the context of a task, the scheduler uses whether its registers are saved, and the interrupt state that
  goes with it. The address of the context is the identity of the task.
\<close>

record task =
  task_id :: nat
  task_priority :: priority
  ctx_saved :: bool
  ctx_cts :: cpu_thread_state

definition new_task :: "nat \<Rightarrow> priority \<Rightarrow> task" where
  "new_task i p = \<lparr>task_id = i, task_priority = p, ctx_saved = True, ctx_cts = new_thread_state\<rparr>"

definition new_current :: "nat \<Rightarrow> priority \<Rightarrow> task" where
  "new_current i p = \<lparr>task_id = i, task_priority = p, ctx_saved = False, ctx_cts = new_thread_state\<rparr>"

text \<open>Wait channels made of an address, and those that are issued, which count down from -1.\<close>

definition from_ptr_index :: "int \<Rightarrow> nat \<Rightarrow> (unit, int) outcome" where
  "from_ptr_index ptr index =
     (let p = (if ptr < 2 ^ 63 then ptr else ptr - 2 ^ 64); s = p + int index in
      if s < 2 ^ 63 then Ok (s mod 2 ^ 63) else Panic)"

definition from_ptr :: "int \<Rightarrow> (unit, int) outcome" where
  "from_ptr ptr = from_ptr_index ptr 0"

section \<open>The task queue\<close>

datatype switch = Blocked int "nat option" | Sleep nat | Yield

record task_queue =
  pending_id_gen :: nat
  runnable_tasks :: "task list list"
  pending_tasks :: "(nat \<times> task) list"
  blocks :: "(int \<times> nat list) list"
  timeouts :: "(nat \<times> nat \<times> int option) list"

definition new_task_queue :: task_queue where
  "new_task_queue =
     \<lparr>pending_id_gen = 0, runnable_tasks = replicate 4 [], pending_tasks = [], blocks = [], timeouts = []\<rparr>"

definition push_runnable :: "task \<Rightarrow> task_queue \<Rightarrow> task_queue" where
  "push_runnable t q =
     (let i = priority_index (task_priority t)
      in q\<lparr>runnable_tasks := (runnable_tasks q)[i := runnable_tasks q ! i @ [t]]\<rparr>)"

definition enqueue_task :: "task \<Rightarrow> task_queue \<Rightarrow> task_queue" where
  "enqueue_task t q = push_runnable t q"

definition issue_pending_id :: "task_queue \<Rightarrow> (unit, nat \<times> task_queue) outcome" where
  "issue_pending_id q =
     (if pending_id_gen q + 1 < 2 ^ 64
      then Ok (pending_id_gen q, q\<lparr>pending_id_gen := pending_id_gen q + 1\<rparr>) else Panic)"

text \<open>\<open>ticks() + t\<close>, and the push of a timeout.\<close>

definition push_timeout :: "nat \<Rightarrow> nat \<Rightarrow> nat \<Rightarrow> int option \<Rightarrow> task_queue \<Rightarrow> (unit, task_queue) outcome" where
  "push_timeout now t i chan q =
     (if now + t < 2 ^ 64 then Ok (q\<lparr>timeouts := insort (now + t, i, chan) (timeouts q)\<rparr>) else Panic)"

text \<open>
  The search for the next task: from the highest level down to \<open>min_level\<close>, the front of the first
  queue that is not empty.
\<close>

fun pop_front_from :: "nat list \<Rightarrow> task list list \<Rightarrow> (task \<times> task list list) option" where
  "pop_front_from [] qs = None"
| "pop_front_from (i # is) qs =
     (case qs ! i of
        t # ts \<Rightarrow> Some (t, qs[i := ts])
      | [] \<Rightarrow> pop_front_from is qs)"

definition pop_next :: "nat \<Rightarrow> task list list \<Rightarrow> (task \<times> task list list) option" where
  "pop_next min_level qs = pop_front_from (rev [min_level..<4]) qs"

text \<open>What becomes of the current task.\<close>

definition put_aside :: "nat \<Rightarrow> task \<Rightarrow> switch \<Rightarrow> task_queue \<Rightarrow> (unit, task_queue) outcome" where
  "put_aside now current sw q =
     (case sw of
        Blocked chan timeout \<Rightarrow>
          try_then (issue_pending_id q) (\<lambda>(i, q).
            let q = q\<lparr>pending_tasks := AList.update i current (pending_tasks q),
                      blocks := AList.map_default chan [i] (\<lambda>ids. ids @ [i]) (blocks q)\<rparr>
            in case timeout of
                 None \<Rightarrow> Ok q
               | Some t \<Rightarrow> push_timeout now t i (Some chan) q)
      | Sleep t \<Rightarrow>
          try_then (issue_pending_id q) (\<lambda>(i, q).
            push_timeout now t i None (q\<lparr>pending_tasks := AList.update i current (pending_tasks q)\<rparr>))
      | Yield \<Rightarrow> Ok (push_runnable current q))"

text \<open>
  \<open>dequeue\<close>. \<open>wait_saved\<close> spins until the processor that left the next task has saved its registers:
  where they are not saved yet, the call does not return now.
\<close>

definition dequeue :: "nat \<Rightarrow> task \<Rightarrow> switch \<Rightarrow> task_queue \<Rightarrow> (unit, task \<times> task_queue) outcome" where
  "dequeue now current sw q =
     (let min_level = (if sw = Yield then priority_index (task_priority current) else 0) in
      case pop_next min_level (runnable_tasks q) of
        None \<Rightarrow> Ok (current, q)
      | Some (t, qs) \<Rightarrow>
          try_then (put_aside now (current\<lparr>ctx_saved := False\<rparr>) sw (q\<lparr>runnable_tasks := qs\<rparr>)) (\<lambda>q.
            if ctx_saved t then Ok (t, q) else Hang))"

text \<open>The pending task with an id becomes runnable, if there is one.\<close>

definition wake :: "nat \<Rightarrow> task_queue \<Rightarrow> task_queue" where
  "wake i q =
     (case map_of (pending_tasks q) i of
        None \<Rightarrow> q
      | Some t \<Rightarrow> push_runnable t (q\<lparr>pending_tasks := AList.delete i (pending_tasks q)\<rparr>))"

definition release_chan :: "int \<Rightarrow> task_queue \<Rightarrow> task_queue" where
  "release_chan chan q =
     (case map_of (blocks q) chan of
        None \<Rightarrow> q
      | Some ids \<Rightarrow> fold wake ids (q\<lparr>blocks := AList.delete chan (blocks q)\<rparr>))"

text \<open>One expired timeout: the task is woken and no longer blocks on its channel.\<close>

definition expire :: "nat \<Rightarrow> int option \<Rightarrow> task_queue \<Rightarrow> task_queue" where
  "expire i chan q =
     (let q = wake i q in
      case chan of
        None \<Rightarrow> q
      | Some c \<Rightarrow> q\<lparr>blocks := AList.map_entry c (filter (\<lambda>j. j \<noteq> i)) (blocks q)\<rparr>)"

function elapse :: "nat \<Rightarrow> task_queue \<Rightarrow> task_queue" where
  "elapse now q =
     (case timeouts q of
        (t, i, chan) # rest \<Rightarrow>
          if t \<le> now then elapse now ((expire i chan q)\<lparr>timeouts := rest\<rparr>) else q
      | [] \<Rightarrow> q)"
  by pat_completeness auto
termination
  by (relation "measure (\<lambda>(now, q). length (timeouts q))") auto

declare elapse.simps [simp del]

section \<open>The scheduler\<close>

record scheduler =
  sched_queue :: task_queue
  task_id_gen :: nat
  wait_channel_gen :: int

definition new_scheduler :: scheduler where
  "new_scheduler = \<lparr>sched_queue = new_task_queue, task_id_gen = 0, wait_channel_gen = -1\<rparr>"

text \<open>The atomic counters wrap around.\<close>

definition issue_task_id :: "scheduler \<Rightarrow> nat \<times> scheduler" where
  "issue_task_id s = (task_id_gen s, s\<lparr>task_id_gen := (task_id_gen s + 1) mod 2 ^ 64\<rparr>)"

definition issue_wait_channel :: "scheduler \<Rightarrow> int \<times> scheduler" where
  "issue_wait_channel s =
     (let c = wait_channel_gen s
      in (c, s\<lparr>wait_channel_gen := (if c = - (2 ^ 63) then 2 ^ 63 - 1 else c - 1)\<rparr>))"

text \<open>
  \<open>switch\<close>, up to the point where the other context runs. The closure \<open>scheduling_op\<close> is called while the
  queue is locked; it works on the processor and on what else the caller passes (\<open>w\<close>), and says what to do,
  \<open>None\<close> to stay. \<open>Context::switch\<close> stores the interrupt state of the task that is left with its context
  and installs that of the next one; the interrupt flag is still off. The result has the id of the
  task that is left, \<open>None\<close> where the same task goes on, and what the closure returned.
\<close>

type_synonym ('w, 'b) scheduling_op =
  "task cpu_state \<times> 'w \<Rightarrow> (unit, (switch option \<times> 'b) \<times> task cpu_state \<times> 'w) outcome"

definition current_task :: "task cpu_state \<Rightarrow> scheduler \<Rightarrow> task \<times> scheduler" where
  "current_task cpu s =
     (case running_task cpu of
        Some t \<Rightarrow> (t, s)
      | None \<Rightarrow> (let (i, s) = issue_task_id s in (new_current i L0, s)))"

definition switch_task ::
    "nat \<Rightarrow> ('w, 'b) scheduling_op \<Rightarrow> nat \<Rightarrow> scheduler \<times> task cpu_state \<times> 'w
      \<Rightarrow> (unit, (nat option \<times> 'b) \<times> (scheduler \<times> task cpu_state \<times> 'w)) outcome" where
  "switch_task now scheduling_op other_cli st =
     (let (s, cpu, w) = st in
      try_then (cli_new cpu) (\<lambda>cpu.
        if ncli (thread_state cpu) \<noteq> 1 + other_cli then Panic
        else
          let (current, s) = current_task cpu s in
          try_then (cli_new cpu) (\<lambda>cpu.
          try_then (scheduling_op (cpu, w)) (\<lambda>((sw, ret), (cpu, w)).
          try_then (cli_drop cpu) (\<lambda>cpu.
          try_then
            (case sw of
               Some sw \<Rightarrow> dequeue now (current\<lparr>ctx_cts := thread_state cpu\<rparr>) sw (sched_queue s)
             | None \<Rightarrow> Ok (current, sched_queue s))
            (\<lambda>(t, q).
               if task_id t = task_id current
               then Ok ((None, ret), (s\<lparr>sched_queue := q\<rparr>, cpu\<lparr>running_task := Some current\<rparr>, w))
               else Ok ((Some (task_id current), ret),
                        (s\<lparr>sched_queue := q\<rparr>, cpu\<lparr>running_task := Some t, thread_state := ctx_cts t\<rparr>, w))))))))"

text \<open>The end of \<open>switch\<close>, when the task runs again: the interrupt lock is dropped.\<close>

definition resume_task :: "task cpu_state \<Rightarrow> (unit, task cpu_state) outcome" where
  "resume_task cpu = cli_drop cpu"

definition yield_op :: "('w, unit) scheduling_op" where
  "yield_op st = Ok ((Some Yield, ()), st)"

definition sleep_op :: "nat \<Rightarrow> ('w, unit) scheduling_op" where
  "sleep_op t st = Ok ((Some (Sleep t), ()), st)"

text \<open>\<open>block\<close> drops the guard of a spin lock first: \<open>unlock\<close> frees the lock, and its interrupt lock goes too.\<close>

definition block_op :: "int \<Rightarrow> nat option \<Rightarrow> ('w \<Rightarrow> 'w) \<Rightarrow> ('w, unit) scheduling_op" where
  "block_op chan timeout unlock st =
     (let (cpu, w) = st in
      try_then (cli_drop cpu) (\<lambda>cpu. Ok ((Some (Blocked chan timeout), ()), (cpu, unlock w))))"

text \<open>The operations that only lock the queue.\<close>

definition locked_queue ::
    "(task_queue \<Rightarrow> task_queue) \<Rightarrow> scheduler \<times> task cpu_state \<Rightarrow> (unit, scheduler \<times> task cpu_state) outcome" where
  "locked_queue f st =
     (let (s, cpu) = st in
      try_then (cli_new cpu) (\<lambda>cpu.
      try_then (cli_drop cpu) (\<lambda>cpu. Ok (s\<lparr>sched_queue := f (sched_queue s)\<rparr>, cpu))))"

definition sched_add :: "priority \<Rightarrow> scheduler \<times> task cpu_state \<Rightarrow> (unit, nat \<times> (scheduler \<times> task cpu_state)) outcome" where
  "sched_add p st =
     (let (i, s) = issue_task_id (fst st) in
      try_then (locked_queue (enqueue_task (new_task i p)) (s, snd st)) (\<lambda>st. Ok (i, st)))"

definition sched_release :: "int \<Rightarrow> scheduler \<times> task cpu_state \<Rightarrow> (unit, scheduler \<times> task cpu_state) outcome" where
  "sched_release chan = locked_queue (release_chan chan)"

definition sched_elapse :: "nat \<Rightarrow> scheduler \<times> task cpu_state \<Rightarrow> (unit, scheduler \<times> task cpu_state) outcome" where
  "sched_elapse now = locked_queue (elapse now)"

section \<open>Association lists\<close>

lemma update_fresh: "k \<notin> fst ` set al \<Longrightarrow> AList.update k v al = al @ [(k, v)]"
  by (induction al) auto

lemma delete_filter: "AList.delete k al = filter (\<lambda>p. fst p \<noteq> k) al"
  by (induction al) simp_all

lemma delete_mset:
  assumes "distinct (map fst al)" and "map_of al k = Some v"
  shows "mset al = add_mset (k, v) (mset (AList.delete k al))"
  using assms
proof (induction al)
  case (Cons p al)
  show ?case
  proof (cases "fst p = k")
    case True
    then have "AList.delete k al = al"
      using Cons.prems(1) by (auto simp: delete_filter image_iff intro!: filter_True)
    with True Cons.prems show ?thesis by (cases p) simp
  next
    case False
    with Cons show ?thesis by (cases p) simp
  qed
qed simp

lemma map_default_keys:
  "fst ` set (AList.map_default k v f al) = insert k (fst ` set al)"
  "distinct (map fst al) \<Longrightarrow> distinct (map fst (AList.map_default k v f al))"
  by (induction al) (auto split: if_splits)

lemma map_of_map_default:
  "map_of (AList.map_default k v f al) j
    = (if j = k then Some (case map_of al k of None \<Rightarrow> v | Some x \<Rightarrow> f x) else map_of al j)"
  by (induction al) (auto split: option.splits)

lemma map_entry_keys: "map fst (AList.map_entry k f al) = map fst al"
  by (induction al) auto

lemma map_of_map_entry: "map_of (AList.map_entry k f al) j = (if j = k then map_option f (map_of al k) else map_of al j)"
  by (induction al) auto

section \<open>The tasks in the queue\<close>

definition queue_tasks :: "task_queue \<Rightarrow> task multiset" where
  "queue_tasks q = mset (concat (runnable_tasks q)) + mset (map snd (pending_tasks q))"

text \<open>
  The invariant: runnable tasks are at their level, pending ids are fresh and unique, what blocks on a
  channel or has a timeout is known by an id that was issued, the timeouts are in order, and every pending
  task can still be woken: it blocks on a channel or has a timeout.
\<close>

definition levels_ok :: "task list list \<Rightarrow> bool" where
  "levels_ok qs \<longleftrightarrow> length qs = 4 \<and> (\<forall>i < 4. \<forall>t \<in> set (qs ! i). priority_index (task_priority t) = i)"

definition wakeable :: "(int \<Rightarrow> nat list option) \<Rightarrow> (nat \<times> nat \<times> int option) list \<Rightarrow> nat \<Rightarrow> bool" where
  "wakeable bl ts i \<longleftrightarrow> (\<exists>c ids. bl c = Some ids \<and> i \<in> set ids) \<or> i \<in> (fst \<circ> snd) ` set ts"

definition waits_ok ::
    "nat \<Rightarrow> (nat \<times> task) list \<Rightarrow> (int \<Rightarrow> nat list option) \<Rightarrow> (nat \<times> nat \<times> int option) list \<Rightarrow> bool" where
  "waits_ok gen ps bl ts \<longleftrightarrow>
     distinct (map fst ps) \<and> (\<forall>i \<in> fst ` set ps. i < gen \<and> wakeable bl ts i)
     \<and> (\<forall>c ids. bl c = Some ids \<longrightarrow> distinct ids \<and> (\<forall>i \<in> set ids. i < gen))
     \<and> sorted ts \<and> distinct (map (fst \<circ> snd) ts) \<and> (\<forall>i \<in> (fst \<circ> snd) ` set ts. i < gen)"

definition queue_ok :: "task_queue \<Rightarrow> bool" where
  "queue_ok q \<longleftrightarrow>
     levels_ok (runnable_tasks q) \<and> distinct (map fst (blocks q))
     \<and> waits_ok (pending_id_gen q) (pending_tasks q) (map_of (blocks q)) (timeouts q)"

lemma priority_index_less [simp]: "priority_index p < 4"
  by (cases p) simp_all

lemma mset_concat_update:
  "i < length qs \<Longrightarrow> mset (concat (qs[i := x])) + mset (qs ! i) = mset (concat qs) + mset x"
proof (induction qs arbitrary: i)
  case (Cons q qs)
  then show ?case by (cases i) (auto simp: ac_simps)
qed simp

lemma push_runnable_simps [simp]:
  "pending_tasks (push_runnable t q) = pending_tasks q" "blocks (push_runnable t q) = blocks q"
  "timeouts (push_runnable t q) = timeouts q" "pending_id_gen (push_runnable t q) = pending_id_gen q"
  by (simp_all add: push_runnable_def Let_def)

lemma push_runnable_level:
  assumes "length (runnable_tasks q) = 4" and "i < 4"
  shows "runnable_tasks (push_runnable t q) ! i
    = runnable_tasks q ! i @ (if priority_index (task_priority t) = i then [t] else [])"
  using assms by (simp add: push_runnable_def Let_def nth_list_update)

lemma push_runnable_levels: "levels_ok (runnable_tasks q) \<Longrightarrow> levels_ok (runnable_tasks (push_runnable t q))"
  using push_runnable_level [of q] by (auto simp: levels_ok_def push_runnable_def Let_def nth_list_update split: if_splits)

lemma push_runnable_tasks:
  assumes "length (runnable_tasks q) = 4"
  shows "queue_tasks (push_runnable t q) = add_mset t (queue_tasks q)"
proof -
  let ?i = "priority_index (task_priority t)"
  have "mset (concat ((runnable_tasks q)[?i := runnable_tasks q ! ?i @ [t]])) + mset (runnable_tasks q ! ?i)
      = mset (concat (runnable_tasks q)) + mset (runnable_tasks q ! ?i @ [t])"
    using assms by (intro mset_concat_update) simp
  then show ?thesis by (simp add: queue_tasks_def push_runnable_def Let_def)
qed

lemma pop_front_from_None: "pop_front_from is qs = None \<longleftrightarrow> (\<forall>i \<in> set is. qs ! i = [])"
  by (induction "is") (auto split: list.splits)

lemma pop_front_from_SomeD:
  assumes "pop_front_from is qs = Some (t, qs')"
  shows "\<exists>us i vs ts. is = us @ i # vs \<and> (\<forall>j \<in> set us. qs ! j = []) \<and> qs ! i = t # ts \<and> qs' = qs[i := ts]"
  using assms
proof (induction "is")
  case (Cons i "is")
  show ?case
  proof (cases "qs ! i")
    case Nil
    with Cons obtain us k vs ts where "is = us @ k # vs" "\<forall>j \<in> set us. qs ! j = []" "qs ! k = t # ts" "qs' = qs[k := ts]"
      by auto
    with Nil show ?thesis by (intro exI [of _ "i # us"] exI [of _ k] exI [of _ vs] exI [of _ ts]) simp
  next
    case (Cons u us)
    with Cons.prems show ?thesis by (intro exI [of _ "[]"] exI [of _ i] exI [of _ "is"] exI [of _ us]) simp
  qed
qed simp

lemma pop_next_None: "pop_next m qs = None \<longleftrightarrow> (\<forall>i. m \<le> i \<and> i < 4 \<longrightarrow> qs ! i = [])"
  by (auto simp: pop_next_def pop_front_from_None)

lemma pop_next_SomeD:
  assumes "pop_next m qs = Some (t, qs')"
  obtains i ts where "m \<le> i" and "i < 4" and "qs ! i = t # ts" and "qs' = qs[i := ts]"
    and "\<forall>j. i < j \<and> j < 4 \<longrightarrow> qs ! j = []"
proof -
  obtain us i vs ts where u: "rev [m..<4] = us @ i # vs" "\<forall>j \<in> set us. qs ! j = []" "qs ! i = t # ts" "qs' = qs[i := ts]"
    using pop_front_from_SomeD assms unfolding pop_next_def by blast
  have i: "[m..<4] = rev vs @ i # rev us" using arg_cong [OF u(1), of rev] by simp
  then have "i \<in> set [m..<4]" "sorted (rev vs @ i # rev us)" by (metis in_set_conv_decomp, metis sorted_upt)
  then have mi: "m \<le> i" "i < 4" and le: "\<forall>x \<in> set vs. x \<le> i" by (auto simp: sorted_append)
  have "qs ! j = []" if "i < j" "j < 4" for j
  proof -
    have "j \<in> set [m..<4]" using that mi by simp
    then have "j \<in> set us" using that le unfolding i by auto
    with u(2) show ?thesis by simp
  qed
  with mi u that show ?thesis by blast
qed

section \<open>The operations keep the invariant and the tasks\<close>

lemma waits_okD:
  assumes "waits_ok gen ps bl ts"
  shows "distinct (map fst ps)" and "\<And>i. i \<in> fst ` set ps \<Longrightarrow> i < gen \<and> wakeable bl ts i"
    and "\<And>c ids. bl c = Some ids \<Longrightarrow> distinct ids \<and> (\<forall>i \<in> set ids. i < gen)"
    and "sorted ts" and "distinct (map (fst \<circ> snd) ts)"
    and "\<And>i. i \<in> (fst \<circ> snd) ` set ts \<Longrightarrow> i < gen"
  using assms unfolding waits_ok_def by blast+

lemma queue_okD:
  assumes "queue_ok q"
  shows "levels_ok (runnable_tasks q)" and "length (runnable_tasks q) = 4" and "distinct (map fst (blocks q))"
    and "waits_ok (pending_id_gen q) (pending_tasks q) (map_of (blocks q)) (timeouts q)"
  using assms by (simp_all add: queue_ok_def levels_ok_def)

lemma queue_ok_new: "queue_ok new_task_queue"
  by (simp add: queue_ok_def new_task_queue_def levels_ok_def waits_ok_def)

lemma queue_tasks_new: "queue_tasks new_task_queue = {#}"
  by (simp add: queue_tasks_def new_task_queue_def)

lemma levels_ok_tail:
  assumes "levels_ok qs" and "i < 4" and "qs ! i = t # ts"
  shows "levels_ok (qs[i := ts])" and "mset (concat qs) = add_mset t (mset (concat (qs[i := ts])))"
proof -
  have len: "length qs = 4" using assms(1) by (simp add: levels_ok_def)
  have "\<forall>u \<in> set ts. priority_index (task_priority u) = i" using assms by (auto simp: levels_ok_def)
  with assms(1,2) show "levels_ok (qs[i := ts])" by (auto simp: levels_ok_def nth_list_update)
  show "mset (concat qs) = add_mset t (mset (concat (qs[i := ts])))"
    using mset_concat_update [of i qs ts] assms(2,3) len by simp
qed

lemma queue_ok_runnable: "queue_ok q \<Longrightarrow> levels_ok qs \<Longrightarrow> queue_ok (q\<lparr>runnable_tasks := qs\<rparr>)"
  by (simp add: queue_ok_def)

lemma push_runnable_ok: "queue_ok q \<Longrightarrow> queue_ok (push_runnable t q)"
  by (simp add: queue_ok_def push_runnable_levels)

text \<open>The waiting tasks with a new one, under the next id.\<close>

lemma wakeable_mono:
  "wakeable bl ts i \<Longrightarrow> (\<And>c ids. bl c = Some ids \<Longrightarrow> \<exists>ids'. bl' c = Some ids' \<and> set ids \<subseteq> set ids') \<Longrightarrow>
    (fst \<circ> snd) ` set ts \<subseteq> (fst \<circ> snd) ` set ts' \<Longrightarrow> wakeable bl' ts' i"
  unfolding wakeable_def by blast

lemma waits_ok_timeout:
  assumes "waits_ok gen ps bl ts"
  shows "waits_ok (Suc gen) (ps @ [(gen, t)]) bl (insort (d, gen, c) ts)"
proof -
  note ok = waits_okD [OF assms]
  have set: "(fst \<circ> snd) ` set (insort (d, gen, c) ts) = insert gen ((fst \<circ> snd) ` set ts)"
    by (simp add: set_insort_key image_comp)
  have "distinct (map (fst \<circ> snd) ((d, gen, c) # ts))" using ok(5,6) by force
  moreover have "mset (map (fst \<circ> snd) ((d, gen, c) # ts)) = mset (map (fst \<circ> snd) (insort (d, gen, c) ts))" by simp
  ultimately have "distinct (map (fst \<circ> snd) (insort (d, gen, c) ts))" by (metis mset_eq_imp_distinct_iff)
  moreover have "gen \<notin> fst ` set ps" using ok(2) by blast
  moreover have "wakeable bl (insort (d, gen, c) ts) i" if "i = gen \<or> i \<in> fst ` set ps" for i
    using that ok(2) [of i] unfolding wakeable_def set by blast
  ultimately show ?thesis
    using ok(1,4) ok(2,3,6) unfolding waits_ok_def set by (auto simp: sorted_insort less_Suc_eq)
qed

lemma waits_ok_block:
  assumes "waits_ok gen ps bl ts"
    and "bl' = bl(c \<mapsto> (case bl c of None \<Rightarrow> [gen] | Some ids \<Rightarrow> ids @ [gen]))"
  shows "waits_ok (Suc gen) (ps @ [(gen, t)]) bl' ts"
    and "waits_ok (Suc gen) (ps @ [(gen, t)]) bl' (insort (d, gen, e) ts)"
proof -
  note ok = waits_okD [OF assms(1)]
  have fresh: "gen \<notin> set ids" if "bl c = Some ids" for c ids using ok(3) [OF that] by blast
  have here: "\<exists>ids. bl' c = Some ids \<and> gen \<in> set ids" by (simp add: assms(2) split: option.splits)
  have ids: "distinct ids \<and> (\<forall>i \<in> set ids. i < Suc gen)" if b: "bl' x = Some ids" for x ids
  proof (cases "x = c")
    case True
    with b ok(3) [of c] fresh [of c] show ?thesis by (auto simp: assms(2) less_Suc_eq split: option.splits)
  next
    case False
    with b ok(3) [of x ids] show ?thesis by (auto simp: assms(2) less_Suc_eq)
  qed
  have mono: "\<exists>ids'. bl' x = Some ids' \<and> set ids \<subseteq> set ids'" if "bl x = Some ids" for x ids
    using that by (auto simp: assms(2))
  have "wakeable bl' ts i" if "i = gen \<or> i \<in> fst ` set ps" for i
    using that here ok(2) [of i] wakeable_mono [of bl ts i bl' ts] mono by (auto simp: wakeable_def)
  moreover have "gen \<notin> fst ` set ps" using ok(2) by blast
  ultimately show "waits_ok (Suc gen) (ps @ [(gen, t)]) bl' ts"
    using ok(1,4,5) ok(2,6) ids unfolding waits_ok_def by (auto simp: less_Suc_eq)
  note w = waits_okD [OF waits_ok_timeout [where t = t and d = d and c = e, OF assms(1)]]
  have "wakeable bl' (insort (d, gen, e) ts) i" if "i \<in> fst ` set (ps @ [(gen, t)])" for i
    using w(2) [OF that] wakeable_mono [of bl "insort (d, gen, e) ts" i bl' "insort (d, gen, e) ts"] mono by blast
  then show "waits_ok (Suc gen) (ps @ [(gen, t)]) bl' (insort (d, gen, e) ts)"
    using w(1,2,4,5,6) ids unfolding waits_ok_def by blast
qed

lemma put_aside_ok:
  assumes "queue_ok q" and "put_aside now t sw q = Ok q'"
  shows "queue_ok q'" and "queue_tasks q' = add_mset t (queue_tasks q)"
proof -
  note ok = queue_okD [OF assms(1)]
  let ?i = "pending_id_gen q"
  have fresh: "?i \<notin> fst ` set (pending_tasks q)" using waits_okD(2) [OF ok(4)] by blast
  have "queue_ok q' \<and> queue_tasks q' = add_mset t (queue_tasks q)"
  proof (cases sw)
    case Yield
    with assms(2) have "q' = push_runnable t q" by (simp add: put_aside_def)
    with assms(1) ok(2) show ?thesis by (simp add: push_runnable_ok push_runnable_tasks)
  next
    case (Sleep d)
    with assms(2) have q': "q' = q\<lparr>pending_id_gen := Suc ?i, pending_tasks := pending_tasks q @ [(?i, t)],
        timeouts := insort (now + d, ?i, None) (timeouts q)\<rparr>"
      by (auto simp: put_aside_def issue_pending_id_def push_timeout_def update_fresh [OF fresh] split: if_splits)
    then show ?thesis using ok waits_ok_timeout [OF ok(4)] by (simp add: queue_ok_def queue_tasks_def)
  next
    case (Blocked chan d)
    let ?bl = "AList.map_default chan [?i] (\<lambda>ids. ids @ [?i]) (blocks q)"
    have bl: "map_of ?bl = (map_of (blocks q))(chan \<mapsto> (case map_of (blocks q) chan of None \<Rightarrow> [?i] | Some ids \<Rightarrow> ids @ [?i]))"
      by (rule ext) (simp add: map_of_map_default)
    let ?q = "q\<lparr>pending_id_gen := Suc ?i, pending_tasks := pending_tasks q @ [(?i, t)], blocks := ?bl\<rparr>"
    note w = waits_ok_block [OF ok(4) bl]
    have "q' = ?q \<or> (\<exists>e. d = Some e \<and> q' = ?q\<lparr>timeouts := insort (now + e, ?i, Some chan) (timeouts q)\<rparr>)"
      using assms(2) Blocked
      by (auto simp: put_aside_def issue_pending_id_def push_timeout_def update_fresh [OF fresh] Let_def split: if_splits option.splits)
    then show ?thesis using ok w by (auto simp: queue_ok_def queue_tasks_def map_default_keys)
  qed
  then show "queue_ok q'" "queue_tasks q' = add_mset t (queue_tasks q)" by auto
qed

definition min_level :: "task \<Rightarrow> switch \<Rightarrow> nat" where
  "min_level t sw = (if sw = Yield then priority_index (task_priority t) else 0)"

lemma dequeue_cases:
  assumes "dequeue now c sw q = Ok (t, q')"
  obtains (stay) "t = c" and "q' = q" and "\<forall>i. min_level c sw \<le> i \<and> i < 4 \<longrightarrow> runnable_tasks q ! i = []"
  | (switch) i ts where "min_level c sw \<le> i" and "i < 4" and "runnable_tasks q ! i = t # ts"
      and "\<forall>j. i < j \<and> j < 4 \<longrightarrow> runnable_tasks q ! j = []" and "ctx_saved t"
      and "put_aside now (c\<lparr>ctx_saved := False\<rparr>) sw (q\<lparr>runnable_tasks := (runnable_tasks q)[i := ts]\<rparr>) = Ok q'"
proof (cases "pop_next (min_level c sw) (runnable_tasks q)")
  case None
  then have "dequeue now c sw q = Ok (c, q)"
    unfolding dequeue_def Let_def min_level_def [symmetric] by simp
  with assms None stay show ?thesis by (simp add: pop_next_None)
next
  case (Some p)
  obtain u qs where p: "p = (u, qs)" by (cases p)
  with Some assms have *: "t = u" "ctx_saved t" "put_aside now (c\<lparr>ctx_saved := False\<rparr>) sw (q\<lparr>runnable_tasks := qs\<rparr>) = Ok q'"
    unfolding dequeue_def Let_def min_level_def [symmetric] by (auto split: if_splits)
  from Some p have "pop_next (min_level c sw) (runnable_tasks q) = Some (u, qs)" by simp
  from pop_next_SomeD [OF this] * switch show ?thesis by metis
qed

lemma dequeue_ok:
  assumes "queue_ok q" and "dequeue now c sw q = Ok (t, q')"
  shows "queue_ok q'"
    and "add_mset (task_id t) (image_mset task_id (queue_tasks q')) = add_mset (task_id c) (image_mset task_id (queue_tasks q))"
proof -
  have "queue_ok q' \<and> add_mset (task_id t) (image_mset task_id (queue_tasks q')) = add_mset (task_id c) (image_mset task_id (queue_tasks q))"
    using assms(2)
  proof (cases rule: dequeue_cases)
    case stay
    with assms(1) show ?thesis by simp
  next
    case (switch i ts)
    note tail = levels_ok_tail [OF queue_okD(1) [OF assms(1)] switch(2,3)]
    note put = put_aside_ok [OF queue_ok_runnable [OF assms(1) tail(1)] switch(6)]
    show ?thesis using put tail(2) by (simp add: queue_tasks_def)
  qed
  then show "queue_ok q'"
    "add_mset (task_id t) (image_mset task_id (queue_tasks q')) = add_mset (task_id c) (image_mset task_id (queue_tasks q))"
    by auto
qed

section \<open>Waking tasks\<close>

text \<open>The tasks of some pending ids, in the order of the ids, and what waking them does to the queue.\<close>

definition tasks_of :: "task_queue \<Rightarrow> nat list \<Rightarrow> task list" where
  "tasks_of q ids = List.map_filter (map_of (pending_tasks q)) ids"

definition woken :: "task_queue \<Rightarrow> nat list \<Rightarrow> task_queue \<Rightarrow> bool" where
  "woken q ids q' \<longleftrightarrow>
     length (runnable_tasks q') = 4
     \<and> (\<forall>p < 4. runnable_tasks q' ! p
          = runnable_tasks q ! p @ filter (\<lambda>t. priority_index (task_priority t) = p) (tasks_of q ids))
     \<and> pending_tasks q' = filter (\<lambda>p. fst p \<notin> set ids) (pending_tasks q)
     \<and> pending_id_gen q' = pending_id_gen q \<and> queue_tasks q' = queue_tasks q"

lemma tasks_of_simps [simp]:
  "tasks_of q [] = []"
  "tasks_of q (i # is) = (case map_of (pending_tasks q) i of None \<Rightarrow> tasks_of q is | Some t \<Rightarrow> t # tasks_of q is)"
  by (simp_all add: tasks_of_def map_filter_simps split: option.splits)

lemma woken_refl: "length (runnable_tasks q) = 4 \<Longrightarrow> woken q [] q"
  by (simp add: woken_def)

lemma wake_woken:
  assumes "length (runnable_tasks q) = 4" and "distinct (map fst (pending_tasks q))"
  shows "woken q [i] (wake i q)" and "blocks (wake i q) = blocks q" and "timeouts (wake i q) = timeouts q"
proof -
  show "blocks (wake i q) = blocks q" "timeouts (wake i q) = timeouts q" by (simp_all add: wake_def split: option.splits)
  show "woken q [i] (wake i q)"
  proof (cases "map_of (pending_tasks q) i")
    case None
    then have "filter (\<lambda>p. fst p \<noteq> i) (pending_tasks q) = pending_tasks q"
      by (auto simp: map_of_eq_None_iff image_iff intro!: filter_True)
    with None assms(1) show ?thesis by (simp add: wake_def woken_def)
  next
    case (Some t)
    let ?q = "q\<lparr>pending_tasks := AList.delete i (pending_tasks q)\<rparr>"
    have "mset (pending_tasks q) = add_mset (i, t) (mset (AList.delete i (pending_tasks q)))"
      by (rule delete_mset [OF assms(2) Some])
    then have "queue_tasks (push_runnable t ?q) = queue_tasks q"
      using assms(1) by (simp add: push_runnable_tasks) (simp add: queue_tasks_def)
    with Some assms(1) show ?thesis
      by (simp add: wake_def woken_def push_runnable_level delete_filter) (simp add: push_runnable_def Let_def)
  qed
qed

lemma map_of_filter_keys: "j \<notin> X \<Longrightarrow> map_of (filter (\<lambda>p. fst p \<notin> X) al) j = map_of al j"
  by (induction al) auto

lemma tasks_of_append [simp]: "tasks_of q (is @ js) = tasks_of q is @ tasks_of q js"
  by (simp add: tasks_of_def List.map_filter_def)

lemma tasks_of_cong:
  "(\<And>j. j \<in> set js \<Longrightarrow> map_of (pending_tasks q1) j = map_of (pending_tasks q) j) \<Longrightarrow> tasks_of q1 js = tasks_of q js"
  by (induction js) (simp_all split: option.splits)

lemma woken_trans:
  assumes "woken q is q1" and "woken q1 js q2" and "set is \<inter> set js = {}"
  shows "woken q (is @ js) q2"
proof -
  have "tasks_of q1 js = tasks_of q js"
  proof (rule tasks_of_cong)
    fix j assume "j \<in> set js"
    then have "j \<notin> set is" using assms(3) by blast
    then show "map_of (pending_tasks q1) j = map_of (pending_tasks q) j"
      using assms(1) map_of_filter_keys [of j "set is"] by (simp add: woken_def)
  qed
  then show ?thesis using assms(1,2) by (auto simp: woken_def intro!: filter_cong)
qed

lemma woken_distinct: "woken q is q1 \<Longrightarrow> distinct (map fst (pending_tasks q)) \<Longrightarrow> distinct (map fst (pending_tasks q1))"
  by (simp add: woken_def distinct_map_filter)

lemma fold_wake:
  assumes "length (runnable_tasks q) = 4" and "distinct (map fst (pending_tasks q))" and "distinct ids"
  shows "woken q ids (fold wake ids q) \<and> blocks (fold wake ids q) = blocks q \<and> timeouts (fold wake ids q) = timeouts q"
  using assms
proof (induction ids arbitrary: q)
  case Nil
  then show ?case by (simp add: woken_refl)
next
  case (Cons i ids)
  note w = wake_woken [OF Cons.prems(1,2), of i]
  have "length (runnable_tasks (wake i q)) = 4" using w(1) by (simp add: woken_def)
  from Cons.IH [OF this woken_distinct [OF w(1) Cons.prems(2)]] Cons.prems(3) w woken_trans [OF w(1)]
  show ?case by fastforce
qed

lemma woken_levels:
  assumes "woken q ids q'" and "levels_ok (runnable_tasks q)"
  shows "levels_ok (runnable_tasks q')"
  using assms by (auto simp: woken_def levels_ok_def)

text \<open>The waiting tasks that are left.\<close>

lemma waits_ok_woken:
  assumes "waits_ok gen ps bl ts"
    and "\<And>i c is. i \<in> fst ` set ps \<Longrightarrow> i \<notin> X \<Longrightarrow> bl c = Some is \<Longrightarrow> i \<in> set is \<Longrightarrow> \<exists>is'. bl' c = Some is' \<and> i \<in> set is'"
    and "\<And>i. i \<in> (fst \<circ> snd) ` set ts \<Longrightarrow> i \<notin> X \<Longrightarrow> i \<in> (fst \<circ> snd) ` set ts'"
    and "\<And>c is'. bl' c = Some is' \<Longrightarrow> \<exists>is P. bl c = Some is \<and> is' = filter P is"
    and "\<exists>us. ts = us @ ts'"
  shows "waits_ok gen (filter (\<lambda>p. fst p \<notin> X) ps) bl' ts'"
proof -
  note ok = waits_okD [OF assms(1)]
  obtain us where us: "ts = us @ ts'" using assms(5) by blast
  have "wakeable bl' ts' i" if "i \<in> fst ` set ps" "i \<notin> X" for i
    using ok(2) [OF that(1)] assms(2) [OF that] assms(3) [OF _ that(2)] unfolding wakeable_def by blast
  moreover have "distinct is' \<and> (\<forall>i \<in> set is'. i < gen)" if "bl' c = Some is'" for c is'
    using assms(4) [OF that] ok(3) by fastforce
  ultimately show ?thesis
    using ok(1,2,4,5,6) us unfolding waits_ok_def by (auto simp: distinct_map_filter sorted_append)
qed

subsection \<open>release\<close>

lemma release_chan_ok:
  assumes "queue_ok q" and "map_of (blocks q) chan = Some ids"
  shows "woken q ids (release_chan chan q)" and "queue_ok (release_chan chan q)"
    and "map_of (blocks (release_chan chan q)) = (map_of (blocks q))(chan := None)"
    and "timeouts (release_chan chan q) = timeouts q"
proof -
  note ok = queue_okD [OF assms(1)]
  note w = waits_okD [OF ok(4)]
  let ?q = "q\<lparr>blocks := AList.delete chan (blocks q)\<rparr>"
  have f: "woken ?q ids (fold wake ids ?q)" "blocks (fold wake ids ?q) = blocks ?q" "timeouts (fold wake ids ?q) = timeouts q"
    using fold_wake [of ?q ids] ok w(1) w(3) [OF assms(2)] by auto
  have r: "release_chan chan q = fold wake ids ?q" by (simp add: release_chan_def assms(2))
  have "queue_tasks ?q = queue_tasks q" "tasks_of ?q ids = tasks_of q ids" by (simp_all add: queue_tasks_def tasks_of_def)
  with f(1) show woken: "woken q ids (release_chan chan q)" by (simp add: r woken_def)
  show bl: "map_of (blocks (release_chan chan q)) = (map_of (blocks q))(chan := None)"
    by (simp add: r f(2) delete_conv')
  show ts: "timeouts (release_chan chan q) = timeouts q" by (simp add: r f(3))
  have "waits_ok (pending_id_gen q) (filter (\<lambda>p. fst p \<notin> set ids) (pending_tasks q)) ((map_of (blocks q))(chan := None)) (timeouts q)"
  proof (rule waits_ok_woken [OF ok(4)])
    fix i c js assume "i \<notin> set ids" "map_of (blocks q) c = Some js" "i \<in> set js"
    then show "\<exists>is'. ((map_of (blocks q))(chan := None)) c = Some is' \<and> i \<in> set is'" using assms(2) by auto
  next
    fix c is' assume "((map_of (blocks q))(chan := None)) c = Some is'"
    then show "\<exists>js P. map_of (blocks q) c = Some js \<and> is' = filter P js"
      by (auto split: if_splits intro!: exI [of _ "\<lambda>_. True"])
  qed auto
  moreover have "distinct (map fst (blocks (release_chan chan q)))"
    using ok(3) by (simp add: r f(2) distinct_delete)
  ultimately show "queue_ok (release_chan chan q)"
    using woken woken_levels [OF woken ok(1)] by (simp add: queue_ok_def bl ts woken_def)
qed

subsection \<open>elapse\<close>

lemma expire_woken:
  assumes "length (runnable_tasks q) = 4" and "distinct (map fst (pending_tasks q))"
  shows "woken q [i] ((expire i chan q)\<lparr>timeouts := ts\<rparr>)"
    and "map_of (blocks (expire i chan q)) c
      = map_option (filter (\<lambda>j. \<not> (chan = Some c \<and> j = i))) (map_of (blocks q) c)"
    and "map fst (blocks (expire i chan q)) = map fst (blocks q)"
proof -
  note w = wake_woken [OF assms, of i]
  have "queue_tasks ((expire i chan q)\<lparr>timeouts := ts\<rparr>) = queue_tasks (wake i q)"
    by (simp add: expire_def queue_tasks_def Let_def split: option.splits)
  with w(1) show "woken q [i] ((expire i chan q)\<lparr>timeouts := ts\<rparr>)"
    by (simp add: woken_def expire_def Let_def split: option.splits)
  show "map_of (blocks (expire i chan q)) c
      = map_option (filter (\<lambda>j. \<not> (chan = Some c \<and> j = i))) (map_of (blocks q) c)"
    by (auto simp: expire_def Let_def w(2) map_of_map_entry split: option.splits)
      (cases "map_of (blocks q) c"; simp)+
  show "map fst (blocks (expire i chan q)) = map fst (blocks q)"
    by (simp add: expire_def Let_def w(2) map_entry_keys split: option.splits)
qed

definition expired :: "nat \<Rightarrow> task_queue \<Rightarrow> (nat \<times> nat \<times> int option) list" where
  "expired now q = takeWhile (\<lambda>x. fst x \<le> now) (timeouts q)"

lemma elapse_woken:
  assumes "length (runnable_tasks q) = 4" and "distinct (map fst (pending_tasks q))"
    and "distinct (map (fst \<circ> snd) (timeouts q))"
  shows "woken q (map (fst \<circ> snd) (expired now q)) (elapse now q)
    \<and> timeouts (elapse now q) = dropWhile (\<lambda>x. fst x \<le> now) (timeouts q)
    \<and> (\<forall>c. map_of (blocks (elapse now q)) c
         = map_option (filter (\<lambda>i. \<forall>t. (t, i, Some c) \<notin> set (expired now q))) (map_of (blocks q) c))
    \<and> map fst (blocks (elapse now q)) = map fst (blocks q)"
  using assms
proof (induction now q rule: elapse.induct)
  case (1 now q)
  show ?case
  proof (cases "timeouts q")
    case Nil
    then show ?thesis
      using 1(2) by (simp add: elapse.simps [of now q] expired_def woken_refl) (auto simp: option.map_ident_strong)
  next
    case (Cons x rest)
    obtain t i chan where x: "x = (t, i, chan)" by (cases x)
    show ?thesis
    proof (cases "t \<le> now")
      case False
      with Cons x 1(2) show ?thesis
        by (simp add: elapse.simps [of now q] expired_def woken_refl) (auto simp: option.map_ident_strong)
    next
      case True
      let ?q = "(expire i chan q)\<lparr>timeouts := rest\<rparr>"
      note e = expire_woken [OF 1(2,3), where i = i and chan = chan]
      have el: "elapse now q = elapse now ?q" using Cons x True by (simp add: elapse.simps [of now q])
      have ex: "expired now q = (t, i, chan) # expired now ?q" using Cons x True by (simp add: expired_def)
      have len: "length (runnable_tasks ?q) = 4" using e(1) [where ts = rest] by (simp add: woken_def)
      have dist: "distinct (map (fst \<circ> snd) (timeouts ?q))" "i \<notin> set (map (fst \<circ> snd) (expired now ?q))"
        using 1(4) Cons x by (simp add: comp_def) (use 1(4) Cons x in \<open>auto simp: expired_def comp_def dest!: set_takeWhileD\<close>)
      note IH = 1(1) [OF Cons x [symmetric] refl True len woken_distinct [OF e(1) 1(3)] dist(1)]
      have wk: "woken q ([i] @ map (fst \<circ> snd) (expired now ?q)) (elapse now ?q)"
        by (rule woken_trans [OF e(1) conjunct1 [OF IH]]) (use dist(2) in simp)
      have blk: "map_of (blocks (elapse now ?q)) c
         = map_option (filter (\<lambda>j. \<forall>u. (u, j, Some c) \<notin> set (expired now q))) (map_of (blocks q) c)" for c
      proof -
        have "map_of (blocks (elapse now ?q)) c
          = map_option (filter (\<lambda>j. \<forall>u. (u, j, Some c) \<notin> set (expired now ?q))) (map_of (blocks ?q) c)" using IH by blast
        also have "map_of (blocks ?q) c = map_option (filter (\<lambda>j. \<not> (chan = Some c \<and> j = i))) (map_of (blocks q) c)"
          using e(2) by simp
        finally show ?thesis by (auto simp: ex option.map_comp o_def intro!: option.map_cong filter_cong)
      qed
      show ?thesis
        unfolding el
      proof (intro conjI allI blk)
        show "woken q (map (fst \<circ> snd) (expired now q)) (elapse now ?q)" using wk by (simp add: ex comp_def)
      qed (use IH e(3) Cons x True in \<open>simp_all\<close>)
    qed
  qed
qed

lemma elapse_ok:
  assumes "queue_ok q"
  shows "queue_ok (elapse now q)"
proof -
  note ok = queue_okD [OF assms]
  note w = waits_okD [OF ok(4)]
  let ?q = "elapse now q" and ?ex = "expired now q"
  have e: "woken q (map (fst \<circ> snd) ?ex) ?q" "timeouts ?q = dropWhile (\<lambda>x. fst x \<le> now) (timeouts q)"
    "map fst (blocks ?q) = map fst (blocks q)"
    and bl: "\<And>c. map_of (blocks ?q) c = map_option (filter (\<lambda>i. \<forall>t. (t, i, Some c) \<notin> set ?ex)) (map_of (blocks q) c)"
    using elapse_woken [OF ok(2) w(1,5), of now] by blast+
  have split: "timeouts q = ?ex @ timeouts ?q" by (simp add: expired_def e(2))
  let ?X = "(fst \<circ> snd) ` set ?ex"
  have "waits_ok (pending_id_gen q) (filter (\<lambda>p. fst p \<notin> ?X) (pending_tasks q)) (map_of (blocks ?q)) (timeouts ?q)"
  proof (rule waits_ok_woken [OF ok(4)])
    fix i c js assume i: "i \<notin> ?X" "map_of (blocks q) c = Some js" "i \<in> set js"
    then have "\<forall>t. (t, i, Some c) \<notin> set ?ex" by force
    with i bl [of c] show "\<exists>is'. map_of (blocks ?q) c = Some is' \<and> i \<in> set is'" by auto
  next
    fix i assume "i \<in> (fst \<circ> snd) ` set (timeouts q)" "i \<notin> ?X"
    then show "i \<in> (fst \<circ> snd) ` set (timeouts ?q)" unfolding split by auto
  next
    fix c is' assume "map_of (blocks ?q) c = Some is'"
    then show "\<exists>js P. map_of (blocks q) c = Some js \<and> is' = filter P js" using bl [of c] by auto
  next
    show "\<exists>us. timeouts q = us @ timeouts ?q" using split by blast
  qed
  then show ?thesis
    using e ok(3) woken_levels [OF e(1) ok(1)] by (simp add: queue_ok_def woken_def)
qed

section \<open>Properties\<close>

text \<open>
  C24: the scheduler picks the next task by priority, then in order of arrival. When \<open>dequeue\<close> returns, either
  no task may take over (none is runnable at any level, or, for \<open>yield\<close>, at the level of the current task or
  above), and then the current task goes on and the queue is as it was, also when it asked to sleep or
  block; or the next task is the front of the highest level that has one, its registers are saved, and the
  current task is set aside: at the back of its level, or pending.
\<close>

theorem dequeue_highest:
  assumes "queue_ok q" and "dequeue now c sw q = Ok (t, q')"
  shows "(t = c \<and> q' = q \<and> (\<forall>i. min_level c sw \<le> i \<and> i < 4 \<longrightarrow> runnable_tasks q ! i = []))
    \<or> (\<exists>i ts. min_level c sw \<le> i \<and> i < 4 \<and> runnable_tasks q ! i = t # ts
        \<and> (\<forall>j. i < j \<and> j < 4 \<longrightarrow> runnable_tasks q ! j = []) \<and> ctx_saved t
        \<and> queue_tasks q' + {#t#} = queue_tasks q + {#c\<lparr>ctx_saved := False\<rparr>#} \<and> queue_ok q'
        \<and> (case sw of
             Yield \<Rightarrow> c\<lparr>ctx_saved := False\<rparr> = last (runnable_tasks q' ! priority_index (task_priority c))
           | _ \<Rightarrow> c\<lparr>ctx_saved := False\<rparr> \<in> snd ` set (pending_tasks q')))"
  using assms(2)
proof (cases rule: dequeue_cases)
  case stay
  then show ?thesis by blast
next
  case (switch i ts)
  let ?c = "c\<lparr>ctx_saved := False\<rparr>"
  let ?q = "q\<lparr>runnable_tasks := (runnable_tasks q)[i := ts]\<rparr>"
  note tail = levels_ok_tail [OF queue_okD(1) [OF assms(1)] switch(2,3)]
  have ok: "queue_ok ?q" by (rule queue_ok_runnable [OF assms(1) tail(1)])
  note put = put_aside_ok [OF ok switch(6)]
  have len: "length (runnable_tasks ?q) = 4" by (rule queue_okD(2) [OF ok])
  have fresh: "pending_id_gen q \<notin> fst ` set (pending_tasks q)"
    using waits_okD(2) [OF queue_okD(4) [OF assms(1)]] by blast
  have "case sw of Yield \<Rightarrow> ?c = last (runnable_tasks q' ! priority_index (task_priority c))
      | _ \<Rightarrow> ?c \<in> snd ` set (pending_tasks q')"
  proof (cases sw)
    case Yield
    then have "q' = push_runnable ?c ?q" using switch(6) by (simp add: put_aside_def)
    then show ?thesis using Yield push_runnable_level [OF len, of "priority_index (task_priority c)" ?c] by simp
  next
    case (Sleep d)
    then show ?thesis
      using switch(6) by (auto simp: put_aside_def issue_pending_id_def push_timeout_def update_fresh [OF fresh] split: if_splits)
  next
    case (Blocked chan d)
    then show ?thesis
      using switch(6) by (auto simp: put_aside_def issue_pending_id_def push_timeout_def update_fresh [OF fresh] Let_def
          split: if_splits option.splits)
  qed
  moreover have "queue_tasks q' + {#t#} = queue_tasks q + {#?c#}"
    using put(2) tail(2) by (simp add: queue_tasks_def)
  ultimately show ?thesis using switch(1-5) put(1) by blast
qed

text \<open>A queue with two tasks, and one with a task that blocks on channel 7 with a timeout at tick 15.\<close>

definition sample_queue :: task_queue where
  "sample_queue = enqueue_task (new_task 1 L2) (enqueue_task (new_task 0 L1) new_task_queue)"

definition blocked_queue :: task_queue where
  "blocked_queue =
     \<lparr>pending_id_gen = 1, runnable_tasks = [[], [new_task 0 L1], [], []],
      pending_tasks = [(0, (new_task 2 L0)\<lparr>ctx_saved := False\<rparr>)], blocks = [(7, [0])], timeouts = [(15, 0, Some 7)]\<rparr>"

lemma sample_queue_ok: "queue_ok sample_queue"
  by (simp add: sample_queue_def enqueue_task_def push_runnable_ok queue_ok_new)

lemma dequeue_sample:
  "dequeue 5 (new_task 2 L0) (Blocked 7 (Some 10)) sample_queue = Ok (new_task 1 L2, blocked_queue)"
proof -
  have "pop_next 0 (runnable_tasks sample_queue) = Some (new_task 1 L2, [[], [new_task 0 L1], [], []])" by code_simp
  moreover have "pending_tasks sample_queue = []" "blocks sample_queue = []" "timeouts sample_queue = []" "pending_id_gen sample_queue = 0"
    by (simp_all add: sample_queue_def enqueue_task_def new_task_queue_def)
  ultimately show ?thesis
    by (simp add: dequeue_def put_aside_def issue_pending_id_def push_timeout_def blocked_queue_def new_task_def)
qed

lemma blocked_queue_ok: "queue_ok blocked_queue"
  using dequeue_ok(1) [OF sample_queue_ok dequeue_sample] .

theorem dequeue_highest_witness:
  "dequeue 5 (new_task 2 L0) (Blocked 7 (Some 10)) sample_queue = Ok (new_task 1 L2, blocked_queue)
   \<and> queue_tasks blocked_queue + {#new_task 1 L2#} = queue_tasks sample_queue + {#(new_task 2 L0)\<lparr>ctx_saved := False\<rparr>#}"
  using dequeue_highest [OF sample_queue_ok dequeue_sample] dequeue_sample by (auto simp: new_task_def)

text \<open>
  C25: releasing a channel makes exactly the tasks that block on it runnable, in the order in which they
  blocked, each at the back of its level; nobody blocks on the channel any more, no other task moves, and
  no task is lost.
\<close>

theorem release_wakes:
  assumes "queue_ok q"
  shows "woken q (case map_of (blocks q) chan of None \<Rightarrow> [] | Some ids \<Rightarrow> ids) (release_chan chan q)
    \<and> map_of (blocks (release_chan chan q)) = (map_of (blocks q))(chan := None)
    \<and> timeouts (release_chan chan q) = timeouts q \<and> queue_ok (release_chan chan q)"
proof (cases "map_of (blocks q) chan")
  case None
  then have "release_chan chan q = q" by (simp add: release_chan_def)
  with None assms queue_okD(2) [OF assms] show ?thesis by (simp add: woken_refl fun_upd_idem)
next
  case (Some ids)
  with release_chan_ok [OF assms Some] show ?thesis by simp
qed

theorem release_wakes_witness:
  "runnable_tasks (release_chan 7 blocked_queue) ! 0 = [(new_task 2 L0)\<lparr>ctx_saved := False\<rparr>]
   \<and> pending_tasks (release_chan 7 blocked_queue) = []"
  using release_wakes [OF blocked_queue_ok, of 7] by (simp add: woken_def blocked_queue_def new_task_def)

text \<open>
  C26: at a timer tick exactly the pending tasks whose timeout has passed become runnable, earliest first,
  and no longer block on their channel; the timeouts that remain all lie ahead, every task that is still
  pending can still be woken, and no task is lost.
\<close>

theorem elapse_wakes:
  assumes "queue_ok q"
  shows "\<exists>ex. timeouts q = ex @ timeouts (elapse now q)
    \<and> (\<forall>x \<in> set ex. fst x \<le> now) \<and> (\<forall>x \<in> set (timeouts (elapse now q)). now < fst x)
    \<and> woken q (map (fst \<circ> snd) ex) (elapse now q) \<and> queue_ok (elapse now q)"
proof -
  note ok = queue_okD [OF assms]
  note w = waits_okD [OF ok(4)]
  have e: "woken q (map (fst \<circ> snd) (expired now q)) (elapse now q)"
    "timeouts (elapse now q) = dropWhile (\<lambda>x. fst x \<le> now) (timeouts q)"
    using elapse_woken [OF ok(2) w(1,5), of now] by blast+
  have "now < fst x" if x: "x \<in> set (timeouts (elapse now q))" for x
  proof -
    obtain y ys where y: "dropWhile (\<lambda>x. fst x \<le> now) (timeouts q) = y # ys"
      using x e(2) by (cases "dropWhile (\<lambda>x. fst x \<le> now) (timeouts q)") auto
    then have "now < fst y" by (metis hd_dropWhile leI list.distinct(1) list.sel(1))
    moreover have "sorted (y # ys)" using sorted_dropWhile [OF w(4)] y by metis
    then have "y \<le> x" using x e(2) y by auto
    then have "fst y \<le> fst x" by (cases x; cases y) auto
    ultimately show ?thesis by simp
  qed
  moreover have "timeouts q = expired now q @ timeouts (elapse now q)" by (simp add: expired_def e(2))
  moreover have "\<forall>x \<in> set (expired now q). fst x \<le> now" by (auto simp: expired_def dest: set_takeWhileD)
  ultimately show ?thesis using e(1) elapse_ok [OF assms] by blast
qed

theorem elapse_wakes_witness:
  "pending_tasks (elapse 14 blocked_queue) \<noteq> [] \<and> pending_tasks (elapse 15 blocked_queue) = []
   \<and> runnable_tasks (elapse 15 blocked_queue) ! 0 = [(new_task 2 L0)\<lparr>ctx_saved := False\<rparr>]"
proof -
  have t: "timeouts blocked_queue = [(15, 0, Some 7)]" by (simp add: blocked_queue_def)
  obtain ex where 14: "timeouts blocked_queue = ex @ timeouts (elapse 14 blocked_queue)" "\<forall>x \<in> set ex. fst x \<le> 14"
    "woken blocked_queue (map (fst \<circ> snd) ex) (elapse 14 blocked_queue)"
    using elapse_wakes [OF blocked_queue_ok, of 14] by blast
  have "ex = []" using 14(1,2) t by (cases ex) auto
  then have "pending_tasks (elapse 14 blocked_queue) \<noteq> []" using 14(3) by (simp add: woken_def blocked_queue_def)
  moreover obtain ex' where 15: "timeouts blocked_queue = ex' @ timeouts (elapse 15 blocked_queue)"
    "\<forall>x \<in> set (timeouts (elapse 15 blocked_queue)). 15 < fst x"
    "woken blocked_queue (map (fst \<circ> snd) ex') (elapse 15 blocked_queue)"
    using elapse_wakes [OF blocked_queue_ok, of 15] by blast
  have "ex' \<noteq> []"
  proof
    assume "ex' = []"
    then have "timeouts (elapse 15 blocked_queue) = [(15, 0, Some 7)]" using 15(1) t by simp
    with 15(2) show False by simp
  qed
  then have "ex' = [(15, 0, Some 7)]" using 15(1) t by (cases ex') auto
  with 15(3) have "pending_tasks (elapse 15 blocked_queue) = []"
    "runnable_tasks (elapse 15 blocked_queue) ! 0 = [(new_task 2 L0)\<lparr>ctx_saved := False\<rparr>]"
    by (simp_all add: woken_def blocked_queue_def new_task_def)
  ultimately show ?thesis by blast
qed

section \<open>The system\<close>

text \<open>
  The scheduler with its processors. A processor that has left a task and not yet saved its registers
  notes the id of that task in \<open>sys_leaving\<close>; \<open>switch_context\<close> ends with storing the flag.
\<close>

record system =
  sys_sched :: scheduler
  sys_cpus :: "task cpu_state list"
  sys_leaving :: "nat option list"

definition mark_task :: "nat \<Rightarrow> task \<Rightarrow> task" where
  "mark_task i t = (if task_id t = i then t\<lparr>ctx_saved := True\<rparr> else t)"

definition mark_saved :: "nat \<Rightarrow> task_queue \<Rightarrow> task_queue" where
  "mark_saved i q = q\<lparr>runnable_tasks := map (map (mark_task i)) (runnable_tasks q),
    pending_tasks := map (\<lambda>(k, t). (k, mark_task i t)) (pending_tasks q)\<rparr>"

definition keeps_running :: "('w, 'b) scheduling_op \<Rightarrow> bool" where
  "keeps_running op \<longleftrightarrow> (\<forall>cpu w x cpu' w'. op (cpu, w) = Ok (x, (cpu', w')) \<longrightarrow> running_task cpu' = running_task cpu)"

lemma keeps_running_ops: "keeps_running yield_op" "keeps_running (sleep_op n)" "keeps_running (block_op c d f)"
  by (auto simp: keeps_running_def yield_op_def sleep_op_def block_op_def cli_drop_def Let_def split: if_splits)

text \<open>
  The steps: a task is added, a processor switches tasks, ends saving the task it left, or does something
  that concerns its own interrupt state only, a channel is released, or time passes. The ids of
  \<open>u64\<close> are assumed not to run out.
\<close>

inductive sys_step :: "system \<Rightarrow> system \<Rightarrow> bool" where
  add: "k < length (sys_cpus \<sigma>) \<Longrightarrow> task_id_gen (sys_sched \<sigma>) + 1 < 2 ^ 64 \<Longrightarrow>
    sched_add p (sys_sched \<sigma>, sys_cpus \<sigma> ! k) = Ok (i, (s, cpu)) \<Longrightarrow>
    sys_step \<sigma> (\<sigma>\<lparr>sys_sched := s, sys_cpus := (sys_cpus \<sigma>)[k := cpu]\<rparr>)"
| switch: "k < length (sys_cpus \<sigma>) \<Longrightarrow> sys_leaving \<sigma> ! k = None \<Longrightarrow> task_id_gen (sys_sched \<sigma>) + 1 < 2 ^ 64 \<Longrightarrow>
    keeps_running op \<Longrightarrow>
    switch_task now (op :: (unit, unit) scheduling_op) n (sys_sched \<sigma>, sys_cpus \<sigma> ! k, ()) = Ok ((left, ()), (s, cpu, ())) \<Longrightarrow>
    sys_step \<sigma> (\<sigma>\<lparr>sys_sched := s, sys_cpus := (sys_cpus \<sigma>)[k := cpu], sys_leaving := (sys_leaving \<sigma>)[k := left]\<rparr>)"
| saved: "k < length (sys_cpus \<sigma>) \<Longrightarrow> sys_leaving \<sigma> ! k = Some i \<Longrightarrow>
    sys_step \<sigma> (\<sigma>\<lparr>sys_sched := (sys_sched \<sigma>)\<lparr>sched_queue := mark_saved i (sched_queue (sys_sched \<sigma>))\<rparr>,
      sys_leaving := (sys_leaving \<sigma>)[k := None]\<rparr>)"
| local: "k < length (sys_cpus \<sigma>) \<Longrightarrow> running_task cpu = running_task (sys_cpus \<sigma> ! k) \<Longrightarrow>
    sys_step \<sigma> (\<sigma>\<lparr>sys_cpus := (sys_cpus \<sigma>)[k := cpu]\<rparr>)"
| release: "k < length (sys_cpus \<sigma>) \<Longrightarrow> sched_release chan (sys_sched \<sigma>, sys_cpus \<sigma> ! k) = Ok (s, cpu) \<Longrightarrow>
    sys_step \<sigma> (\<sigma>\<lparr>sys_sched := s, sys_cpus := (sys_cpus \<sigma>)[k := cpu]\<rparr>)"
| elapse: "k < length (sys_cpus \<sigma>) \<Longrightarrow> sched_elapse now (sys_sched \<sigma>, sys_cpus \<sigma> ! k) = Ok (s, cpu) \<Longrightarrow>
    sys_step \<sigma> (\<sigma>\<lparr>sys_sched := s, sys_cpus := (sys_cpus \<sigma>)[k := cpu]\<rparr>)"

definition initial_system :: "nat \<Rightarrow> system" where
  "initial_system n = \<lparr>sys_sched = new_scheduler, sys_cpus = replicate n new_cpu_state, sys_leaving = replicate n None\<rparr>"

definition running_ids :: "task cpu_state list \<Rightarrow> nat list" where
  "running_ids cpus = map task_id (List.map_filter running_task cpus)"

definition all_ids :: "system \<Rightarrow> nat multiset" where
  "all_ids \<sigma> = image_mset task_id (queue_tasks (sched_queue (sys_sched \<sigma>))) + mset (running_ids (sys_cpus \<sigma>))"

definition system_ok :: "system \<Rightarrow> bool" where
  "system_ok \<sigma> \<longleftrightarrow>
     queue_ok (sched_queue (sys_sched \<sigma>)) \<and> all_ids \<sigma> = mset [0..<task_id_gen (sys_sched \<sigma>)]
     \<and> length (sys_leaving \<sigma>) = length (sys_cpus \<sigma>)
     \<and> (\<forall>t \<in># queue_tasks (sched_queue (sys_sched \<sigma>)). \<not> ctx_saved t \<longrightarrow> Some (task_id t) \<in> set (sys_leaving \<sigma>))"

definition running_id :: "task cpu_state \<Rightarrow> nat multiset" where
  "running_id cpu = (case running_task cpu of None \<Rightarrow> {#} | Some t \<Rightarrow> {#task_id t#})"

lemma running_ids_sum: "mset (running_ids cpus) = sum_list (map running_id cpus)"
  by (induction cpus) (auto simp: running_ids_def running_id_def map_filter_simps split: option.splits)

lemma running_ids_update:
  assumes "k < length cpus"
  shows "mset (running_ids (cpus[k := cpu])) + running_id (cpus ! k) = mset (running_ids cpus) + running_id cpu"
  using assms unfolding running_ids_sum
proof (induction cpus arbitrary: k)
  case (Cons c cpus)
  then show ?case by (cases k) (auto simp: ac_simps)
qed simp

lemma running_ids_same:
  assumes "k < length cpus" and "running_task cpu = running_task (cpus ! k)"
  shows "mset (running_ids (cpus[k := cpu])) = mset (running_ids cpus)"
  using running_ids_update [OF assms(1), of cpu] assms(2) by (simp add: running_id_def)

lemma cli_running: "cli_new cpu = Ok cpu' \<Longrightarrow> running_task cpu' = running_task cpu"
  "cli_drop cpu = Ok cpu' \<Longrightarrow> running_task cpu' = running_task cpu"
  by (auto simp: cli_new_def cli_drop_def Let_def split: if_splits)

lemma locked_queueD:
  assumes "locked_queue f (s, cpu) = Ok (s', cpu')"
  shows "s' = s\<lparr>sched_queue := f (sched_queue s)\<rparr>" and "running_task cpu' = running_task cpu"
  using assms by (auto simp: locked_queue_def cli_running)

lemma mark_saved_ok:
  assumes "queue_ok q"
  shows "queue_ok (mark_saved i q)" and "queue_tasks (mark_saved i q) = image_mset (mark_task i) (queue_tasks q)"
proof -
  have "priority_index (task_priority (mark_task i t)) = priority_index (task_priority t)" for t by (simp add: mark_task_def)
  then have "levels_ok (map (map (mark_task i)) (runnable_tasks q))"
    using queue_okD(1) [OF assms] by (auto simp: levels_ok_def)
  moreover have "map fst (map (\<lambda>(k, t). (k, mark_task i t)) (pending_tasks q)) = map fst (pending_tasks q)" by auto
  then have "waits_ok gen (map (\<lambda>(k, t). (k, mark_task i t)) (pending_tasks q)) bl ts = waits_ok gen (pending_tasks q) bl ts" for gen bl ts
    unfolding waits_ok_def set_map [symmetric] by (simp only:)
  ultimately show "queue_ok (mark_saved i q)" using assms by (simp add: queue_ok_def mark_saved_def)
  show "queue_tasks (mark_saved i q) = image_mset (mark_task i) (queue_tasks q)"
    by (simp add: queue_tasks_def mark_saved_def map_concat [symmetric] image_mset.compositionality comp_def case_prod_unfold)
qed

text \<open>A switch of tasks, as a step of the queue.\<close>

lemma switch_taskD:
  assumes "switch_task now op n (s, cpu, w) = Ok ((left, r), (s', cpu', w'))" and "keeps_running op"
    and "current_task cpu s = (c, s1)"
  obtains t cts q where "running_task cpu' = Some t" and "s' = s1\<lparr>sched_queue := q\<rparr>"
    and "t = c \<and> left = None \<and> q = sched_queue s1
      \<or> (\<exists>sw u. dequeue now (c\<lparr>ctx_cts := cts\<rparr>) sw (sched_queue s1) = Ok (u, q)
           \<and> (if task_id u = task_id c then t = c \<and> left = None else t = u \<and> left = Some (task_id c)))"
proof -
  obtain cpu1 where c1: "cli_new cpu = Ok cpu1"
    using assms(1) by (cases "cli_new cpu") (simp_all add: switch_task_def)
  have ct: "current_task cpu1 s = (c, s1)" using assms(3) cli_running(1) [OF c1] by (simp add: current_task_def)
  have ok: "ncli (thread_state cpu1) = 1 + n" using assms(1) by (simp add: switch_task_def c1 split: if_splits)
  obtain cpu2 where c2: "cli_new cpu1 = Ok cpu2"
    using assms(1) by (cases "cli_new cpu1") (simp_all add: switch_task_def c1 ct ok)
  obtain sw ret cpu3 w3 where c3: "op (cpu2, w) = Ok ((sw, ret), (cpu3, w3))"
    using assms(1) by (cases "op (cpu2, w)") (auto simp: switch_task_def c1 ct ok c2)
  obtain cpu4 where c4: "cli_drop cpu3 = Ok cpu4"
    using assms(1) by (cases "cli_drop cpu3") (simp_all add: switch_task_def c1 ct ok c2 c3)
  let ?d = "case sw of None \<Rightarrow> Ok (c, sched_queue s1) | Some sw \<Rightarrow> dequeue now (c\<lparr>ctx_cts := thread_state cpu4\<rparr>) sw (sched_queue s1)"
  obtain u q where d: "?d = Ok (u, q)"
    using assms(1) by (cases ?d) (auto simp: switch_task_def c1 ct ok c2 c3 c4)
  have fin: "(if task_id u = task_id c then Ok ((None, ret), (s1\<lparr>sched_queue := q\<rparr>, cpu4\<lparr>running_task := Some c\<rparr>, w3))
      else Ok ((Some (task_id c), ret),
               (s1\<lparr>sched_queue := q\<rparr>, cpu4\<lparr>running_task := Some u, thread_state := ctx_cts u\<rparr>, w3)))
    = (Ok ((left, r), (s', cpu', w')) :: (unit, _) outcome)"
    using assms(1) d by (simp add: switch_task_def c1 ct ok c2 c3 c4)
  show ?thesis
  proof (cases "task_id u = task_id c")
    case True
    with fin d show ?thesis by (intro that [of c q "thread_state cpu4"]) (auto split: option.splits)
  next
    case False
    with fin d show ?thesis by (intro that [of u q "thread_state cpu4"]) (auto split: option.splits)
  qed
qed

text \<open>The invariant is kept by every step.\<close>

lemma system_okD:
  assumes "system_ok \<sigma>"
  shows "queue_ok (sched_queue (sys_sched \<sigma>))" and "all_ids \<sigma> = mset [0..<task_id_gen (sys_sched \<sigma>)]"
    and "length (sys_leaving \<sigma>) = length (sys_cpus \<sigma>)"
    and "\<And>t. t \<in># queue_tasks (sched_queue (sys_sched \<sigma>)) \<Longrightarrow> \<not> ctx_saved t \<Longrightarrow> Some (task_id t) \<in> set (sys_leaving \<sigma>)"
  using assms unfolding system_ok_def by blast+

lemma system_ok_queue:
  assumes "system_ok \<sigma>" and "k < length (sys_cpus \<sigma>)" and "locked_queue f (sys_sched \<sigma>, sys_cpus \<sigma> ! k) = Ok (s, cpu)"
    and "queue_ok (f (sched_queue (sys_sched \<sigma>)))"
    and "queue_tasks (f (sched_queue (sys_sched \<sigma>))) = queue_tasks (sched_queue (sys_sched \<sigma>))"
  shows "system_ok (\<sigma>\<lparr>sys_sched := s, sys_cpus := (sys_cpus \<sigma>)[k := cpu]\<rparr>)"
  using locked_queueD [OF assms(3)] running_ids_same [OF assms(2)] assms(1,4,5)
  by (simp add: system_ok_def all_ids_def)

lemma sched_add_ok:
  assumes "system_ok \<sigma>" and "k < length (sys_cpus \<sigma>)" and "task_id_gen (sys_sched \<sigma>) + 1 < 2 ^ 64"
    and "sched_add p (sys_sched \<sigma>, sys_cpus \<sigma> ! k) = Ok (i, (s, cpu))"
  shows "system_ok (\<sigma>\<lparr>sys_sched := s, sys_cpus := (sys_cpus \<sigma>)[k := cpu]\<rparr>)"
proof -
  note ok = system_okD [OF assms(1)]
  let ?s = "sys_sched \<sigma>" and ?i = "task_id_gen (sys_sched \<sigma>)"
  have l: "locked_queue (enqueue_task (new_task ?i p)) (?s\<lparr>task_id_gen := ?i + 1\<rparr>, sys_cpus \<sigma> ! k) = Ok (s, cpu)"
    using assms(3,4) by (auto simp: sched_add_def issue_task_id_def)
  note d = locked_queueD [OF l]
  have "queue_tasks (enqueue_task (new_task ?i p) (sched_queue ?s)) = add_mset (new_task ?i p) (queue_tasks (sched_queue ?s))"
    using queue_okD(2) [OF ok(1)] by (simp add: enqueue_task_def push_runnable_tasks)
  moreover have "queue_ok (enqueue_task (new_task ?i p) (sched_queue ?s))"
    using ok(1) by (simp add: enqueue_task_def push_runnable_ok)
  ultimately show ?thesis
    using ok d running_ids_same [OF assms(2) d(2)] by (auto simp: system_ok_def all_ids_def new_task_def)
qed

lemma current_task_ids:
  assumes "current_task cpu s = (c, s1)" and "task_id_gen s + 1 < 2 ^ 64"
  shows "sched_queue s1 = sched_queue s"
    and "running_id cpu + mset [task_id_gen s..<task_id_gen s1] = {#task_id c#}"
    and "task_id_gen s \<le> task_id_gen s1"
  using assms by (auto simp: current_task_def issue_task_id_def running_id_def new_current_def Let_def split: option.splits)

lemma dequeue_tasks:
  assumes "queue_ok q" and "dequeue now c sw q = Ok (t, q')"
  shows "t = c \<and> q' = q
    \<or> t \<in># queue_tasks q \<and> queue_tasks q' + {#t#} = queue_tasks q + {#c\<lparr>ctx_saved := False\<rparr>#}"
  using assms(2)
proof (cases rule: dequeue_cases)
  case (switch i ts)
  note tail = levels_ok_tail [OF queue_okD(1) [OF assms(1)] switch(2,3)]
  note put = put_aside_ok [OF queue_ok_runnable [OF assms(1) tail(1)] switch(6)]
  then show ?thesis using tail(2) by (simp add: queue_tasks_def)
qed simp

text \<open>The current task of a processor is not in the queue.\<close>

lemma current_not_queued:
  assumes "system_ok \<sigma>" and "k < length (sys_cpus \<sigma>)" and "task_id_gen (sys_sched \<sigma>) + 1 < 2 ^ 64"
    and "current_task (sys_cpus \<sigma> ! k) (sys_sched \<sigma>) = (c, s1)"
  shows "image_mset task_id (queue_tasks (sched_queue (sys_sched \<sigma>))) + mset (running_ids (sys_cpus \<sigma>))
      + mset [task_id_gen (sys_sched \<sigma>)..<task_id_gen s1] = mset [0..<task_id_gen s1]"
    and "task_id c \<notin># image_mset task_id (queue_tasks (sched_queue (sys_sched \<sigma>)))"
proof -
  note ok = system_okD [OF assms(1)]
  note ids = current_task_ids [OF assms(4,3)]
  let ?g = "task_id_gen (sys_sched \<sigma>)" and ?Q = "image_mset task_id (queue_tasks (sched_queue (sys_sched \<sigma>)))"
  have "[0..<task_id_gen s1] = [0..<?g] @ [?g..<task_id_gen s1]" using upt_add_eq_append [of 0 ?g "task_id_gen s1 - ?g"] ids(3) by simp
  then show all: "?Q + mset (running_ids (sys_cpus \<sigma>)) + mset [?g..<task_id_gen s1] = mset [0..<task_id_gen s1]"
    using ok(2) by (simp add: all_ids_def)
  let ?none = "(sys_cpus \<sigma> ! k)\<lparr>running_task := None\<rparr>"
  have "mset (running_ids ((sys_cpus \<sigma>)[k := ?none])) + running_id (sys_cpus \<sigma> ! k) = mset (running_ids (sys_cpus \<sigma>))"
    using running_ids_update [OF assms(2), of ?none] by (simp add: running_id_def)
  with all ids(2) have "?Q + mset (running_ids ((sys_cpus \<sigma>)[k := ?none])) + {#task_id c#} = mset [0..<task_id_gen s1]"
    by (metis (no_types, lifting) ab_semigroup_add_class.add_ac(1))
  then have "count (?Q + mset (running_ids ((sys_cpus \<sigma>)[k := ?none])) + {#task_id c#}) (task_id c) \<le> 1"
    by (metis distinct_count_atmost_1 distinct_upt le_refl zero_le_one)
  then have "count ?Q (task_id c) = 0" by simp
  then show "task_id c \<notin># ?Q" by (simp only: not_in_iff)
qed

lemma switch_ok:
  assumes "system_ok \<sigma>" and "k < length (sys_cpus \<sigma>)" and "sys_leaving \<sigma> ! k = None"
    and "task_id_gen (sys_sched \<sigma>) + 1 < 2 ^ 64" and "keeps_running op"
    and "switch_task now op n (sys_sched \<sigma>, sys_cpus \<sigma> ! k, ()) = Ok ((left, ()), (s, cpu, ()))"
  shows "system_ok (\<sigma>\<lparr>sys_sched := s, sys_cpus := (sys_cpus \<sigma>)[k := cpu], sys_leaving := (sys_leaving \<sigma>)[k := left]\<rparr>)"
proof -
  note ok = system_okD [OF assms(1)]
  let ?s = "sys_sched \<sigma>" and ?l = "(sys_leaving \<sigma>)[k := left]"
  obtain c s1 where ct: "current_task (sys_cpus \<sigma> ! k) ?s = (c, s1)" by fastforce
  note ids = current_task_ids [OF ct assms(4)]
  note cur = current_not_queued [OF assms(1,2,4) ct]
  let ?Q = "queue_tasks (sched_queue ?s)"
  obtain t cts q where t: "running_task cpu = Some t" "s = s1\<lparr>sched_queue := q\<rparr>"
    and d: "t = c \<and> left = None \<and> q = sched_queue s1
      \<or> (\<exists>sw u. dequeue now (c\<lparr>ctx_cts := cts\<rparr>) sw (sched_queue s1) = Ok (u, q)
           \<and> (if task_id u = task_id c then t = c \<and> left = None else t = u \<and> left = Some (task_id c)))"
    by (rule switch_taskD [OF assms(6,5) ct])
  have "queue_ok q \<and> (t = c \<and> left = None \<and> q = sched_queue ?s
      \<or> left = Some (task_id c) \<and> queue_tasks q + {#t#} = ?Q + {#c\<lparr>ctx_cts := cts, ctx_saved := False\<rparr>#})"
    using d
  proof (elim disjE exE conjE, goal_cases stay deq)
    case stay
    with ok(1) ids(1) show ?case by simp
  next
    case (deq sw u)
    have dq: "dequeue now (c\<lparr>ctx_cts := cts\<rparr>) sw (sched_queue ?s) = Ok (u, q)" using deq(1) ids(1) by simp
    from dequeue_tasks [OF ok(1) dq] dequeue_ok(1) [OF ok(1) dq] deq(2) cur(2) show ?case
      by (auto simp: image_iff)
  qed
  then have q: "queue_ok q" and alt: "t = c \<and> left = None \<and> q = sched_queue ?s
      \<or> left = Some (task_id c) \<and> queue_tasks q + {#t#} = ?Q + {#c\<lparr>ctx_cts := cts, ctx_saved := False\<rparr>#}" by auto
  have eq: "add_mset (task_id t) (image_mset task_id (queue_tasks q)) = add_mset (task_id c) (image_mset task_id ?Q)"
    using alt by (auto dest!: arg_cong [where f = "image_mset task_id"])
  have upd: "mset (running_ids ((sys_cpus \<sigma>)[k := cpu])) + running_id (sys_cpus \<sigma> ! k) = mset (running_ids (sys_cpus \<sigma>)) + {#task_id t#}"
    using running_ids_update [OF assms(2), of cpu] t(1) by (simp add: running_id_def)
  have "image_mset task_id (queue_tasks q) + mset (running_ids ((sys_cpus \<sigma>)[k := cpu])) + running_id (sys_cpus \<sigma> ! k)
      = add_mset (task_id t) (image_mset task_id (queue_tasks q)) + mset (running_ids (sys_cpus \<sigma>))"
    using upd by (simp add: ac_simps)
  also have "\<dots> = image_mset task_id ?Q + mset (running_ids (sys_cpus \<sigma>)) + {#task_id c#}" by (simp add: eq)
  also have "\<dots> = mset [0..<task_id_gen s1] + running_id (sys_cpus \<sigma> ! k)"
    unfolding ids(2) [symmetric] cur(1) [symmetric] by (simp add: ac_simps)
  finally have "image_mset task_id (queue_tasks q) + mset (running_ids ((sys_cpus \<sigma>)[k := cpu])) + running_id (sys_cpus \<sigma> ! k)
      = mset [0..<task_id_gen s1] + running_id (sys_cpus \<sigma> ! k)" .
  then have "image_mset task_id (queue_tasks q) + mset (running_ids ((sys_cpus \<sigma>)[k := cpu])) = mset [0..<task_id_gen s1]" by simp
  moreover have "Some (task_id u) \<in> set ?l" if u: "u \<in># queue_tasks q" "\<not> ctx_saved u" for u
  proof -
    have k: "k < length (sys_leaving \<sigma>)" using assms(2) ok(3) by simp
    have old: "Some (task_id u) \<in> set ?l" if uQ: "u \<in># ?Q"
    proof -
      obtain j where "j < length (sys_leaving \<sigma>)" "sys_leaving \<sigma> ! j = Some (task_id u)"
        using ok(4) [OF uQ u(2)] by (metis in_set_conv_nth)
      moreover have "j \<noteq> k" using assms(3) calculation by auto
      ultimately show ?thesis by (metis length_list_update nth_list_update_neq nth_mem)
    qed
    from alt show ?thesis
    proof (elim disjE conjE)
      assume "q = sched_queue ?s" then show ?thesis using u(1) old by simp
    next
      assume l: "left = Some (task_id c)" and "queue_tasks q + {#t#} = ?Q + {#c\<lparr>ctx_cts := cts, ctx_saved := False\<rparr>#}"
      then have "u \<in># ?Q + {#c\<lparr>ctx_cts := cts, ctx_saved := False\<rparr>#}" using u(1) by (metis union_iff)
      then show ?thesis using old l k by (auto simp: set_update_memI)
    qed
  qed
  ultimately show ?thesis using q ok(3) t(2) by (auto simp: system_ok_def all_ids_def)
qed

lemma saved_ok:
  assumes "system_ok \<sigma>" and "k < length (sys_cpus \<sigma>)" and "sys_leaving \<sigma> ! k = Some i"
  shows "system_ok (\<sigma>\<lparr>sys_sched := (sys_sched \<sigma>)\<lparr>sched_queue := mark_saved i (sched_queue (sys_sched \<sigma>))\<rparr>,
    sys_leaving := (sys_leaving \<sigma>)[k := None]\<rparr>)"
proof -
  note ok = system_okD [OF assms(1)]
  note m = mark_saved_ok [OF ok(1), of i]
  have ids: "image_mset task_id (image_mset (mark_task i) Q) = image_mset task_id Q" for Q
  proof -
    have "task_id \<circ> mark_task i = task_id" by (auto simp: mark_task_def)
    then show ?thesis by (simp add: image_mset.compositionality)
  qed
  have "Some (task_id t) \<in> set ((sys_leaving \<sigma>)[k := None])"
    if t: "t \<in># image_mset (mark_task i) (queue_tasks (sched_queue (sys_sched \<sigma>)))" "\<not> ctx_saved t" for t
  proof -
    obtain u where u: "u \<in># queue_tasks (sched_queue (sys_sched \<sigma>))" "t = mark_task i u" using t(1) by auto
    with t(2) have "t = u" "task_id u \<noteq> i" by (auto simp: mark_task_def split: if_splits)
    with ok(4) [OF u(1)] t(2) obtain j where "j < length (sys_leaving \<sigma>)" "sys_leaving \<sigma> ! j = Some (task_id t)"
      by (metis in_set_conv_nth)
    moreover have "j \<noteq> k" using calculation assms(3) \<open>t = u\<close> \<open>task_id u \<noteq> i\<close> by auto
    ultimately show ?thesis by (metis length_list_update nth_list_update_neq nth_mem)
  qed
  with m ok(2,3) ids show ?thesis by (simp add: system_ok_def all_ids_def)
qed

lemma sys_step_ok: "sys_step \<sigma> \<sigma>' \<Longrightarrow> system_ok \<sigma> \<Longrightarrow> system_ok \<sigma>'"
proof (induction rule: sys_step.induct)
  case (add k \<sigma> p i s cpu)
  show ?case by (rule sched_add_ok [OF add(4,1,2,3)])
next
  case (switch k \<sigma> op now n left s cpu)
  show ?case by (rule switch_ok [OF switch(6,1,2,3,4,5)])
next
  case (saved k \<sigma> i)
  show ?case by (rule saved_ok [OF saved(3,1,2)])
next
  case (local k \<sigma> cpu)
  then show ?case using running_ids_same [OF local(1,2)] by (simp add: system_ok_def all_ids_def)
next
  case (release k \<sigma> chan s cpu)
  note ok = system_okD(1) [OF release(3)]
  have "queue_ok (release_chan chan (sched_queue (sys_sched \<sigma>)))
      \<and> queue_tasks (release_chan chan (sched_queue (sys_sched \<sigma>))) = queue_tasks (sched_queue (sys_sched \<sigma>))"
  proof (cases "map_of (blocks (sched_queue (sys_sched \<sigma>))) chan")
    case None
    with ok show ?thesis by (simp add: release_chan_def)
  next
    case (Some ids)
    with release_chan_ok [OF ok Some] show ?thesis by (simp add: woken_def)
  qed
  with system_ok_queue [OF release(3,1,2) [unfolded sched_release_def]] show ?case by blast
next
  case (elapse k \<sigma> now s cpu)
  note ok = system_okD(1) [OF elapse(3)]
  note w = waits_okD [OF queue_okD(4) [OF ok]]
  have "queue_tasks (elapse now (sched_queue (sys_sched \<sigma>))) = queue_tasks (sched_queue (sys_sched \<sigma>))"
    using elapse_woken [OF queue_okD(2) [OF ok] w(1,5), of now] by (simp add: woken_def)
  with system_ok_queue [OF elapse(3,1,2) [unfolded sched_elapse_def]] elapse_ok [OF ok] show ?case by blast
qed

lemma initial_system_ok: "system_ok (initial_system n)"
proof -
  have "running_ids (replicate n new_cpu_state) = []"
    by (induction n) (simp_all add: running_ids_def new_cpu_state_def map_filter_simps)
  then show ?thesis
    by (simp add: system_ok_def initial_system_def new_scheduler_def queue_ok_new queue_tasks_new all_ids_def)
qed

text \<open>
  C7: no task is lost and none runs twice. In every state the system can reach, with any number of processors
  switching, adding, blocking, releasing and timing out in any order, each task that was ever created is in
  exactly one place: in the queue, runnable or pending, or running on one processor. A task in the queue
  whose registers are not saved yet is one that a processor is just leaving, so that the spinning in
  \<open>wait_saved\<close> is for something that will be done; every pending task can be woken.
\<close>

theorem tasks_conserved:
  assumes "rtranclp sys_step (initial_system n) \<sigma>"
  shows "image_mset task_id (queue_tasks (sched_queue (sys_sched \<sigma>))) + mset (running_ids (sys_cpus \<sigma>))
      = mset [0..<task_id_gen (sys_sched \<sigma>)]
    \<and> queue_ok (sched_queue (sys_sched \<sigma>))
    \<and> (\<forall>t \<in># queue_tasks (sched_queue (sys_sched \<sigma>)). \<not> ctx_saved t \<longrightarrow> Some (task_id t) \<in> set (sys_leaving \<sigma>))"
proof -
  from assms have "system_ok \<sigma>" by (induction rule: rtranclp_induct) (simp_all add: initial_system_ok sys_step_ok)
  then show ?thesis by (simp add: system_ok_def all_ids_def)
qed

theorem tasks_conserved_witness:
  "\<exists>\<sigma>. rtranclp sys_step (initial_system 2) \<sigma> \<and> task_id_gen (sys_sched \<sigma>) = 1
    \<and> image_mset task_id (queue_tasks (sched_queue (sys_sched \<sigma>))) + mset (running_ids (sys_cpus \<sigma>)) = {#0#}"
proof -
  let ?\<sigma> = "initial_system 2"
  obtain s cpu where a: "sched_add L1 (sys_sched ?\<sigma>, sys_cpus ?\<sigma> ! 0) = Ok (0, (s, cpu))" "task_id_gen s = 1"
    by (simp add: initial_system_def new_scheduler_def new_cpu_state_def new_thread_state_def sched_add_def issue_task_id_def
        locked_queue_def cli_new_def cli_drop_def Let_def)
  have "sys_step ?\<sigma> (?\<sigma>\<lparr>sys_sched := s, sys_cpus := (sys_cpus ?\<sigma>)[0 := cpu]\<rparr>)"
    by (rule sys_step.add [OF _ _ a(1)]) (simp_all add: initial_system_def new_scheduler_def)
  then have r: "rtranclp sys_step ?\<sigma> (?\<sigma>\<lparr>sys_sched := s, sys_cpus := (sys_cpus ?\<sigma>)[0 := cpu]\<rparr>)" by blast
  from tasks_conserved [OF this] a(2) r show ?thesis by (intro exI) auto
qed

section \<open>Wait channels\<close>

lemma issued_channel:
  assumes "int k < 2 ^ 63"
  shows "wait_channel_gen (((snd \<circ> issue_wait_channel) ^^ k) new_scheduler) = - 1 - int k"
  using assms
proof (induction k)
  case (Suc k)
  then show ?case by (simp add: issue_wait_channel_def Let_def)
qed (simp add: new_scheduler_def)

text \<open>
  The two kinds of wait channels never meet: a channel made of an address, with any offset, is not
  negative, and each of the first \<open>2 ^ 63\<close> channels issued by the scheduler is negative and different from
  those before it. So a release of one cannot wake a task that waits for the other.
\<close>

theorem wait_channels_disjoint:
  assumes "from_ptr_index ptr index = Ok c" and "int k < 2 ^ 63" and "j < k"
  shows "let issued = (\<lambda>n. fst (issue_wait_channel (((snd \<circ> issue_wait_channel) ^^ n) new_scheduler)))
    in issued k < 0 \<and> 0 \<le> c \<and> issued j \<noteq> issued k"
proof -
  have "0 \<le> c" using assms(1) by (auto simp: from_ptr_index_def Let_def split: if_splits)
  moreover have "int j < 2 ^ 63" using assms(2,3) by simp
  ultimately show ?thesis
    using issued_channel [OF assms(2)] issued_channel [of j] assms(3) by (simp add: issue_wait_channel_def Let_def)
qed

theorem wait_channels_disjoint_witness:
  "from_ptr_index 0xffffffff80001000 1 = Ok 0x7fffffff80001001
   \<and> fst (issue_wait_channel (((snd \<circ> issue_wait_channel) ^^ 1) new_scheduler)) < 0"
proof -
  have p: "from_ptr_index 0xffffffff80001000 1 = Ok 0x7fffffff80001001" by (simp add: from_ptr_index_def)
  from wait_channels_disjoint [OF p, of 1 0]
  have "fst (issue_wait_channel (((snd \<circ> issue_wait_channel) ^^ 1) new_scheduler)) < 0" unfolding Let_def by simp
  with p show ?thesis by blast
qed

end
