(* ===== verification/Sync.thy ===== *)
theory Sync
  imports Task_Scheduler
begin

text \<open>
  Blocking locks and queues, \<open>sync/mutex.rs\<close> and \<open>sync/queue.rs\<close>, as tasks on several processors interleave.
  A task runs \<open>MutexGuard::new\<close>, its drop, \<open>Queue::enqueue\<close> and the like in steps that are atomic: one critical
  section of a spin lock, or one operation of the lock-free queue. Where a task keeps a spin lock from one
  step to the next the lock is part of the state: that of \<open>Mutex::locked\<close> from the look at the flag until
  \<open>block\<close> has locked the task queue, and that of the task queue until the task is put aside.

  The scheduler is used through an interface, the locale \<open>wait_channels\<close>: who waits on a channel, what putting
  a task aside and releasing a channel do to it. The task queue of \<open>task.rs\<close> is shown to keep it.
  \<open>heapless::mpmc::MpMcQueue\<close> is a parameter.
\<close>

section \<open>Spin locks, and values computed once\<close>

text \<open>
  \<open>Spin\<close> is a \<open>spin::Mutex\<close>, a flag here, taken with the interrupt lock: first interrupts go off, and they come back
  after the flag is cleared. \<open>try_lock\<close> drops the interrupt lock when the flag is set, \<open>leak\<close> keeps both.
\<close>

definition spin_lock :: "bool \<times> 't cpu_state \<Rightarrow> (unit, bool \<times> 't cpu_state) outcome" where
  "spin_lock st = (let (l, cpu) = st in try_then (cli_new cpu) (\<lambda>cpu. if l then Hang else Ok (True, cpu)))"

definition spin_try_lock :: "bool \<times> 't cpu_state \<Rightarrow> (unit, bool \<times> bool \<times> 't cpu_state) outcome" where
  "spin_try_lock st =
     (let (l, cpu) = st in
      try_then (cli_new cpu) (\<lambda>cpu.
        if l then try_then (cli_drop cpu) (\<lambda>cpu. Ok (False, l, cpu)) else Ok (True, True, cpu)))"

definition spin_guard_drop :: "bool \<times> 't cpu_state \<Rightarrow> (unit, bool \<times> 't cpu_state) outcome" where
  "spin_guard_drop st = try_then (cli_drop (snd st)) (\<lambda>cpu. Ok (False, cpu))"

definition spin_guard_leak :: "bool \<times> 't cpu_state \<Rightarrow> bool \<times> 't cpu_state" where
  "spin_guard_leak st = st"

text \<open>
  \<open>Once::call_once\<close>: the function runs with interrupts off if there is no value yet. \<open>Lazy::force\<close> takes the
  function out of its cell to run it, and panics when it is gone but gave no value.
\<close>

definition once_call_once :: "('t cpu_state \<Rightarrow> (unit, 'a \<times> 't cpu_state) outcome) \<Rightarrow> 'a option \<times> 't cpu_state
    \<Rightarrow> (unit, 'a \<times> 'a option \<times> 't cpu_state) outcome" where
  "once_call_once f st =
     (case st of
        (Some d, cpu) \<Rightarrow> Ok (d, Some d, cpu)
      | (None, cpu) \<Rightarrow> try_then (with_cli f cpu) (\<lambda>(d, cpu). Ok (d, Some d, cpu)))"

record ('f, 'a) lazy_value =
  lazy_cell :: "'a option"
  lazy_init :: "'f option"

definition lazy_force :: "(('t cpu_state \<Rightarrow> (unit, 'a \<times> 't cpu_state) outcome), 'a) lazy_value \<times> 't cpu_state
    \<Rightarrow> (unit, 'a \<times> (('t cpu_state \<Rightarrow> (unit, 'a \<times> 't cpu_state) outcome), 'a) lazy_value \<times> 't cpu_state) outcome" where
  "lazy_force st =
     (let (z, cpu) = st in
      try_then (once_call_once (case lazy_init z of Some f \<Rightarrow> f | None \<Rightarrow> (\<lambda>_. Panic)) (lazy_cell z, cpu))
        (\<lambda>(d, c, cpu). Ok (d, \<lparr>lazy_cell = c, lazy_init = (case lazy_cell z of None \<Rightarrow> None | Some _ \<Rightarrow> lazy_init z)\<rparr>, cpu)))"

text \<open>Interrupts are off while the lock is held, and as before once it is free again.\<close>

lemma spin_lock_drop:
  assumes "cpu_ok cpu" and "ncli (thread_state cpu) + 2 < 2 ^ 32"
  shows "\<exists>cpu1 cpu2. spin_lock (False, cpu) = Ok (True, cpu1) \<and> \<not> interrupts_enabled cpu1
    \<and> spin_guard_drop (True, cpu1) = Ok (False, cpu2) \<and> same_locks cpu cpu2"
proof -
  have "nested [CliNew, CliDrop]" using nested.scope [OF nested.empty] by simp
  from nested_run [OF this assms(1)] assms(2) obtain cpu2 where cpu2: "cli_run [CliNew, CliDrop] cpu = Ok cpu2" "same_locks cpu cpu2"
    by auto
  then obtain cpu1 where cpu1: "cli_new cpu = Ok cpu1" "cli_drop cpu1 = Ok cpu2" by auto
  then have "\<not> interrupts_enabled cpu1" by (auto simp: cli_drop_def split: if_splits)
  with cpu1 cpu2 show ?thesis by (simp add: spin_lock_def spin_guard_drop_def)
qed

text \<open>A value is computed at most once: from then on it is given as it is, without calling the function.\<close>

lemma lazy_force_again:
  assumes "lazy_force (z, cpu) = Ok (d, z', cpu')"
  shows "lazy_force (z', cpu'') = Ok (d, z', cpu'')"
  using assms by (auto simp: lazy_force_def once_call_once_def split: option.splits)

section \<open>The scheduler as its clients see it\<close>

record 'q sched_ops =
  so_park :: "nat \<Rightarrow> task \<Rightarrow> switch \<Rightarrow> 'q \<Rightarrow> (unit, task \<times> 'q) outcome"
  so_release :: "int \<Rightarrow> 'q \<Rightarrow> 'q"
  so_queued :: "'q \<Rightarrow> nat set"
  so_other :: "'q \<Rightarrow> 'q \<Rightarrow> bool"

text \<open>The tasks that block on a channel.\<close>

definition blocked_on :: "task_queue \<Rightarrow> int \<Rightarrow> nat set" where
  "blocked_on q c =
     (case map_of (blocks q) c of None \<Rightarrow> {} | Some ids \<Rightarrow> task_id ` set (tasks_of q ids))"

text \<open>
  What else happens to the task queue: any task is added, yields, sleeps, blocks on another channel or
  releases a channel, and time passes.
\<close>

inductive other_step :: "int set \<Rightarrow> task_queue \<Rightarrow> task_queue \<Rightarrow> bool" for C where
  add: "other_step C q (enqueue_task t q)"
| switch: "dequeue now t sw q = Ok (u, q') \<Longrightarrow> (\<And>c d. sw = Blocked c d \<Longrightarrow> c \<notin> C) \<Longrightarrow> other_step C q q'"
| release: "other_step C q (release_chan c q)"
| time: "other_step C q (elapse now q)"

definition kernel_sched :: "int set \<Rightarrow> task_queue sched_ops" where
  "kernel_sched C =
     \<lparr>so_park = dequeue, so_release = release_chan,
      so_queued = (\<lambda>q. task_id ` (set (concat (runnable_tasks q)) \<union> snd ` set (pending_tasks q))), so_other = other_step C\<rparr>"

locale wait_channels =
  fixes S :: "'q sched_ops" and ok :: "'q \<Rightarrow> bool" and waiting :: "'q \<Rightarrow> int \<Rightarrow> nat set" and C :: "int set"
  assumes park_ok: "ok q \<Longrightarrow> so_park S now t sw q = Ok (u, q') \<Longrightarrow> ok q'"
    and park_waiting: "ok q \<Longrightarrow> so_park S now t (Blocked d e) q = Ok (u, q') \<Longrightarrow>
      waiting q' c \<subseteq> waiting q c \<union> (if c = d then {task_id t} else {})"
    and release_ok: "ok q \<Longrightarrow> ok (so_release S c q)"
    and release_waiting: "ok q \<Longrightarrow> waiting (so_release S c q) c = {}"
    and release_others: "ok q \<Longrightarrow> waiting (so_release S c q) d \<subseteq> waiting q d"
    and other_ok: "ok q \<Longrightarrow> so_other S q q' \<Longrightarrow> ok q'"
    and other_waiting: "ok q \<Longrightarrow> so_other S q q' \<Longrightarrow> c \<in> C \<Longrightarrow> waiting q' c \<subseteq> waiting q c"

subsection \<open>The task queue keeps the interface\<close>

lemma map_filter_set: "set (List.map_filter f xs) = {y. \<exists>x \<in> set xs. f x = Some y}"
  by (induction xs) (auto simp: map_filter_simps split: option.splits)

lemma in_blocked_on:
  "i \<in> blocked_on q c \<longleftrightarrow>
     (\<exists>ids n t. map_of (blocks q) c = Some ids \<and> n \<in> set ids \<and> map_of (pending_tasks q) n = Some t \<and> task_id t = i)"
  by (auto simp: blocked_on_def tasks_of_def map_filter_set image_iff split: option.splits)

text \<open>Tasks are only taken off the channels.\<close>

lemma blocked_on_mono:
  assumes "\<And>c ids. map_of (blocks q') c = Some ids \<Longrightarrow> \<exists>js. map_of (blocks q) c = Some js \<and> set ids \<subseteq> set js"
    and "\<And>n t. map_of (pending_tasks q') n = Some t \<Longrightarrow> map_of (pending_tasks q) n = Some t"
  shows "blocked_on q' c \<subseteq> blocked_on q c"
proof
  fix i assume "i \<in> blocked_on q' c"
  then obtain ids n t where t: "map_of (blocks q') c = Some ids" "n \<in> set ids" "map_of (pending_tasks q') n = Some t" "task_id t = i"
    by (auto simp: in_blocked_on)
  obtain js where "map_of (blocks q) c = Some js" "set ids \<subseteq> set js" using assms(1) [OF t(1)] by blast
  with t assms(2) [OF t(3)] show "i \<in> blocked_on q c" by (auto simp: in_blocked_on)
qed

lemma woken_pending:
  assumes "woken q ids q'"
  shows "map_of (pending_tasks q') n = Some t \<Longrightarrow> map_of (pending_tasks q) n = Some t"
proof -
  assume a: "map_of (pending_tasks q') n = Some t"
  have p: "pending_tasks q' = filter (\<lambda>p. fst p \<notin> set ids) (pending_tasks q)"
    using assms by (simp add: woken_def)
  have "n \<notin> set ids" using map_of_SomeD [OF a] by (simp add: p)
  then show ?thesis using a by (simp add: p map_of_filter_keys)
qed

lemma release_blocked:
  assumes "queue_ok q"
  shows "queue_ok (release_chan c q)" and "blocked_on (release_chan c q) c = {}"
    and "blocked_on (release_chan c q) d \<subseteq> blocked_on q d"
proof -
  show "queue_ok (release_chan c q)" "blocked_on (release_chan c q) c = {}"
    using release_chan_ok [OF assms, of c]
    by (cases "map_of (blocks q) c"; simp add: release_chan_def blocked_on_def assms)+
  show "blocked_on (release_chan c q) d \<subseteq> blocked_on q d"
  proof (cases "map_of (blocks q) c")
    case None
    then show ?thesis by (simp add: release_chan_def)
  next
    case (Some ids)
    note r = release_chan_ok [OF assms Some]
    show ?thesis
      by (rule blocked_on_mono) (use r(3) woken_pending [OF r(1)] in \<open>auto split: if_splits\<close>)
  qed
qed

lemma elapse_blocked:
  assumes "queue_ok q"
  shows "blocked_on (elapse now q) c \<subseteq> blocked_on q c"
proof -
  note ok = queue_okD [OF assms]
  note w = waits_okD [OF ok(4)]
  note e = elapse_woken [OF ok(2) w(1,5), of now]
  show ?thesis
  proof (rule blocked_on_mono)
    show "\<exists>js. map_of (blocks q) c = Some js \<and> set ids \<subseteq> set js" if "map_of (blocks (elapse now q)) c = Some ids" for c ids
      using that e by auto
  qed (use e woken_pending in blast)
qed

definition parks :: "switch \<Rightarrow> int \<Rightarrow> nat \<Rightarrow> nat set" where
  "parks sw c i = (case sw of Blocked d e \<Rightarrow> if c = d then {i} else {} | _ \<Rightarrow> {})"

lemma put_aside_blocked:
  assumes ok: "queue_ok q" and put: "put_aside now t sw q = Ok q'"
  shows "blocked_on q' c \<subseteq> blocked_on q c \<union> parks sw c (task_id t)"
proof -
  have w: "waits_ok (pending_id_gen q) (pending_tasks q) (map_of (blocks q)) (timeouts q)"
    using queue_okD [OF ok] by simp
  have fresh: "pending_id_gen q \<notin> fst ` set (pending_tasks q)"
    "map_of (blocks q) c = Some ids \<Longrightarrow> pending_id_gen q \<notin> set ids" for c ids
    using waits_okD(2,3) [OF w] by blast+
  show ?thesis
  proof (cases sw)
    case Yield
    then show ?thesis using put by (auto simp: put_aside_def in_blocked_on)
  next
    case (Sleep d)
    with put have "blocks q' = blocks q"
        "map_of (pending_tasks q') = (map_of (pending_tasks q))(pending_id_gen q \<mapsto> t)"
      by (auto simp: put_aside_def issue_pending_id_def push_timeout_def update_conv' split: if_splits)
    then show ?thesis using fresh(2) unfolding subset_iff in_blocked_on by (metis UnI1 fun_upd_apply in_blocked_on)
  next
    case (Blocked d e)
    with put have "map_of (blocks q') = (map_of (blocks q))(d \<mapsto>
          (case map_of (blocks q) d of None \<Rightarrow> [pending_id_gen q] | Some ids \<Rightarrow> ids @ [pending_id_gen q]))"
        "map_of (pending_tasks q') = (map_of (pending_tasks q))(pending_id_gen q \<mapsto> t)"
      by (auto simp: put_aside_def issue_pending_id_def push_timeout_def update_conv' map_of_map_default Let_def
          split: if_splits option.splits intro!: ext)
    note q' = this
    show ?thesis
    proof
      fix i assume "i \<in> blocked_on q' c"
      then obtain ids n u where u: "map_of (blocks q') c = Some ids" "n \<in> set ids" "map_of (pending_tasks q') n = Some u" "task_id u = i"
        by (auto simp: in_blocked_on)
      show "i \<in> blocked_on q c \<union> parks sw c (task_id t)"
      proof (cases "n = pending_id_gen q")
        case True
        then have "c = d" using u(1,2) q'(1) fresh(2) by (auto split: if_splits)
        then show ?thesis using True u(3,4) q'(2) Blocked by (simp add: parks_def)
      next
        case False
        then obtain js where "map_of (blocks q) c = Some js" "n \<in> set js"
          using u(1,2) q'(1) by (auto split: if_splits option.splits)
        then show ?thesis using False u(3,4) q'(2) by (auto simp: in_blocked_on)
      qed
    qed
  qed
qed

lemma dequeue_blocked:
  assumes ok: "queue_ok q" and deq: "dequeue now t sw q = Ok (u, q')"
  shows "blocked_on q' c \<subseteq> blocked_on q c \<union> parks sw c (task_id t)"
  using deq
proof (cases rule: dequeue_cases)
  case stay
  then show ?thesis by simp
next
  case (switch i ts)
  let ?q = "q\<lparr>runnable_tasks := (runnable_tasks q)[i := ts]\<rparr>"
  have "queue_ok ?q" using queue_ok_runnable [OF ok levels_ok_tail(1) [OF queue_okD(1) [OF ok] switch(2,3)]] .
  moreover have "blocked_on ?q c = blocked_on q c" by (auto simp: in_blocked_on)
  ultimately show ?thesis using put_aside_blocked [OF _ switch(6), of c] by simp
qed

lemma other_step_blocked:
  assumes "queue_ok q" and "other_step C q q'"
  shows "queue_ok q' \<and> (c \<in> C \<longrightarrow> blocked_on q' c \<subseteq> blocked_on q c)"
  using assms(2)
proof cases
  case (add t)
  then show ?thesis using assms(1) by (simp add: enqueue_task_def push_runnable_ok in_blocked_on subset_iff)
next
  case (switch now t sw u)
  then show ?thesis using dequeue_ok(1) [OF assms(1) switch(1)] dequeue_blocked [OF assms(1) switch(1), of c]
    by (auto simp: parks_def split: switch.splits if_splits)
next
  case (release d)
  then show ?thesis using release_blocked [OF assms(1)] by simp
next
  case (time now)
  then show ?thesis using elapse_ok [OF assms(1)] elapse_blocked [OF assms(1)] by simp
qed

interpretation kernel: wait_channels "kernel_sched C" queue_ok blocked_on C for C
proof
  show "queue_ok q'" if "queue_ok q" "so_park (kernel_sched C) now t sw q = Ok (u, q')" for q q' now t sw u
    using dequeue_ok(1) that by (simp add: kernel_sched_def)
  show "blocked_on q' c \<subseteq> blocked_on q c \<union> (if c = d then {task_id t} else {})"
    if "queue_ok q" "so_park (kernel_sched C) now t (Blocked d e) q = Ok (u, q')" for q q' now t d e u c
    using dequeue_blocked [of q now t "Blocked d e" u q' c] that by (simp add: kernel_sched_def parks_def)
qed (simp_all add: kernel_sched_def release_blocked other_step_blocked)

section \<open>Mutex\<close>

text \<open>
  Where a task is in \<open>MutexGuard::new\<close> or in the drop of the guard: at the head of the loop, with the spin lock
  of \<open>locked\<close> and the flag found set, in \<open>block\<close> with the task queue locked, in possession of the guard, or
  between the clearing of the flag and the call of \<open>release\<close>.
\<close>

datatype mutex_pc = MIdle | Trying | Checked | Parking | Holding | Releasing

record 'q mutex_sys =
  m_locked :: bool
  m_spin :: "nat option"
  m_qlock :: "nat option"
  m_sched :: 'q
  m_pc :: "nat \<Rightarrow> mutex_pc"

definition mutex_chan :: "int \<Rightarrow> (unit, int) outcome" where
  "mutex_chan ptr = from_ptr ptr"

definition guard_new_check :: "nat \<Rightarrow> 'q mutex_sys \<Rightarrow> (unit, 'q mutex_sys) outcome" where
  "guard_new_check i s =
     (if m_spin s \<noteq> None then Hang
      else if \<not> m_locked s then Ok (s\<lparr>m_locked := True, m_pc := (m_pc s)(i := Holding)\<rparr>)
      else Ok (s\<lparr>m_spin := Some i, m_pc := (m_pc s)(i := Checked)\<rparr>))"

definition guard_new_block :: "nat \<Rightarrow> 'q mutex_sys \<Rightarrow> (unit, 'q mutex_sys) outcome" where
  "guard_new_block i s =
     (if m_qlock s \<noteq> None then Hang
      else Ok (s\<lparr>m_qlock := Some i, m_spin := None, m_pc := (m_pc s)(i := Parking)\<rparr>))"

definition guard_new_park :: "'q sched_ops \<Rightarrow> int \<Rightarrow> nat \<Rightarrow> task \<Rightarrow> 'q mutex_sys \<Rightarrow> (unit, 'q mutex_sys) outcome" where
  "guard_new_park S chan now t s =
     try_then (so_park S now t (Blocked chan None) (m_sched s)) (\<lambda>(_, q).
       Ok (s\<lparr>m_qlock := None, m_sched := q, m_pc := (m_pc s)(task_id t := Trying)\<rparr>))"

definition guard_drop_unlock :: "nat \<Rightarrow> 'q mutex_sys \<Rightarrow> (unit, 'q mutex_sys) outcome" where
  "guard_drop_unlock i s =
     (if m_spin s \<noteq> None then Hang
      else Ok (s\<lparr>m_locked := False, m_pc := (m_pc s)(i := Releasing)\<rparr>))"

definition guard_drop_release :: "'q sched_ops \<Rightarrow> int \<Rightarrow> nat \<Rightarrow> 'q mutex_sys \<Rightarrow> (unit, 'q mutex_sys) outcome" where
  "guard_drop_release S chan i s =
     (if m_qlock s \<noteq> None then Hang
      else Ok (s\<lparr>m_sched := so_release S chan (m_sched s), m_pc := (m_pc s)(i := MIdle)\<rparr>))"

text \<open>The next step of a task; \<open>Hang\<close> while it has to spin.\<close>

definition mutex_exec :: "'q sched_ops \<Rightarrow> int \<Rightarrow> nat \<Rightarrow> task \<Rightarrow> 'q mutex_sys \<Rightarrow> (unit, 'q mutex_sys) outcome" where
  "mutex_exec S chan now t s =
     (case m_pc s (task_id t) of
        MIdle \<Rightarrow> Ok s
      | Trying \<Rightarrow> guard_new_check (task_id t) s
      | Checked \<Rightarrow> guard_new_block (task_id t) s
      | Parking \<Rightarrow> guard_new_park S chan now t s
      | Holding \<Rightarrow> guard_drop_unlock (task_id t) s
      | Releasing \<Rightarrow> guard_drop_release S chan (task_id t) s)"

text \<open>Tasks that run call \<open>lock\<close>, and do one step after another; between them anything happens to the task queue.\<close>

inductive mutex_step :: "'q sched_ops \<Rightarrow> int \<Rightarrow> 'q mutex_sys \<Rightarrow> 'q mutex_sys \<Rightarrow> bool" for S chan where
  call: "m_pc s i = MIdle \<Longrightarrow> mutex_step S chan s (s\<lparr>m_pc := (m_pc s)(i := Trying)\<rparr>)"
| exec: "task_id t \<notin> so_queued S (m_sched s) \<Longrightarrow> mutex_exec S chan now t s = Ok s' \<Longrightarrow> mutex_step S chan s s'"
| other: "m_qlock s = None \<Longrightarrow> so_other S (m_sched s) q \<Longrightarrow> mutex_step S chan s (s\<lparr>m_sched := q\<rparr>)"

definition new_mutex :: "'q \<Rightarrow> 'q mutex_sys" where
  "new_mutex q = \<lparr>m_locked = False, m_spin = None, m_qlock = None, m_sched = q, m_pc = (\<lambda>_. MIdle)\<rparr>"

inductive mutex_reach :: "'q sched_ops \<Rightarrow> int \<Rightarrow> 'q \<Rightarrow> 'q mutex_sys \<Rightarrow> bool" for S chan q where
  start: "mutex_reach S chan q (new_mutex q)"
| step: "mutex_reach S chan q s \<Longrightarrow> mutex_step S chan s s' \<Longrightarrow> mutex_reach S chan q s'"

text \<open>The invariant. The last part says that no wakeup is lost.\<close>

definition mutex_excl :: "'q mutex_sys \<Rightarrow> bool" where
  "mutex_excl s \<longleftrightarrow>
     (\<forall>i. m_spin s = Some i \<longleftrightarrow> m_pc s i = Checked) \<and> (\<forall>i. m_qlock s = Some i \<longleftrightarrow> m_pc s i = Parking)
     \<and> (\<forall>i j. m_pc s i = Holding \<and> m_pc s j = Holding \<longrightarrow> i = j) \<and> (m_locked s \<longleftrightarrow> (\<exists>i. m_pc s i = Holding))
     \<and> (m_spin s \<noteq> None \<longrightarrow> m_locked s)"

definition mutex_wakes :: "('q \<Rightarrow> int \<Rightarrow> nat set) \<Rightarrow> int \<Rightarrow> 'q mutex_sys \<Rightarrow> bool" where
  "mutex_wakes waiting chan s \<longleftrightarrow>
     ((waiting (m_sched s) chan \<noteq> {} \<or> (\<exists>i. m_pc s i = Parking)) \<and> \<not> m_locked s \<longrightarrow> (\<exists>i. m_pc s i = Releasing))"

lemmas mutex_exec_defs = mutex_exec_def guard_new_check_def guard_new_block_def guard_new_park_def
  guard_drop_unlock_def guard_drop_release_def

lemma mutex_exclD:
  assumes "mutex_excl s"
  shows "m_spin s = Some i \<longleftrightarrow> m_pc s i = Checked" and "m_qlock s = Some i \<longleftrightarrow> m_pc s i = Parking"
    and "m_pc s i = Holding \<Longrightarrow> m_pc s j = Holding \<Longrightarrow> i = j" and "m_locked s \<longleftrightarrow> (\<exists>i. m_pc s i = Holding)"
    and "m_pc s i = Checked \<Longrightarrow> m_locked s"
  using assms unfolding mutex_excl_def by blast+

text \<open>One task goes on, and what it holds goes with it.\<close>

lemma mutex_excl_upd:
  assumes ex: "mutex_excl s" and pc: "m_pc s' = (m_pc s)(i := p)"
    and spin: "m_spin s' = (if p = Checked then Some i else if m_pc s i = Checked then None else m_spin s)"
    and qlock: "m_qlock s' = (if p = Parking then Some i else if m_pc s i = Parking then None else m_qlock s)"
    and locked: "m_locked s' = (if p = Holding then True else if m_pc s i = Holding then False else m_locked s)"
    and free: "p = Checked \<Longrightarrow> m_spin s = None \<and> m_locked s" "p = Parking \<Longrightarrow> m_qlock s = None"
      "p = Holding \<Longrightarrow> \<not> m_locked s" "m_pc s i = Holding \<Longrightarrow> m_spin s = None \<and> p \<noteq> Checked"
  shows "mutex_excl s'"
  unfolding mutex_excl_def
proof (intro conjI allI impI)
  note e = mutex_exclD [OF ex]
  show "m_spin s' = Some j \<longleftrightarrow> m_pc s' j = Checked" for j
    using e(1) [of j] e(1) [of i] free(1) unfolding spin pc by auto
  show "m_qlock s' = Some j \<longleftrightarrow> m_pc s' j = Parking" for j
    using e(2) [of j] e(2) [of i] free(2) unfolding qlock pc by auto
  show "j = k" if "m_pc s' j = Holding \<and> m_pc s' k = Holding" for j k
    using that e(3) [of j k] e(4) free(3) unfolding pc by (cases "j = i"; cases "k = i"; simp; blast)
  show "m_locked s' \<longleftrightarrow> (\<exists>j. m_pc s' j = Holding)"
  proof (cases "p = Holding")
    case True
    then show ?thesis unfolding locked pc by auto
  next
    case False
    have "(\<exists>j. m_pc s' j = Holding) \<longleftrightarrow> (\<exists>j. j \<noteq> i \<and> m_pc s j = Holding)" unfolding pc using False by auto
    moreover have "(\<exists>j. j \<noteq> i \<and> m_pc s j = Holding) \<longleftrightarrow> m_pc s i \<noteq> Holding \<and> m_locked s"
      unfolding e(4) using e(3) [of i] by metis
    ultimately show ?thesis unfolding locked using False by simp
  qed
  show "m_locked s'" if "m_spin s' \<noteq> None"
  proof (cases "p = Checked")
    case True
    then show ?thesis using free(1,4) unfolding locked by auto
  next
    case False
    then obtain j where "m_spin s = Some j" "m_pc s i \<noteq> Checked" using \<open>m_spin s' \<noteq> None\<close> unfolding spin by (auto split: if_splits)
    moreover from this have "m_locked s" using e(1,5) by blast
    ultimately show ?thesis using free(4) unfolding locked by auto
  qed
qed

lemma mutex_exec_cases:
  assumes "mutex_exec S chan now t s = Ok s'"
  obtains (idle) "s' = s"
  | (acquire) "m_pc s (task_id t) = Trying" "m_spin s = None" "\<not> m_locked s"
      "s' = s\<lparr>m_locked := True, m_pc := (m_pc s)(task_id t := Holding)\<rparr>"
  | (check) "m_pc s (task_id t) = Trying" "m_spin s = None" "m_locked s"
      "s' = s\<lparr>m_spin := Some (task_id t), m_pc := (m_pc s)(task_id t := Checked)\<rparr>"
  | (block) "m_pc s (task_id t) = Checked" "m_qlock s = None"
      "s' = s\<lparr>m_qlock := Some (task_id t), m_spin := None, m_pc := (m_pc s)(task_id t := Parking)\<rparr>"
  | (park) u q where "m_pc s (task_id t) = Parking" "so_park S now t (Blocked chan None) (m_sched s) = Ok (u, q)"
      "s' = s\<lparr>m_qlock := None, m_sched := q, m_pc := (m_pc s)(task_id t := Trying)\<rparr>"
  | (unlock) "m_pc s (task_id t) = Holding" "m_spin s = None"
      "s' = s\<lparr>m_locked := False, m_pc := (m_pc s)(task_id t := Releasing)\<rparr>"
  | (release) "m_pc s (task_id t) = Releasing" "m_qlock s = None"
      "s' = s\<lparr>m_sched := so_release S chan (m_sched s), m_pc := (m_pc s)(task_id t := MIdle)\<rparr>"
  using assms by (cases "m_pc s (task_id t)") (auto simp: mutex_exec_defs split: if_splits)

lemma mutex_exec_excl:
  assumes "mutex_excl s" and "mutex_exec S chan now t s = Ok s'"
  shows "mutex_excl s'"
  using assms(2)
proof (cases rule: mutex_exec_cases)
  case idle
  then show ?thesis using assms(1) by simp
next
  case acquire
  then show ?thesis by (intro mutex_excl_upd [OF assms(1), where p = Holding]) auto
next
  case check
  then show ?thesis by (intro mutex_excl_upd [OF assms(1), where p = Checked]) auto
next
  case block
  then show ?thesis by (intro mutex_excl_upd [OF assms(1), where p = Parking]) auto
next
  case (park u q)
  then show ?thesis by (intro mutex_excl_upd [OF assms(1), where p = Trying]) auto
next
  case unlock
  then show ?thesis by (intro mutex_excl_upd [OF assms(1), where p = Releasing]) auto
next
  case release
  then show ?thesis by (intro mutex_excl_upd [OF assms(1), where p = MIdle]) auto
qed

context wait_channels
begin

lemma mutex_exec_wakes:
  assumes ex: "mutex_excl s" and wk: "mutex_wakes waiting chan s" and ok: "ok (m_sched s)"
    and exec: "mutex_exec S chan now t s = Ok s'"
  shows "mutex_wakes waiting chan s' \<and> ok (m_sched s')"
  using exec
proof (cases rule: mutex_exec_cases)
  case idle
  then show ?thesis using wk ok by simp
next
  case acquire
  then show ?thesis using ok by (simp add: mutex_wakes_def)
next
  case check
  then show ?thesis using ok by (simp add: mutex_wakes_def)
next
  case block
  then show ?thesis using ok mutex_exclD(5) [OF ex] by (simp add: mutex_wakes_def)
next
  case (park u q)
  have "mutex_wakes waiting chan s'"
    unfolding mutex_wakes_def
  proof (intro impI)
    assume "(waiting (m_sched s') chan \<noteq> {} \<or> (\<exists>i. m_pc s' i = Parking)) \<and> \<not> m_locked s'"
    then have "\<not> m_locked s" using park by simp
    then obtain j where "m_pc s j = Releasing" using wk park(1) unfolding mutex_wakes_def by blast
    then have "m_pc s' j = Releasing" using park by (cases "j = task_id t") simp_all
    then show "\<exists>i. m_pc s' i = Releasing" by blast
  qed
  then show ?thesis using park_ok [OF ok park(2)] park(3) by simp
next
  case unlock
  then have "m_pc s' (task_id t) = Releasing" by simp
  then show ?thesis using unlock ok unfolding mutex_wakes_def by auto
next
  case release
  have "\<nexists>i. m_pc s' i = Parking" using mutex_exclD(2) [OF ex] release by (auto split: if_splits)
  moreover have "waiting (m_sched s') chan = {}" using release_waiting [OF ok] release by simp
  ultimately show ?thesis using release_ok [OF ok] release unfolding mutex_wakes_def by simp
qed

lemma mutex_reach_inv:
  assumes "mutex_reach S chan q s" and "ok q" and "waiting q chan = {}" and "chan \<in> C"
  shows "mutex_excl s \<and> mutex_wakes waiting chan s \<and> ok (m_sched s)"
  using assms(1)
proof induction
  case start
  then show ?case using assms(2,3) by (simp add: new_mutex_def mutex_excl_def mutex_wakes_def)
next
  case (step s s')
  from step(2) show ?case
  proof cases
    case (call i)
    have "mutex_excl s" using step.IH by blast
    from mutex_excl_upd [OF this, where s' = s' and p = Trying and i = i] have "mutex_excl s'"
      using call by simp
    moreover have pc: "(\<exists>j. ((m_pc s)(i := Trying)) j = p) \<longleftrightarrow> (\<exists>j. m_pc s j = p)" if "p \<noteq> Trying" "p \<noteq> MIdle" for p
      using call(2) that by (metis fun_upd_apply)
    moreover have "(\<exists>j. m_pc s' j = Parking) \<longleftrightarrow> (\<exists>j. m_pc s j = Parking)" "(\<exists>j. m_pc s' j = Releasing) \<longleftrightarrow> (\<exists>j. m_pc s j = Releasing)"
      using pc [of Parking] pc [of Releasing] call(1) by simp_all
    ultimately show ?thesis using call step.IH unfolding mutex_wakes_def by simp
  next
    case (exec t now)
    show ?thesis using mutex_exec_excl [OF _ exec(2)] mutex_exec_wakes [OF _ _ _ exec(2)] step.IH by simp
  next
    case (other q')
    have "waiting q' chan \<subseteq> waiting (m_sched s) chan" "ok q'"
      using other_waiting other_ok other step.IH assms(4) by blast+
    moreover have "mutex_excl (s\<lparr>m_sched := q'\<rparr>) = mutex_excl s" by (simp add: mutex_excl_def)
    then have "mutex_excl s'" using other(1) step.IH by simp
    moreover have "m_sched s' = q'" "m_pc s' = m_pc s" "m_locked s' = m_locked s" using other by simp_all
    ultimately show ?thesis using step.IH unfolding mutex_wakes_def by (metis subset_empty)
  qed
qed

end

section \<open>Queue\<close>

text \<open>
  \<open>heapless::mpmc::MpMcQueue<T, N>\<close>, with its operations atomic: \<open>enqueue\<close> refuses the item when the queue is full,
  \<open>dequeue\<close> gives the oldest item, or nothing when the queue is empty.
\<close>

record ('r, 'a) mpmc =
  mp_enqueue :: "'r \<Rightarrow> 'a \<Rightarrow> 'r option"
  mp_dequeue :: "'r \<Rightarrow> ('a \<times> 'r) option"

definition mpmc_queue :: "('r, 'a) mpmc \<Rightarrow> ('r \<Rightarrow> 'a list) \<Rightarrow> nat \<Rightarrow> bool" where
  "mpmc_queue M items N \<longleftrightarrow>
     (\<forall>r x r'. mp_enqueue M r x = Some r' \<longrightarrow> items r' = items r @ [x]) \<and>
     (\<forall>r x. mp_enqueue M r x = None \<longrightarrow> N \<le> length (items r)) \<and>
     (\<forall>r x r'. mp_dequeue M r = Some (x, r') \<longrightarrow> items r = x # items r') \<and>
     (\<forall>r. mp_dequeue M r = None \<longrightarrow> items r = [])"

text \<open>
  The operations differ in how long they wait: \<open>enqueue\<close> and \<open>dequeue\<close> for ever, \<open>enqueue_timeout\<close> and
  \<open>dequeue_timeout\<close> once for some time, \<open>try_enqueue\<close> and \<open>try_dequeue\<close> not at all. Where a task is: before the
  first try, before \<open>switch\<close>, in \<open>switch\<close> with the task queue locked and the second try failed, before the third
  try, before the call of \<open>release\<close>, and back with a result.
\<close>

datatype wait_mode = Forever | Within nat | NoWait

primrec mode_timeout :: "wait_mode \<Rightarrow> nat option" where
  "mode_timeout Forever = None"
| "mode_timeout (Within n) = Some n"
| "mode_timeout NoWait = None"

datatype 'a queue_pc =
    QIdle
  | Enq wait_mode 'a | EnqSwitch wait_mode 'a | EnqPark wait_mode 'a | EnqAgain 'a | EnqRelease | EnqRefused 'a
  | Deq wait_mode | DeqSwitch wait_mode | DeqPark wait_mode | DeqAgain | DeqRelease 'a | DeqResult "'a option"

record ('q, 'r, 'a) queue_sys =
  inner :: 'r
  q_lock :: "nat option"
  q_sched :: 'q
  q_pc :: "nat \<Rightarrow> 'a queue_pc"

datatype 'a event = Put 'a | Took 'a | Silent

definition empty_chan :: "int \<Rightarrow> (unit, int) outcome" where
  "empty_chan ptr = from_ptr_index ptr 0"

definition full_chan :: "int \<Rightarrow> (unit, int) outcome" where
  "full_chan ptr = from_ptr_index ptr 1"

definition goto :: "nat \<Rightarrow> 'a queue_pc \<Rightarrow> ('q, 'r, 'a) queue_sys \<Rightarrow> ('q, 'r, 'a) queue_sys" where
  "goto i p s = s\<lparr>q_pc := (q_pc s)(i := p)\<rparr>"

text \<open>A try: on success \<open>release\<close> is next.\<close>

definition try_put :: "('r, 'a) mpmc \<Rightarrow> nat \<Rightarrow> 'a \<Rightarrow> ('q, 'r, 'a) queue_sys \<Rightarrow> ('q, 'r, 'a) queue_sys
    \<Rightarrow> 'a event \<times> ('q, 'r, 'a) queue_sys" where
  "try_put M i x refused s =
     (case mp_enqueue M (inner s) x of
        Some r \<Rightarrow> (Put x, goto i EnqRelease (s\<lparr>inner := r\<rparr>))
      | None \<Rightarrow> (Silent, refused))"

definition try_take :: "('r, 'a) mpmc \<Rightarrow> nat \<Rightarrow> ('q, 'r, 'a) queue_sys \<Rightarrow> ('q, 'r, 'a) queue_sys
    \<Rightarrow> 'a event \<times> ('q, 'r, 'a) queue_sys" where
  "try_take M i refused s =
     (case mp_dequeue M (inner s) of
        Some (x, r) \<Rightarrow> (Took x, goto i (DeqRelease x) (s\<lparr>inner := r\<rparr>))
      | None \<Rightarrow> (Silent, refused))"

definition park_on :: "'q sched_ops \<Rightarrow> int \<Rightarrow> wait_mode \<Rightarrow> nat \<Rightarrow> task \<Rightarrow> 'a queue_pc \<Rightarrow> ('q, 'r, 'a) queue_sys
    \<Rightarrow> (unit, 'a event \<times> ('q, 'r, 'a) queue_sys) outcome" where
  "park_on S chan m now t p s =
     try_then (so_park S now t (Blocked chan (mode_timeout m)) (q_sched s)) (\<lambda>(_, q).
       Ok (Silent, goto (task_id t) p (s\<lparr>q_lock := None, q_sched := q\<rparr>)))"

definition release_on :: "'q sched_ops \<Rightarrow> int \<Rightarrow> nat \<Rightarrow> 'a queue_pc \<Rightarrow> ('q, 'r, 'a) queue_sys
    \<Rightarrow> (unit, 'a event \<times> ('q, 'r, 'a) queue_sys) outcome" where
  "release_on S chan i p s =
     (if q_lock s \<noteq> None then Hang else Ok (Silent, goto i p (s\<lparr>q_sched := so_release S chan (q_sched s)\<rparr>)))"

text \<open>The next step of a task; \<open>Hang\<close> while it has to spin.\<close>

definition enqueue_exec :: "('r, 'a) mpmc \<Rightarrow> 'q sched_ops \<Rightarrow> int \<Rightarrow> int \<Rightarrow> nat \<Rightarrow> task \<Rightarrow> ('q, 'r, 'a) queue_sys
    \<Rightarrow> (unit, 'a event \<times> ('q, 'r, 'a) queue_sys) outcome" where
  "enqueue_exec M S ec fc now t s =
     (let i = task_id t in
      case q_pc s i of
        Enq m x \<Rightarrow> Ok (try_put M i x (goto i (if m = NoWait then EnqRefused x else EnqSwitch m x) s) s)
      | EnqSwitch m x \<Rightarrow>
          if q_lock s \<noteq> None then Hang
          else Ok (try_put M i x (goto i (EnqPark m x) (s\<lparr>q_lock := Some i\<rparr>)) s)
      | EnqPark m x \<Rightarrow> park_on S fc m now t (case m of Within _ \<Rightarrow> EnqAgain x | _ \<Rightarrow> Enq m x) s
      | EnqAgain x \<Rightarrow> Ok (try_put M i x (goto i (EnqRefused x) s) s)
      | EnqRelease \<Rightarrow> release_on S ec i QIdle s
      | _ \<Rightarrow> Ok (Silent, s))"

definition dequeue_exec :: "('r, 'a) mpmc \<Rightarrow> 'q sched_ops \<Rightarrow> int \<Rightarrow> int \<Rightarrow> nat \<Rightarrow> task \<Rightarrow> ('q, 'r, 'a) queue_sys
    \<Rightarrow> (unit, 'a event \<times> ('q, 'r, 'a) queue_sys) outcome" where
  "dequeue_exec M S ec fc now t s =
     (let i = task_id t in
      case q_pc s i of
        Deq m \<Rightarrow> Ok (try_take M i (goto i (if m = NoWait then DeqResult None else DeqSwitch m) s) s)
      | DeqSwitch m \<Rightarrow>
          if q_lock s \<noteq> None then Hang
          else Ok (try_take M i (goto i (DeqPark m) (s\<lparr>q_lock := Some i\<rparr>)) s)
      | DeqPark m \<Rightarrow> park_on S ec m now t (case m of Within _ \<Rightarrow> DeqAgain | _ \<Rightarrow> Deq m) s
      | DeqAgain \<Rightarrow> Ok (try_take M i (goto i (DeqResult None) s) s)
      | DeqRelease x \<Rightarrow> release_on S fc i (DeqResult (Some x)) s
      | _ \<Rightarrow> Ok (Silent, s))"

definition finished :: "'a queue_pc \<Rightarrow> bool" where
  "finished p = (case p of QIdle \<Rightarrow> True | EnqRefused _ \<Rightarrow> True | DeqResult _ \<Rightarrow> True | _ \<Rightarrow> False)"

text \<open>A run of the queue, with what was put in and taken out, in order.\<close>

inductive queue_run :: "('r, 'a) mpmc \<Rightarrow> 'q sched_ops \<Rightarrow> int \<Rightarrow> int \<Rightarrow> ('q, 'r, 'a) queue_sys \<Rightarrow> 'a event list
    \<Rightarrow> ('q, 'r, 'a) queue_sys \<Rightarrow> bool" for M S ec fc s0 where
  start: "queue_run M S ec fc s0 [] s0"
| put: "queue_run M S ec fc s0 es s \<Longrightarrow> finished (q_pc s i) \<Longrightarrow> queue_run M S ec fc s0 es (goto i (Enq m x) s)"
| take: "queue_run M S ec fc s0 es s \<Longrightarrow> finished (q_pc s i) \<Longrightarrow> queue_run M S ec fc s0 es (goto i (Deq m) s)"
| enq: "queue_run M S ec fc s0 es s \<Longrightarrow> task_id t \<notin> so_queued S (q_sched s) \<Longrightarrow>
    enqueue_exec M S ec fc now t s = Ok (e, s') \<Longrightarrow> queue_run M S ec fc s0 (es @ [e]) s'"
| deq: "queue_run M S ec fc s0 es s \<Longrightarrow> task_id t \<notin> so_queued S (q_sched s) \<Longrightarrow>
    dequeue_exec M S ec fc now t s = Ok (e, s') \<Longrightarrow> queue_run M S ec fc s0 (es @ [e]) s'"
| other: "queue_run M S ec fc s0 es s \<Longrightarrow> q_lock s = None \<Longrightarrow> so_other S (q_sched s) q \<Longrightarrow>
    queue_run M S ec fc s0 es (s\<lparr>q_sched := q\<rparr>)"

definition new_queue :: "'r \<Rightarrow> 'q \<Rightarrow> ('q, 'r, 'a) queue_sys" where
  "new_queue r q = \<lparr>inner = r, q_lock = None, q_sched = q, q_pc = (\<lambda>_. QIdle)\<rparr>"

definition puts :: "'a event list \<Rightarrow> 'a list" where
  "puts es = List.map_filter (\<lambda>e. case e of Put x \<Rightarrow> Some x | _ \<Rightarrow> None) es"

definition takes :: "'a event list \<Rightarrow> 'a list" where
  "takes es = List.map_filter (\<lambda>e. case e of Took x \<Rightarrow> Some x | _ \<Rightarrow> None) es"

subsection \<open>Waking, one channel at a time\<close>

text \<open>
  Something waits (\<open>W\<close>, or a task is about to) although it need not any more (\<open>B\<close>): then a task is about to
  release the channel. \<open>P\<close> and \<open>R\<close> say of a task that it is about to wait, and to release.
\<close>

definition wake_side :: "bool \<Rightarrow> ('p \<Rightarrow> bool) \<Rightarrow> ('p \<Rightarrow> bool) \<Rightarrow> bool \<Rightarrow> (nat \<Rightarrow> 'p) \<Rightarrow> bool" where
  "wake_side W P R B f \<longleftrightarrow> ((W \<or> (\<exists>i. P (f i))) \<and> B \<longrightarrow> (\<exists>i. R (f i)))"

lemma wake_side_upd:
  assumes "wake_side W P R B f"
    and "W' \<Longrightarrow> W \<or> P (f i)" and "P p \<Longrightarrow> \<not> B'" and "B' \<Longrightarrow> B \<or> R p" and "R (f i) \<Longrightarrow> R p"
  shows "wake_side W' P R B' (f(i := p))"
  unfolding wake_side_def
proof (intro impI, elim conjE)
  assume W': "W' \<or> (\<exists>j. P ((f(i := p)) j))" and B': "B'"
  show "\<exists>j. R ((f(i := p)) j)"
  proof (cases "R p")
    case True
    then show ?thesis by (intro exI [of _ i]) simp
  next
    case False
    have "W \<or> (\<exists>j. P (f j))" using W' assms(2,3) B' by (metis fun_upd_apply)
    then obtain k where "R (f k)" using assms(1,4) B' False unfolding wake_side_def by blast
    then show ?thesis using assms(5) False by (metis fun_upd_apply)
  qed
qed

lemma wake_side_released: "\<not> W \<Longrightarrow> (\<And>i. \<not> P (f i)) \<Longrightarrow> wake_side W P R B f"
  by (simp add: wake_side_def)

primrec enq_parks :: "'a queue_pc \<Rightarrow> bool" where
  "enq_parks QIdle = False" | "enq_parks (Enq m x) = False" | "enq_parks (EnqSwitch m x) = False"
| "enq_parks (EnqPark m x) = True" | "enq_parks (EnqAgain x) = False" | "enq_parks EnqRelease = False"
| "enq_parks (EnqRefused x) = False" | "enq_parks (Deq m) = False" | "enq_parks (DeqSwitch m) = False"
| "enq_parks (DeqPark m) = False" | "enq_parks DeqAgain = False" | "enq_parks (DeqRelease x) = False"
| "enq_parks (DeqResult r) = False"

primrec deq_parks :: "'a queue_pc \<Rightarrow> bool" where
  "deq_parks QIdle = False" | "deq_parks (Enq m x) = False" | "deq_parks (EnqSwitch m x) = False"
| "deq_parks (EnqPark m x) = False" | "deq_parks (EnqAgain x) = False" | "deq_parks EnqRelease = False"
| "deq_parks (EnqRefused x) = False" | "deq_parks (Deq m) = False" | "deq_parks (DeqSwitch m) = False"
| "deq_parks (DeqPark m) = True" | "deq_parks DeqAgain = False" | "deq_parks (DeqRelease x) = False"
| "deq_parks (DeqResult r) = False"

primrec deq_releases :: "'a queue_pc \<Rightarrow> bool" where
  "deq_releases QIdle = False" | "deq_releases (Enq m x) = False" | "deq_releases (EnqSwitch m x) = False"
| "deq_releases (EnqPark m x) = False" | "deq_releases (EnqAgain x) = False" | "deq_releases EnqRelease = False"
| "deq_releases (EnqRefused x) = False" | "deq_releases (Deq m) = False" | "deq_releases (DeqSwitch m) = False"
| "deq_releases (DeqPark m) = False" | "deq_releases DeqAgain = False" | "deq_releases (DeqRelease x) = True"
| "deq_releases (DeqResult r) = False"

definition plain :: "'a queue_pc \<Rightarrow> bool" where
  "plain p \<longleftrightarrow> \<not> enq_parks p \<and> \<not> deq_parks p \<and> p \<noteq> EnqRelease \<and> \<not> deq_releases p"

text \<open>The kinds of steps a task can make.\<close>

inductive queue_kind :: "('r, 'a) mpmc \<Rightarrow> 'q sched_ops \<Rightarrow> int \<Rightarrow> int \<Rightarrow> ('q, 'r, 'a) queue_sys \<Rightarrow> 'a event
    \<Rightarrow> ('q, 'r, 'a) queue_sys \<Rightarrow> bool" for M S ec fc s where
  skip: "queue_kind M S ec fc s Silent s"
| move: "plain (q_pc s i) \<Longrightarrow> plain p \<Longrightarrow> queue_kind M S ec fc s Silent (goto i p s)"
| put: "plain (q_pc s i) \<Longrightarrow> mp_enqueue M (inner s) x = Some r \<Longrightarrow>
    queue_kind M S ec fc s (Put x) (goto i EnqRelease (s\<lparr>inner := r\<rparr>))"
| took: "plain (q_pc s i) \<Longrightarrow> mp_dequeue M (inner s) = Some (x, r) \<Longrightarrow>
    queue_kind M S ec fc s (Took x) (goto i (DeqRelease x) (s\<lparr>inner := r\<rparr>))"
| full: "plain (q_pc s i) \<Longrightarrow> q_lock s = None \<Longrightarrow> mp_enqueue M (inner s) x = None \<Longrightarrow>
    queue_kind M S ec fc s Silent (goto i (EnqPark m y) (s\<lparr>q_lock := Some i\<rparr>))"
| empty: "plain (q_pc s i) \<Longrightarrow> q_lock s = None \<Longrightarrow> mp_dequeue M (inner s) = None \<Longrightarrow>
    queue_kind M S ec fc s Silent (goto i (DeqPark m) (s\<lparr>q_lock := Some i\<rparr>))"
| park_enq: "enq_parks (q_pc s (task_id t)) \<Longrightarrow> so_park S now t (Blocked fc d) (q_sched s) = Ok (u, q) \<Longrightarrow> plain p \<Longrightarrow>
    queue_kind M S ec fc s Silent (goto (task_id t) p (s\<lparr>q_lock := None, q_sched := q\<rparr>))"
| park_deq: "deq_parks (q_pc s (task_id t)) \<Longrightarrow> so_park S now t (Blocked ec d) (q_sched s) = Ok (u, q) \<Longrightarrow> plain p \<Longrightarrow>
    queue_kind M S ec fc s Silent (goto (task_id t) p (s\<lparr>q_lock := None, q_sched := q\<rparr>))"
| release_enq: "q_pc s i = EnqRelease \<Longrightarrow> q_lock s = None \<Longrightarrow> plain p \<Longrightarrow>
    queue_kind M S ec fc s Silent (goto i p (s\<lparr>q_sched := so_release S ec (q_sched s)\<rparr>))"
| release_deq: "deq_releases (q_pc s i) \<Longrightarrow> q_lock s = None \<Longrightarrow> plain p \<Longrightarrow>
    queue_kind M S ec fc s Silent (goto i p (s\<lparr>q_sched := so_release S fc (q_sched s)\<rparr>))"

lemma plain_simps [simp]:
  "plain QIdle" "plain (Enq m x)" "plain (EnqSwitch m x)" "plain (EnqAgain x)" "plain (EnqRefused x)"
  "plain (Deq m)" "plain (DeqSwitch m)" "plain DeqAgain" "plain (DeqResult r)"
  by (simp_all add: plain_def)

lemma enqueue_kind:
  assumes "enqueue_exec M S ec fc now t s = Ok (e, s')"
  shows "queue_kind M S ec fc s e s'"
proof (cases "q_pc s (task_id t)")
  case (Enq m x)
  then show ?thesis using assms
    by (auto simp: enqueue_exec_def Let_def try_put_def split: option.splits if_splits intro!: queue_kind.intros)
next
  case (EnqSwitch m x)
  then show ?thesis using assms
    by (auto simp: enqueue_exec_def Let_def try_put_def split: option.splits if_splits intro!: queue_kind.intros)
next
  case (EnqPark m x)
  then show ?thesis using assms
    by (cases m) (auto simp: enqueue_exec_def Let_def park_on_def intro!: queue_kind.park_enq)
next
  case (EnqAgain x)
  then show ?thesis using assms
    by (auto simp: enqueue_exec_def Let_def try_put_def split: option.splits if_splits intro!: queue_kind.intros)
next
  case EnqRelease
  then show ?thesis using assms
    by (auto simp: enqueue_exec_def Let_def release_on_def split: if_splits intro!: queue_kind.release_enq)
qed (use assms in \<open>auto simp: enqueue_exec_def Let_def intro: queue_kind.skip\<close>)

lemma dequeue_kind:
  assumes "dequeue_exec M S ec fc now t s = Ok (e, s')"
  shows "queue_kind M S ec fc s e s'"
proof (cases "q_pc s (task_id t)")
  case (Deq m)
  then show ?thesis using assms
    by (auto simp: dequeue_exec_def Let_def try_take_def split: option.splits if_splits intro!: queue_kind.intros)
next
  case (DeqSwitch m)
  then show ?thesis using assms
    by (auto simp: dequeue_exec_def Let_def try_take_def split: option.splits if_splits intro!: queue_kind.intros)
next
  case (DeqPark m)
  then show ?thesis using assms
    by (cases m) (auto simp: dequeue_exec_def Let_def park_on_def intro!: queue_kind.park_deq)
next
  case DeqAgain
  then show ?thesis using assms
    by (auto simp: dequeue_exec_def Let_def try_take_def split: option.splits if_splits intro!: queue_kind.intros)
next
  case (DeqRelease x)
  then show ?thesis using assms
    by (auto simp: dequeue_exec_def Let_def release_on_def split: if_splits intro!: queue_kind.release_deq)
qed (use assms in \<open>auto simp: dequeue_exec_def Let_def intro: queue_kind.skip\<close>)

definition queue_inv :: "('q \<Rightarrow> int \<Rightarrow> nat set) \<Rightarrow> ('r \<Rightarrow> 'a list) \<Rightarrow> nat \<Rightarrow> int \<Rightarrow> int \<Rightarrow> ('q, 'r, 'a) queue_sys \<Rightarrow> bool" where
  "queue_inv waiting items N ec fc s \<longleftrightarrow>
     (\<forall>i. enq_parks (q_pc s i) \<or> deq_parks (q_pc s i) \<longleftrightarrow> q_lock s = Some i)
     \<and> wake_side (waiting (q_sched s) ec \<noteq> {}) deq_parks (\<lambda>p. p = EnqRelease) (items (inner s) \<noteq> []) (q_pc s)
     \<and> wake_side (waiting (q_sched s) fc \<noteq> {}) enq_parks deq_releases (length (items (inner s)) < N) (q_pc s)"

lemma goto_simps [simp]:
  "q_pc (goto i p s) = (q_pc s)(i := p)" "q_lock (goto i p s) = q_lock s"
  "q_sched (goto i p s) = q_sched s" "inner (goto i p s) = inner s"
  by (simp_all add: goto_def)

lemma plainD: "plain p \<Longrightarrow> \<not> enq_parks p \<and> \<not> deq_parks p \<and> p \<noteq> EnqRelease \<and> \<not> deq_releases p"
  by (simp add: plain_def)

lemma pc_classes:
  "enq_parks p \<Longrightarrow> \<not> deq_parks p \<and> p \<noteq> EnqRelease \<and> \<not> deq_releases p"
  "deq_parks p \<Longrightarrow> \<not> enq_parks p \<and> p \<noteq> EnqRelease \<and> \<not> deq_releases p"
  "deq_releases p \<Longrightarrow> \<not> enq_parks p \<and> \<not> deq_parks p \<and> p \<noteq> EnqRelease"
  by (cases p; simp)+

lemma deq_releases_iff: "deq_releases p \<longleftrightarrow> (\<exists>x. p = DeqRelease x)"
  by (cases p) simp_all

lemma lock_upd:
  assumes "\<And>i. enq_parks (f i) \<or> deq_parks (f i) \<longleftrightarrow> l = Some i"
    and "l' = (if enq_parks p \<or> deq_parks p then Some i else if enq_parks (f i) \<or> deq_parks (f i) then None else l)"
    and "enq_parks p \<or> deq_parks p \<Longrightarrow> l = None"
  shows "enq_parks ((f(i := p)) j) \<or> deq_parks ((f(i := p)) j) \<longleftrightarrow> l' = Some j"
  using assms(1) [of i] assms(1) [of j] assms(2,3) by (cases "j = i"; cases "enq_parks p \<or> deq_parks p") auto

lemma queue_inv_upd:
  assumes inv: "queue_inv waiting items N ec fc s" and pc: "q_pc s' = (q_pc s)(i := p)"
    and "q_lock s' = (if enq_parks p \<or> deq_parks p then Some i
      else if enq_parks (q_pc s i) \<or> deq_parks (q_pc s i) then None else q_lock s)"
    and "enq_parks p \<or> deq_parks p \<Longrightarrow> q_lock s = None"
    and "waiting (q_sched s') ec \<noteq> {} \<Longrightarrow> waiting (q_sched s) ec \<noteq> {} \<or> deq_parks (q_pc s i)"
    and "waiting (q_sched s') fc \<noteq> {} \<Longrightarrow> waiting (q_sched s) fc \<noteq> {} \<or> enq_parks (q_pc s i)"
    and "deq_parks p \<Longrightarrow> items (inner s') = []" and "enq_parks p \<Longrightarrow> N \<le> length (items (inner s'))"
    and "items (inner s') \<noteq> [] \<Longrightarrow> items (inner s) \<noteq> [] \<or> p = EnqRelease"
    and "length (items (inner s')) < N \<Longrightarrow> length (items (inner s)) < N \<or> deq_releases p"
    and "q_pc s i = EnqRelease \<Longrightarrow> waiting (q_sched s') ec = {} \<and> q_lock s = None"
    and "deq_releases (q_pc s i) \<Longrightarrow> waiting (q_sched s') fc = {} \<and> q_lock s = None"
    and "q_pc s i = EnqRelease \<or> deq_releases (q_pc s i) \<Longrightarrow> plain p"
  shows "queue_inv waiting items N ec fc s'"
  unfolding queue_inv_def
proof (intro conjI allI)
  have lock: "enq_parks (q_pc s j) \<or> deq_parks (q_pc s j) \<longleftrightarrow> q_lock s = Some j" for j
    using inv by (simp add: queue_inv_def)
  show lock': "enq_parks (q_pc s' j) \<or> deq_parks (q_pc s' j) \<longleftrightarrow> q_lock s' = Some j" for j
    unfolding pc by (rule lock_upd [OF lock assms(3,4)])
  have none: "\<not> enq_parks (q_pc s' j) \<and> \<not> deq_parks (q_pc s' j)" if "q_pc s i = EnqRelease \<or> deq_releases (q_pc s i)" for j
  proof -
    have "q_lock s = None" "plain p" using that assms(11-13) by blast+
    then show ?thesis using lock [of j] unfolding pc by (auto simp: plain_def)
  qed
  show "wake_side (waiting (q_sched s') ec \<noteq> {}) deq_parks (\<lambda>p. p = EnqRelease) (items (inner s') \<noteq> []) (q_pc s')"
  proof (cases "q_pc s i = EnqRelease")
    case True
    then show ?thesis using none assms(11) by (intro wake_side_released) auto
  next
    case False
    have "wake_side (waiting (q_sched s) ec \<noteq> {}) deq_parks (\<lambda>p. p = EnqRelease) (items (inner s) \<noteq> []) (q_pc s)"
      using inv by (simp add: queue_inv_def)
    then show ?thesis unfolding pc by (rule wake_side_upd) (use assms(5,7,9) False in auto)
  qed
  show "wake_side (waiting (q_sched s') fc \<noteq> {}) enq_parks deq_releases (length (items (inner s')) < N) (q_pc s')"
  proof (cases "deq_releases (q_pc s i)")
    case True
    then show ?thesis using none assms(12) by (intro wake_side_released) auto
  next
    case False
    have "wake_side (waiting (q_sched s) fc \<noteq> {}) enq_parks deq_releases (length (items (inner s)) < N) (q_pc s)"
      using inv by (simp add: queue_inv_def)
    then show ?thesis unfolding pc by (rule wake_side_upd) (use assms(6,8,10) False in auto)
  qed
qed

lemma mpmcD:
  assumes "mpmc_queue M items N"
  shows "mp_enqueue M r x = Some r' \<Longrightarrow> items r' = items r @ [x]" and "mp_enqueue M r x = None \<Longrightarrow> N \<le> length (items r)"
    and "mp_dequeue M r = Some (x, r') \<Longrightarrow> items r = x # items r'" and "mp_dequeue M r = None \<Longrightarrow> items r = []"
  using assms unfolding mpmc_queue_def by blast+

context wait_channels
begin

lemma queue_kind_inv:
  assumes M: "mpmc_queue M items N" and ne: "ec \<noteq> fc" and inv: "queue_inv waiting items N ec fc s" and ok: "ok (q_sched s)"
    and kind: "queue_kind M S ec fc s e s'"
  shows "queue_inv waiting items N ec fc s' \<and> ok (q_sched s')"
  using kind
proof cases
  case skip
  then show ?thesis using inv ok by simp
next
  case (move i p)
  then show ?thesis using ok plainD [OF move(3)] plainD [OF move(4)] by (auto intro!: queue_inv_upd [OF inv, where i = i and p = p])
next
  case (put i x r)
  then show ?thesis using ok plainD [OF put(3)] mpmcD(1) [OF M put(4)] by (auto intro!: queue_inv_upd [OF inv, where i = i and p = EnqRelease])
next
  case (took i x r)
  then show ?thesis using ok plainD [OF took(3)] mpmcD(3) [OF M took(4)] by (auto intro!: queue_inv_upd [OF inv, where i = i and p = "DeqRelease x"])
next
  case (full i x m y)
  then show ?thesis using ok plainD [OF full(3)] mpmcD(2) [OF M full(5)] by (auto intro!: queue_inv_upd [OF inv, where i = i and p = "EnqPark m y"])
next
  case (empty i m)
  then show ?thesis using ok plainD [OF empty(3)] mpmcD(4) [OF M empty(5)] by (auto intro!: queue_inv_upd [OF inv, where i = i and p = "DeqPark m"])
next
  case (park_enq t now d u q p)
  have "waiting q ec \<subseteq> waiting (q_sched s) ec"
    using park_waiting [OF ok park_enq(4), of ec] ne by simp
  then show ?thesis using ok park_enq pc_classes(1) [OF park_enq(3)] plainD [OF park_enq(5)] park_ok [OF ok park_enq(4)]
    by (auto intro!: queue_inv_upd [OF inv, where i = "task_id t" and p = p])
next
  case (park_deq t now d u q p)
  have "waiting q fc \<subseteq> waiting (q_sched s) fc"
    using park_waiting [OF ok park_deq(4), of fc] ne by simp
  then show ?thesis using ok park_deq pc_classes(2) [OF park_deq(3)] plainD [OF park_deq(5)] park_ok [OF ok park_deq(4)]
    by (auto intro!: queue_inv_upd [OF inv, where i = "task_id t" and p = p])
next
  case (release_enq i p)
  have "waiting (so_release S ec (q_sched s)) fc \<subseteq> waiting (q_sched s) fc" by (rule release_others [OF ok])
  then show ?thesis using release_enq plainD [OF release_enq(5)] release_ok [OF ok] release_waiting [OF ok]
    by (auto intro!: queue_inv_upd [OF inv, where i = i and p = p])
next
  case (release_deq i p)
  have "waiting (so_release S fc (q_sched s)) ec \<subseteq> waiting (q_sched s) ec" by (rule release_others [OF ok])
  then show ?thesis using release_deq pc_classes(3) [OF release_deq(3)] plainD [OF release_deq(5)] release_ok [OF ok] release_waiting [OF ok]
    by (auto intro!: queue_inv_upd [OF inv, where i = i and p = p])
qed

lemma queue_run_inv:
  assumes run: "queue_run M S ec fc (new_queue r q) es s" and M: "mpmc_queue M items N" and ne: "ec \<noteq> fc"
    and ok: "ok q" and free: "waiting q ec = {}" "waiting q fc = {}" and C: "ec \<in> C" "fc \<in> C"
  shows "queue_inv waiting items N ec fc s \<and> ok (q_sched s)"
  using run
proof induction
  case start
  then show ?case using ok free by (simp add: new_queue_def queue_inv_def wake_side_def)
next
  case (put es s i m x)
  then have "plain (q_pc s i)" by (simp add: finished_def split: queue_pc.splits)
  then show ?case using queue_kind_inv [OF M ne, of s] queue_kind.move [of s i "Enq m x"] put by (metis goto_simps(3) plain_simps(2))
next
  case (take es s i m)
  then have "plain (q_pc s i)" by (simp add: finished_def split: queue_pc.splits)
  then show ?case using queue_kind_inv [OF M ne, of s] queue_kind.move [of s i "Deq m"] take by (metis goto_simps(3) plain_simps(6))
next
  case (enq es s t now e s')
  then show ?case using queue_kind_inv [OF M ne] enqueue_kind by blast
next
  case (deq es s t now e s')
  then show ?case using queue_kind_inv [OF M ne] dequeue_kind by blast
next
  case (other es s q')
  have ok': "ok (q_sched s)" and inv: "queue_inv waiting items N ec fc s" using other.IH by blast+
  have "waiting q' ec \<subseteq> waiting (q_sched s) ec" "waiting q' fc \<subseteq> waiting (q_sched s) fc"
    using other_waiting [OF ok' other.hyps(3)] C by blast+
  then show ?case using inv other_ok [OF ok' other.hyps(3)] by (auto simp: queue_inv_def wake_side_def)
qed

end

lemma queue_kind_items:
  assumes "mpmc_queue M items N" and "queue_kind M S ec fc s e s'"
  shows "takes [e] @ items (inner s') = items (inner s) @ puts [e]"
  using assms(2)
  by cases (auto simp: puts_def takes_def map_filter_simps dest: mpmcD(1,3) [OF assms(1)])

lemma puts_takes_append: "puts (es @ fs) = puts es @ puts fs" "takes (es @ fs) = takes es @ takes fs"
  by (simp_all add: puts_def takes_def List.map_filter_def)

lemma queue_run_fifo:
  assumes "queue_run M S ec fc (new_queue r q) es s" and M: "mpmc_queue M items N" and "items r = []"
  shows "puts es = takes es @ items (inner s)"
  using assms(1)
proof induction
  case start
  then show ?case using assms(3) by (simp add: puts_def takes_def new_queue_def map_filter_simps)
next
  case (enq es s t now e s')
  then show ?case using queue_kind_items [OF M enqueue_kind [OF enq.hyps(3)]] by (simp add: puts_takes_append)
next
  case (deq es s t now e s')
  then show ?case using queue_kind_items [OF M dequeue_kind [OF deq.hyps(3)]] by (simp add: puts_takes_append)
qed simp_all

lemma queue_chans:
  assumes "empty_chan ptr = Ok ec" and "full_chan ptr = Ok fc"
  shows "ec \<noteq> fc"
proof
  assume "ec = fc"
  let ?p = "if ptr < 2 ^ 63 then ptr else ptr - 2 ^ 64 :: int"
  have "ec = ?p mod 2 ^ 63" "fc = (?p + 1) mod 2 ^ 63"
    using assms by (auto simp: empty_chan_def full_chan_def from_ptr_index_def Let_def split: if_splits)
  then have "(?p + 1 - ?p) mod 2 ^ 63 = 0" using \<open>ec = fc\<close> by (metis mod_eq_dvd_iff dvd_imp_mod_0)
  then show False by simp
qed

section \<open>Properties\<close>

text \<open>
  C5: \<open>Mutex\<close> excludes, and loses no wakeup. Whatever tasks do on however many processors, at most one of them
  has the guard, and the flag is set exactly while one has. Whenever a task blocks on the mutex although the
  mutex is free, some task is about to release the channel, and its release leaves no task blocked.
\<close>

theorem mutex_safe:
  assumes "mutex_reach (kernel_sched {chan}) chan q s" and "queue_ok q" and "blocked_on q chan = {}"
  shows "(\<forall>i j. m_pc s i = Holding \<and> m_pc s j = Holding \<longrightarrow> i = j) \<and> (m_locked s \<longleftrightarrow> (\<exists>i. m_pc s i = Holding))
    \<and> (blocked_on (m_sched s) chan \<noteq> {} \<and> \<not> m_locked s \<longrightarrow> (\<exists>i. m_pc s i = Releasing))
    \<and> (\<forall>t now. m_pc s (task_id t) = Releasing \<and> m_qlock s = None \<longrightarrow>
         (\<exists>s'. mutex_exec (kernel_sched {chan}) chan now t s = Ok s' \<and> blocked_on (m_sched s') chan = {}))"
proof -
  have inv: "mutex_excl s" "mutex_wakes blocked_on chan s" "queue_ok (m_sched s)"
    using kernel.mutex_reach_inv [OF assms] by simp_all
  have "\<exists>s'. mutex_exec (kernel_sched {chan}) chan now t s = Ok s' \<and> blocked_on (m_sched s') chan = {}"
    if "m_pc s (task_id t) = Releasing" "m_qlock s = None" for t now
    using that kernel.release_waiting [OF inv(3), of _ chan] by (simp add: mutex_exec_defs)
  then show ?thesis
    using mutex_exclD(3,4) [OF inv(1)] inv(2) unfolding mutex_wakes_def by blast
qed


subsection \<open>Witnesses\<close>

text \<open>Runs as lists of what the tasks do.\<close>

datatype mutex_act = Lock nat | Go task

fun mutex_acts :: "'q sched_ops \<Rightarrow> int \<Rightarrow> mutex_act list \<Rightarrow> 'q mutex_sys \<Rightarrow> 'q mutex_sys option" where
  "mutex_acts S chan [] s = Some s"
| "mutex_acts S chan (Lock i # as) s =
     (if m_pc s i = MIdle then mutex_acts S chan as (s\<lparr>m_pc := (m_pc s)(i := Trying)\<rparr>) else None)"
| "mutex_acts S chan (Go t # as) s =
     (if task_id t \<in> so_queued S (m_sched s) then None
      else case mutex_exec S chan 0 t s of Ok s \<Rightarrow> mutex_acts S chan as s | _ \<Rightarrow> None)"

lemma mutex_acts_reach:
  "mutex_acts S chan as s = Some s' \<Longrightarrow> mutex_reach S chan q s \<Longrightarrow> mutex_reach S chan q s'"
  by (induction S chan as s rule: mutex_acts.induct)
    (auto split: if_splits outcome.splits intro: mutex_reach.step mutex_step.intros)

definition one_runnable :: task_queue where
  "one_runnable = \<lparr>pending_id_gen = 0, runnable_tasks = [[new_task 9 L0], [], [], []], pending_tasks = [], blocks = [], timeouts = []\<rparr>"

definition one_parked :: "int \<Rightarrow> task_queue" where
  "one_parked c = \<lparr>pending_id_gen = 1, runnable_tasks = [[], [], [], []],
     pending_tasks = [(0, (new_task 2 L0)\<lparr>ctx_saved := False\<rparr>)], blocks = [(c, [0])], timeouts = []\<rparr>"

lemma park_demo: "dequeue 0 (new_task 2 L0) (Blocked c None) one_runnable = Ok (new_task 9 L0, one_parked c)"
proof -
  have "pop_next 0 (runnable_tasks one_runnable) = Some (new_task 9 L0, [[], [], [], []])" by code_simp
  then show ?thesis
    by (simp add: dequeue_def put_aside_def issue_pending_id_def one_runnable_def one_parked_def new_task_def)
qed

lemma one_runnable_ok: "queue_ok one_runnable" "blocked_on one_runnable c = {}"
proof -
  have "one_runnable = enqueue_task (new_task 9 L0) new_task_queue" by code_simp
  then show "queue_ok one_runnable" using push_runnable_ok [OF queue_ok_new] by (metis enqueue_task_def)
qed (simp add: one_runnable_def blocked_on_def)

lemma demo_queued:
  "so_queued (kernel_sched C) one_runnable = {9}" "so_queued (kernel_sched C) (one_parked c) = {2}"
  "so_park (kernel_sched C) = dequeue" "blocked_on (one_parked c) c = {2}" "task_id (new_task i p) = i"
  by (simp_all add: kernel_sched_def one_runnable_def one_parked_def new_task_def blocked_on_def)

text \<open>Task 1 has the mutex and gives it back while task 2 blocks.\<close>

definition mutex_demo :: "task_queue mutex_sys option" where
  "mutex_demo = mutex_acts (kernel_sched {7}) 7
     [Lock 1, Go (new_task 1 L0), Lock 2, Go (new_task 2 L0), Go (new_task 2 L0), Go (new_task 2 L0), Go (new_task 1 L0)]
     (new_mutex one_runnable)"

theorem mutex_safe_witness:
  "\<exists>s. mutex_demo = Some s \<and> blocked_on (m_sched s) 7 = {2} \<and> \<not> m_locked s \<and> (\<exists>i. m_pc s i = Releasing)"
proof -
  have "map_option (\<lambda>s. (blocked_on (m_sched s) 7, m_locked s)) mutex_demo = Some ({2}, False)"
    by (simp add: mutex_demo_def new_mutex_def mutex_exec_defs demo_queued park_demo)
  then obtain s where s: "mutex_demo = Some s" "blocked_on (m_sched s) 7 = {2}" "\<not> m_locked s" by auto
  have "mutex_reach (kernel_sched {7}) 7 one_runnable s"
    using mutex_acts_reach [OF s(1) [unfolded mutex_demo_def] mutex_reach.start] .
  from mutex_safe [OF this one_runnable_ok] s show ?thesis by auto
qed

datatype queue_act = DoPut nat nat | DoTake nat | GoPut task | GoTake task

fun queue_acts :: "('r, nat) mpmc \<Rightarrow> 'q sched_ops \<Rightarrow> int \<Rightarrow> int \<Rightarrow> queue_act list \<Rightarrow> nat event list \<times> ('q, 'r, nat) queue_sys
    \<Rightarrow> (nat event list \<times> ('q, 'r, nat) queue_sys) option" where
  "queue_acts M S ec fc [] es = Some es"
| "queue_acts M S ec fc (DoPut i x # as) (es, s) =
     (if finished (q_pc s i) then queue_acts M S ec fc as (es, goto i (Enq Forever x) s) else None)"
| "queue_acts M S ec fc (DoTake i # as) (es, s) =
     (if finished (q_pc s i) then queue_acts M S ec fc as (es, goto i (Deq Forever) s) else None)"
| "queue_acts M S ec fc (GoPut t # as) (es, s) =
     (if task_id t \<in> so_queued S (q_sched s) then None
      else case enqueue_exec M S ec fc 0 t s of Ok (e, s) \<Rightarrow> queue_acts M S ec fc as (es @ [e], s) | _ \<Rightarrow> None)"
| "queue_acts M S ec fc (GoTake t # as) (es, s) =
     (if task_id t \<in> so_queued S (q_sched s) then None
      else case dequeue_exec M S ec fc 0 t s of Ok (e, s) \<Rightarrow> queue_acts M S ec fc as (es @ [e], s) | _ \<Rightarrow> None)"

lemma queue_acts_run:
  "queue_acts M S ec fc as (es, s) = Some (es', s') \<Longrightarrow> queue_run M S ec fc s0 es s \<Longrightarrow> queue_run M S ec fc s0 es' s'"
proof (induction as arbitrary: es s)
  case (Cons a as)
  then show ?case
    by (cases a) (auto split: if_splits outcome.splits prod.splits intro: queue_run.intros)
qed simp

text \<open>A queue with room for one item: task 2 waits for an item, and task 1 has just put one.\<close>

definition one_place :: "(nat list, nat) mpmc" where
  "one_place = \<lparr>mp_enqueue = \<lambda>r x. if length r < 1 then Some (r @ [x]) else None,
     mp_dequeue = \<lambda>r. case r of [] \<Rightarrow> None | x # r \<Rightarrow> Some (x, r)\<rparr>"

definition queue_demo :: "(nat event list \<times> (task_queue, nat list, nat) queue_sys) option" where
  "queue_demo = queue_acts one_place (kernel_sched {16, 17}) 16 17
     [DoTake 2, GoTake (new_task 2 L0), GoTake (new_task 2 L0), GoTake (new_task 2 L0), DoPut 1 5, GoPut (new_task 1 L0)]
     ([], new_queue [] one_runnable)"


end
