(* ===== verification/Virtio_Config.thy ===== *)
theory Virtio_Config
  imports Ors_Prelude
begin

text \<open>
  Port I/O and the registers of a legacy VirtIO device, \<open>devices/virtio/configuration.rs\<close>. The ports belong
  to the hardware: \<open>'h ports\<close> is a parameter, the \<open>in\<close> and \<open>out\<close> instructions of every width on a hardware
  state \<open>'h\<close>. An address computed from the base port panics when it overflows.
\<close>

section \<open>Ports\<close>

record 'h ports =
  in8 :: "u16 \<Rightarrow> 'h \<Rightarrow> u8 \<times> 'h"
  in16 :: "u16 \<Rightarrow> 'h \<Rightarrow> u16 \<times> 'h"
  in32 :: "u16 \<Rightarrow> 'h \<Rightarrow> u32 \<times> 'h"
  out8 :: "u16 \<Rightarrow> u8 \<Rightarrow> 'h \<Rightarrow> 'h"
  out16 :: "u16 \<Rightarrow> u16 \<Rightarrow> 'h \<Rightarrow> 'h"
  out32 :: "u16 \<Rightarrow> u32 \<Rightarrow> 'h \<Rightarrow> 'h"

section \<open>The configuration of a device\<close>

definition DEVICE_STATUS_ACKNOWLEDGE :: u8 where
  "DEVICE_STATUS_ACKNOWLEDGE = 1"

definition DEVICE_STATUS_DRIVER :: u8 where
  "DEVICE_STATUS_DRIVER = 2"

definition DEVICE_STATUS_FEATURES_OK :: u8 where
  "DEVICE_STATUS_FEATURES_OK = 8"

definition DEVICE_STATUS_DRIVER_OK :: u8 where
  "DEVICE_STATUS_DRIVER_OK = 4"

record configuration =
  cfg_addr :: u16
  msi_x_enabled :: bool

type_synonym ('h, 'e, 'a) io = "'h \<Rightarrow> ('e, 'a) outcome \<times> 'h"

definition cfg_read :: "(u16 \<Rightarrow> 'h \<Rightarrow> 'a \<times> 'h) \<Rightarrow> configuration \<Rightarrow> nat \<Rightarrow> ('h, 'e, 'a) io" where
  "cfg_read inp c offset h =
     (if unat (cfg_addr c) + offset < 65536
      then let (v, h') = inp (cfg_addr c + word_of_nat offset) h in (Ok v, h')
      else (Panic, h))"

definition cfg_write :: "(u16 \<Rightarrow> 'a \<Rightarrow> 'h \<Rightarrow> 'h) \<Rightarrow> configuration \<Rightarrow> nat \<Rightarrow> 'a \<Rightarrow> ('h, 'e, unit) io" where
  "cfg_write outp c offset v h =
     (if unat (cfg_addr c) + offset < 65536
      then (Ok (), outp (cfg_addr c + word_of_nat offset) v h)
      else (Panic, h))"

definition device_features :: "'h ports \<Rightarrow> configuration \<Rightarrow> ('h, 'e, u32) io" where
  "device_features P c = cfg_read (in32 P) c 0"

definition set_driver_features :: "'h ports \<Rightarrow> configuration \<Rightarrow> u32 \<Rightarrow> ('h, 'e, unit) io" where
  "set_driver_features P c v = cfg_write (out32 P) c 0x04 v"

definition queue_address :: "'h ports \<Rightarrow> configuration \<Rightarrow> ('h, 'e, u32) io" where
  "queue_address P c = cfg_read (in32 P) c 0x08"

definition set_queue_address :: "'h ports \<Rightarrow> configuration \<Rightarrow> u32 \<Rightarrow> ('h, 'e, unit) io" where
  "set_queue_address P c v = cfg_write (out32 P) c 0x08 v"

definition cfg_queue_size :: "'h ports \<Rightarrow> configuration \<Rightarrow> ('h, 'e, u32) io" where
  "cfg_queue_size P c = cfg_read (in32 P) c 0x0c"

definition queue_select :: "'h ports \<Rightarrow> configuration \<Rightarrow> ('h, 'e, u16) io" where
  "queue_select P c = cfg_read (in16 P) c 0x0e"

definition set_queue_select :: "'h ports \<Rightarrow> configuration \<Rightarrow> u16 \<Rightarrow> ('h, 'e, unit) io" where
  "set_queue_select P c v = cfg_write (out16 P) c 0x0e v"

definition set_queue_notify :: "'h ports \<Rightarrow> configuration \<Rightarrow> u16 \<Rightarrow> ('h, 'e, unit) io" where
  "set_queue_notify P c v = cfg_write (out16 P) c 0x10 v"

definition device_status :: "'h ports \<Rightarrow> configuration \<Rightarrow> ('h, 'e, u8) io" where
  "device_status P c = cfg_read (in8 P) c 0x12"

definition set_device_status :: "'h ports \<Rightarrow> configuration \<Rightarrow> u8 \<Rightarrow> ('h, 'e, unit) io" where
  "set_device_status P c v = cfg_write (out8 P) c 0x12 v"

definition set_config_msix_vector :: "'h ports \<Rightarrow> configuration \<Rightarrow> u16 \<Rightarrow> ('h, 'e, unit) io" where
  "set_config_msix_vector P c v h = (if msi_x_enabled c then cfg_write (out16 P) c 0x14 v h else (Panic, h))"

definition set_queue_msix_vector :: "'h ports \<Rightarrow> configuration \<Rightarrow> u16 \<Rightarrow> ('h, 'e, unit) io" where
  "set_queue_msix_vector P c v h = (if msi_x_enabled c then cfg_write (out16 P) c 0x16 v h else (Panic, h))"

definition device_specific_offset :: "configuration \<Rightarrow> nat" where
  "device_specific_offset c = (if msi_x_enabled c then 0x18 else 0x14)"

definition read_device_specific :: "(u16 \<Rightarrow> 'h \<Rightarrow> 'a \<times> 'h) \<Rightarrow> configuration \<Rightarrow> nat \<Rightarrow> ('h, 'e, 'a) io" where
  "read_device_specific inp c offset = cfg_read inp c (device_specific_offset c + offset)"

definition write_device_specific :: "(u16 \<Rightarrow> 'a \<Rightarrow> 'h \<Rightarrow> 'h) \<Rightarrow> configuration \<Rightarrow> nat \<Rightarrow> 'a \<Rightarrow> ('h, 'e, unit) io" where
  "write_device_specific outp c offset v = cfg_write outp c (device_specific_offset c + offset) v"

definition add_device_status :: "'h ports \<Rightarrow> configuration \<Rightarrow> u8 \<Rightarrow> ('h, 'e, unit) io" where
  "add_device_status P c bits h =
     try_st (device_status P c h) (\<lambda>s. set_device_status P c (s OR bits))"

definition cfg_initialize :: "'h ports \<Rightarrow> configuration \<Rightarrow> (u32 \<Rightarrow> u32) \<Rightarrow> ('h, string, unit) io" where
  "cfg_initialize P c negotiate h =
     try_st (add_device_status P c DEVICE_STATUS_ACKNOWLEDGE h) (\<lambda>_ h.
     try_st (add_device_status P c DEVICE_STATUS_DRIVER h) (\<lambda>_ h.
     try_st (device_features P c h) (\<lambda>features h.
     try_st (set_driver_features P c (negotiate features AND NOT (push_bit 28 1) AND NOT (push_bit 29 1)) h) (\<lambda>_ h.
     try_st (add_device_status P c DEVICE_STATUS_FEATURES_OK h) (\<lambda>_ h.
     try_st (device_status P c h) (\<lambda>s h.
       if s AND DEVICE_STATUS_FEATURES_OK = 0 then (Err ''FEATURES_OK'', h) else (Ok (), h)))))))"

definition set_driver_ok :: "'h ports \<Rightarrow> configuration \<Rightarrow> ('h, 'e, unit) io" where
  "set_driver_ok P c = add_device_status P c DEVICE_STATUS_DRIVER_OK"

end
