(* ===== verification/Pci.thy ===== *)
theory Pci
  imports Virtio_Config
begin

text \<open>
  The PCI bus, \<open>devices/pci.rs\<close>: configuration space through the ports \<open>0xcf8\<close> and \<open>0xcfc\<close>, the registers
  of a device, base address registers, the capability list, MSI-X tables, and the scan for devices, which
  follows PCI-to-PCI bridges. The hardware is a parameter, a \<open>'h machine\<close>: its ports, its memory-mapped
  words, and the \<open>set_bits\<close> and \<open>set_bit\<close> of the \<open>bit_field\<close> crate, which panic (here: give nothing) when a
  value does not fit. \<open>heapless::Vec<_, N>\<close> is a list that refuses an element beyond \<open>N\<close>.

  The scan is specified by \<open>bus_listing\<close>, the functions on a bus and below its bridges, and by \<open>found\<close>, the
  functions that can be reached at all: the scan lists exactly them, each once if bus numbers are assigned
  properly, and it returns even if they are not.
\<close>

section \<open>The machine\<close>

record 'h machine =
  m_ports :: "'h ports"
  bf_set_bits :: "u32 \<Rightarrow> nat \<Rightarrow> nat \<Rightarrow> u32 \<Rightarrow> u32 option"
  bf_set_bit :: "u32 \<Rightarrow> nat \<Rightarrow> bool \<Rightarrow> u32 option"
  read_volatile :: "u64 \<Rightarrow> 'h \<Rightarrow> u32 \<times> 'h"
  write_volatile :: "u64 \<Rightarrow> u32 \<Rightarrow> 'h \<Rightarrow> 'h"

definition unwrap_or_panic :: "'a option \<Rightarrow> ('e, 'a) outcome" where
  "unwrap_or_panic v = (case v of Some x \<Rightarrow> Ok x | None \<Rightarrow> Panic)"

definition map_io :: "('a \<Rightarrow> 'b) \<Rightarrow> ('h, 'e, 'a) io \<Rightarrow> ('h, 'e, 'b) io" where
  "map_io f m h = try_st (m h) (\<lambda>x h. (Ok (f x), h))"

section \<open>Configuration space\<close>

definition ConfigAddress_new :: "'h machine \<Rightarrow> u8 \<Rightarrow> u8 \<Rightarrow> u8 \<Rightarrow> u8 \<Rightarrow> ('e, u32) outcome" where
  "ConfigAddress_new M bus device function reg =
     try_then (unwrap_or_panic (bf_set_bits M 0 0 8 (ucast reg))) (\<lambda>value.
     try_then (unwrap_or_panic (bf_set_bits M value 8 11 (ucast function))) (\<lambda>value.
     try_then (unwrap_or_panic (bf_set_bits M value 11 16 (ucast device))) (\<lambda>value.
     try_then (unwrap_or_panic (bf_set_bits M value 16 24 (ucast bus))) (\<lambda>value.
     unwrap_or_panic (bf_set_bit M value 31 True)))))"

definition ConfigAddress_write :: "'h machine \<Rightarrow> u32 \<Rightarrow> 'h \<Rightarrow> 'h" where
  "ConfigAddress_write M value = out32 (m_ports M) 0x0cf8 value"

definition ConfigData_read :: "'h machine \<Rightarrow> 'h \<Rightarrow> u32 \<times> 'h" where
  "ConfigData_read M = in32 (m_ports M) 0x0cfc"

definition ConfigData_write :: "'h machine \<Rightarrow> u32 \<Rightarrow> 'h \<Rightarrow> 'h" where
  "ConfigData_write M value = out32 (m_ports M) 0x0cfc value"

record pci_device =
  d_bus :: u8
  d_device :: u8
  d_function :: u8

definition device_new :: "u8 \<Rightarrow> u8 \<Rightarrow> u8 \<Rightarrow> pci_device" where
  "device_new bus device function = \<lparr>d_bus = bus, d_device = device, d_function = function\<rparr>"

datatype scan_error = Full

definition device_read :: "'h machine \<Rightarrow> pci_device \<Rightarrow> u8 \<Rightarrow> ('h, 'e, u32) io" where
  "device_read M d addr h =
     try_st (ConfigAddress_new M (d_bus d) (d_device d) (d_function d) addr, h) (\<lambda>a h.
       let (v, h) = ConfigData_read M (ConfigAddress_write M a h) in (Ok v, h))"

definition device_write :: "'h machine \<Rightarrow> pci_device \<Rightarrow> u8 \<Rightarrow> u32 \<Rightarrow> ('h, 'e, unit) io" where
  "device_write M d addr value h =
     try_st (ConfigAddress_new M (d_bus d) (d_device d) (d_function d) addr, h) (\<lambda>a h.
       (Ok (), ConfigData_write M value (ConfigAddress_write M a h)))"

section \<open>The registers of a device\<close>

definition vendor_id :: "'h machine \<Rightarrow> pci_device \<Rightarrow> ('h, 'e, u16) io" where
  "vendor_id M d = map_io ucast (device_read M d 0x00)"

definition is_vendor_intel :: "'h machine \<Rightarrow> pci_device \<Rightarrow> ('h, 'e, bool) io" where
  "is_vendor_intel M d = map_io (\<lambda>v. v = 0x8086) (vendor_id M d)"

definition device_id :: "'h machine \<Rightarrow> pci_device \<Rightarrow> ('h, 'e, u16) io" where
  "device_id M d = map_io (\<lambda>v. ucast (drop_bit 16 v)) (device_read M d 0x00)"

definition is_virtio :: "'h machine \<Rightarrow> pci_device \<Rightarrow> ('h, 'e, bool) io" where
  "is_virtio M d h =
     try_st (vendor_id M d h) (\<lambda>vendor.
       map_io (\<lambda>dev. vendor = 0x1af4 \<and> 0x1000 \<le> dev \<and> dev \<le> 0x103f) (device_id M d))"

definition pci_command :: "'h machine \<Rightarrow> pci_device \<Rightarrow> ('h, 'e, u16) io" where
  "pci_command M d = map_io ucast (device_read M d 0x04)"

definition pci_status :: "'h machine \<Rightarrow> pci_device \<Rightarrow> ('h, 'e, u16) io" where
  "pci_status M d = map_io (\<lambda>v. ucast (drop_bit 16 v)) (device_read M d 0x04)"

record pci_device_type =
  class_code :: u8
  sub_class :: u8
  prog_interface :: u8

definition is_standard_pci_to_pci_bridge :: "pci_device_type \<Rightarrow> bool" where
  "is_standard_pci_to_pci_bridge t \<longleftrightarrow> class_code t = 0x06 \<and> sub_class t = 0x04"

definition is_xhci :: "pci_device_type \<Rightarrow> bool" where
  "is_xhci t \<longleftrightarrow> class_code t = 0x0c \<and> sub_class t = 0x03 \<and> prog_interface t = 0x30"

definition type_of_data :: "u32 \<Rightarrow> pci_device_type" where
  "type_of_data data =
     \<lparr>class_code = ucast (drop_bit 24 data), sub_class = ucast (drop_bit 16 data), prog_interface = ucast (drop_bit 8 data)\<rparr>"

definition device_type :: "'h machine \<Rightarrow> pci_device \<Rightarrow> ('h, 'e, pci_device_type) io" where
  "device_type M d = map_io type_of_data (device_read M d 0x08)"

definition header_type :: "'h machine \<Rightarrow> pci_device \<Rightarrow> ('h, 'e, u8) io" where
  "header_type M d = map_io (\<lambda>data. ucast (drop_bit 16 data) AND 0x7f) (device_read M d 0x0c)"

definition is_single_function :: "'h machine \<Rightarrow> pci_device \<Rightarrow> ('h, 'e, bool) io" where
  "is_single_function M d = map_io (\<lambda>data. data AND push_bit 16 0x80 = 0) (device_read M d 0x0c)"

definition num_bars :: "'h machine \<Rightarrow> pci_device \<Rightarrow> ('h, 'e, u8) io" where
  "num_bars M d = map_io (\<lambda>t. if t = 0x00 then 6 else if t = 0x01 then 2 else 0) (header_type M d)"

section \<open>Base address registers\<close>

datatype bar = MemoryAddress u64 | IoPort u16

primrec mmio_base :: "bar \<Rightarrow> u64 option" where
  "mmio_base (MemoryAddress addr) = Some addr"
| "mmio_base (IoPort p) = None"

primrec io_port :: "bar \<Rightarrow> u16 option" where
  "io_port (MemoryAddress addr) = None"
| "io_port (IoPort p) = Some p"

definition base_address_register_address :: "u8 \<Rightarrow> ('e, u8) outcome" where
  "base_address_register_address index = (if index < 6 then Ok (0x10 + 4 * index) else Panic)"

definition read_bar :: "'h machine \<Rightarrow> pci_device \<Rightarrow> u8 \<Rightarrow> ('h, 'e, bar) io" where
  "read_bar M d index h =
     try_st (num_bars M d h) (\<lambda>n h.
       if \<not> index < n then (Panic, h) else
       try_st (base_address_register_address index, h) (\<lambda>a h.
       try_st (device_read M d a h) (\<lambda>b h.
         if b AND 0x1 \<noteq> 0 then (Ok (IoPort (ucast (b AND NOT 0x3))), h)
         else if b AND 0x4 \<noteq> 0 then
           try_st (base_address_register_address (index + 1), h) (\<lambda>a h.
           try_st (device_read M d a h) (\<lambda>upper h.
             (Ok (MemoryAddress ((ucast b AND NOT 0xf) OR push_bit 32 (ucast upper))), h)))
         else (Ok (MemoryAddress (ucast b AND NOT 0xf)), h))))"

definition bus_numbers :: "'h machine \<Rightarrow> pci_device \<Rightarrow> ('h, 'e, u8 \<times> u8) io" where
  "bus_numbers M d h =
     try_st (device_type M d h) (\<lambda>t h.
       if is_standard_pci_to_pci_bridge t
       then map_io (\<lambda>data. (ucast data, ucast (drop_bit 8 data))) (device_read M d 0x18) h
       else (Panic, h))"

definition subsystem_vendor_id :: "'h machine \<Rightarrow> pci_device \<Rightarrow> ('h, 'e, u16) io" where
  "subsystem_vendor_id M d h =
     try_st (header_type M d h) (\<lambda>t h.
       if t = 0x00 then map_io ucast (device_read M d 0x2c) h else (Panic, h))"

definition subsystem_id :: "'h machine \<Rightarrow> pci_device \<Rightarrow> ('h, 'e, u16) io" where
  "subsystem_id M d h =
     try_st (header_type M d h) (\<lambda>t h.
       if t = 0x00 then map_io (\<lambda>v. ucast (drop_bit 16 v)) (device_read M d 0x2c) h else (Panic, h))"

definition interrupt_line :: "'h machine \<Rightarrow> pci_device \<Rightarrow> ('h, 'e, u8) io" where
  "interrupt_line M d = map_io ucast (device_read M d 0x3c)"

definition interrupt_pin :: "'h machine \<Rightarrow> pci_device \<Rightarrow> ('h, 'e, u8) io" where
  "interrupt_pin M d = map_io (\<lambda>v. ucast (drop_bit 8 v)) (device_read M d 0x3c)"

section \<open>Capabilities\<close>

definition capability_pointer :: "'h machine \<Rightarrow> pci_device \<Rightarrow> ('h, 'e, u8 option) io" where
  "capability_pointer M d h =
     try_st (header_type M d h) (\<lambda>t h.
       if t = 0x00 \<or> t = 0x01 then
         try_st (pci_status M d h) (\<lambda>s h.
           if s AND 0x16 \<noteq> 0 then map_io (\<lambda>v. Some (ucast v)) (device_read M d 0x34) h else (Ok None, h))
       else (Ok None, h))"

record capability =
  cap_device :: pci_device
  cap_pointer :: u8

definition cap_id :: "'h machine \<Rightarrow> capability \<Rightarrow> ('h, 'e, u8) io" where
  "cap_id M c = map_io ucast (device_read M (cap_device c) (cap_pointer c))"

definition is_msi_x :: "'h machine \<Rightarrow> capability \<Rightarrow> ('h, 'e, bool) io" where
  "is_msi_x M c = map_io (\<lambda>i. i = 0x11) (cap_id M c)"

definition is_vendor_specific :: "'h machine \<Rightarrow> capability \<Rightarrow> ('h, 'e, bool) io" where
  "is_vendor_specific M c = map_io (\<lambda>i. i = 0x09) (cap_id M c)"

definition next_capability_pointer :: "'h machine \<Rightarrow> capability \<Rightarrow> ('h, 'e, u8 option) io" where
  "next_capability_pointer M c =
     map_io (\<lambda>v. let p = ucast (drop_bit 8 v) in if p = 0 then None else Some p) (device_read M (cap_device c) (cap_pointer c))"

text \<open>\<open>MsiX\<close> has the fields of \<open>Capability\<close>.\<close>

definition cap_msi_x :: "'h machine \<Rightarrow> capability \<Rightarrow> ('h, 'e, capability option) io" where
  "cap_msi_x M c = map_io (\<lambda>b. if b then Some c else None) (is_msi_x M c)"

text \<open>The iterator \<open>Capabilities\<close> is a device and a pointer too.\<close>

definition capabilities :: "pci_device \<Rightarrow> capability" where
  "capabilities d = \<lparr>cap_device = d, cap_pointer = 0\<rparr>"

definition capabilities_next :: "'h machine \<Rightarrow> capability \<Rightarrow> ('h, 'e, capability option) io" where
  "capabilities_next M it =
     map_io (map_option (\<lambda>p. it\<lparr>cap_pointer := p\<rparr>))
       (if cap_pointer it = 0 then capability_pointer M (cap_device it) else next_capability_pointer M it)"

text \<open>\<open>find_map\<close> over the iterator, with fuel.\<close>

fun find_msi_x :: "'h machine \<Rightarrow> nat \<Rightarrow> capability \<Rightarrow> ('h, 'e, capability option) io" where
  "find_msi_x M 0 it h = (Hang, h)"
| "find_msi_x M (Suc n) it h =
     try_st (capabilities_next M it h) (\<lambda>c h.
       case c of
         None \<Rightarrow> (Ok None, h)
       | Some c \<Rightarrow> try_st (cap_msi_x M c h) (\<lambda>m h.
           case m of Some m \<Rightarrow> (Ok (Some m), h) | None \<Rightarrow> find_msi_x M n c h))"

definition msi_x :: "'h machine \<Rightarrow> nat \<Rightarrow> pci_device \<Rightarrow> ('h, 'e, capability option) io" where
  "msi_x M fuel d = find_msi_x M fuel (capabilities d)"

section \<open>MSI-X\<close>

definition message_control :: "'h machine \<Rightarrow> capability \<Rightarrow> ('h, 'e, u16) io" where
  "message_control M m = map_io (\<lambda>v. ucast (drop_bit 16 v)) (device_read M (cap_device m) (cap_pointer m))"

definition is_enabled :: "'h machine \<Rightarrow> capability \<Rightarrow> ('h, 'e, bool) io" where
  "is_enabled M m = map_io (\<lambda>v. v AND push_bit 31 1 \<noteq> 0) (device_read M (cap_device m) (cap_pointer m))"

definition msi_x_enable :: "'h machine \<Rightarrow> capability \<Rightarrow> ('h, 'e, unit) io" where
  "msi_x_enable M m h =
     try_st (device_read M (cap_device m) (cap_pointer m) h) (\<lambda>v.
       device_write M (cap_device m) (cap_pointer m) (v OR push_bit 31 1))"

definition table_size :: "'h machine \<Rightarrow> capability \<Rightarrow> ('h, 'e, nat) io" where
  "table_size M m = map_io (\<lambda>c. unat (c AND 0x7ff) + 1) (message_control M m)"

text \<open>A register of the capability at an offset; the sum is a \<open>u8\<close>.\<close>

definition cap_read :: "'h machine \<Rightarrow> capability \<Rightarrow> u8 \<Rightarrow> ('h, 'e, u32) io" where
  "cap_read M m offset h =
     (if unat (cap_pointer m) + unat offset < 256 then device_read M (cap_device m) (cap_pointer m + offset) h
      else (Panic, h))"

definition table_bir :: "'h machine \<Rightarrow> capability \<Rightarrow> ('h, 'e, u8) io" where
  "table_bir M m = map_io ucast (cap_read M m 0x04)"

definition table_offset :: "'h machine \<Rightarrow> capability \<Rightarrow> ('h, 'e, u32) io" where
  "table_offset M m = map_io (drop_bit 8) (cap_read M m 0x04)"

definition table_bar :: "'h machine \<Rightarrow> capability \<Rightarrow> ('h, 'e, bar) io" where
  "table_bar M m h = try_st (table_bir M m h) (\<lambda>i. read_bar M (cap_device m) i)"

record msi_x_table =
  table_ptr :: u64
  table_len :: nat

definition get_msi_x_table :: "'h machine \<Rightarrow> capability \<Rightarrow> ('h, 'e, msi_x_table) io" where
  "get_msi_x_table M m h =
     try_st (table_bar M m h) (\<lambda>b h.
     try_st (unwrap_or_panic (mmio_base b), h) (\<lambda>base h.
     try_st (table_offset M m h) (\<lambda>offset h.
       if unat base + unat offset < 2 ^ 64
       then map_io (\<lambda>n. \<lparr>table_ptr = base + ucast offset, table_len = n\<rparr>) (table_size M m) h
       else (Panic, h))))"

definition pba_bir :: "'h machine \<Rightarrow> capability \<Rightarrow> ('h, 'e, u8) io" where
  "pba_bir M m = map_io ucast (cap_read M m 0x08)"

definition pba_offset :: "'h machine \<Rightarrow> capability \<Rightarrow> ('h, 'e, u32) io" where
  "pba_offset M m = map_io (drop_bit 8) (cap_read M m 0x08)"

text \<open>An entry is the address of its four words.\<close>

definition table_entry :: "msi_x_table \<Rightarrow> nat \<Rightarrow> ('e, u64) outcome" where
  "table_entry t index = (if index < table_len t then Ok (table_ptr t + word_of_nat (4 * (4 * index))) else Panic)"

definition table_entries :: "msi_x_table \<Rightarrow> ('e, u64) outcome list" where
  "table_entries t = map (table_entry t) [0..<table_len t]"

definition message_address :: "'h machine \<Rightarrow> u64 \<Rightarrow> 'h \<Rightarrow> u32 \<times> 'h" where
  "message_address M p = read_volatile M p"

definition set_message_address :: "'h machine \<Rightarrow> u64 \<Rightarrow> u32 \<Rightarrow> 'h \<Rightarrow> 'h" where
  "set_message_address M p v = write_volatile M p v"

definition message_data :: "'h machine \<Rightarrow> u64 \<Rightarrow> 'h \<Rightarrow> u32 \<times> 'h" where
  "message_data M p = read_volatile M (p + 4 * 2)"

definition set_message_data :: "'h machine \<Rightarrow> u64 \<Rightarrow> u32 \<Rightarrow> 'h \<Rightarrow> 'h" where
  "set_message_data M p v = write_volatile M (p + 4 * 2) v"

definition vector_control :: "'h machine \<Rightarrow> u64 \<Rightarrow> 'h \<Rightarrow> u32 \<times> 'h" where
  "vector_control M p = read_volatile M (p + 4 * 3)"

definition set_vector_control :: "'h machine \<Rightarrow> u64 \<Rightarrow> u32 \<Rightarrow> 'h \<Rightarrow> 'h" where
  "set_vector_control M p v = write_volatile M (p + 4 * 3) v"

definition entry_enable :: "'h machine \<Rightarrow> u64 \<Rightarrow> u32 \<Rightarrow> u32 \<Rightarrow> ('h, 'e, unit) io" where
  "entry_enable M p lapic_id vector h =
     (if \<not> lapic_id < 256 then (Panic, h)
      else if \<not> (32 \<le> vector \<and> vector \<le> 254) then (Panic, h)
      else
        let (a, h) = message_address M p h;
            h = set_message_address M p (push_bit 12 lapic_id OR push_bit 20 0xfee OR (a AND 0xff0)) h;
            (v, h) = message_data M p h;
            h = set_message_data M p (vector OR push_bit 15 1 OR (v AND 0xffff3800)) h;
            (c, h) = vector_control M p h
        in (Ok (), set_vector_control M p (c AND NOT 1) h))"

definition entry_disable :: "'h machine \<Rightarrow> u64 \<Rightarrow> 'h \<Rightarrow> 'h" where
  "entry_disable M p h = (let (c, h) = vector_control M p h in set_vector_control M p (c OR 1) h)"

section \<open>The scan\<close>

type_synonym ('h, 'a) scan = "(pci_device list \<times> 'h, scan_error, 'a) io"

text \<open>Hardware access while the vector of devices is kept.\<close>

definition on_hw :: "('h, scan_error, 'a) io \<Rightarrow> ('h, 'a) scan" where
  "on_hw m s = (case m (snd s) of (r, h) \<Rightarrow> (r, (fst s, h)))"

definition vec_push :: "nat \<Rightarrow> pci_device \<Rightarrow> ('h, unit) scan" where
  "vec_push N d s = (if length (fst s) < N then (Ok (), (fst s @ [d], snd s)) else (Err Full, s))"

fun for_scan :: "('a \<Rightarrow> ('h, unit) scan) \<Rightarrow> 'a list \<Rightarrow> ('h, unit) scan" where
  "for_scan f [] s = (Ok (), s)"
| "for_scan f (x # xs) s = try_st (f x s) (\<lambda>_. for_scan f xs)"

text \<open>
  \<open>scan_bus\<close>, \<open>scan_device\<close> and \<open>scan_function\<close> call each other; here \<open>scan_function\<close> and \<open>scan_device\<close> get the
  \<open>scan_bus\<close> to call as an argument, and \<open>scan_bus\<close> has fuel, the depth of bridges it may follow.
\<close>

definition scan_function :: "'h machine \<Rightarrow> nat \<Rightarrow> (u8 \<Rightarrow> ('h, unit) scan) \<Rightarrow> u8 \<Rightarrow> u8 \<Rightarrow> u8 \<Rightarrow> ('h, unit) scan" where
  "scan_function M N rec bus device function s =
     (let d = device_new bus device function in
      try_st (vec_push N d s) (\<lambda>_ s.
      try_st (on_hw (device_type M d) s) (\<lambda>t s.
        if is_standard_pci_to_pci_bridge t
        then try_st (on_hw (bus_numbers M d) s) (\<lambda>(_, secondary_bus). rec secondary_bus)
        else (Ok (), s))))"

definition scan_device :: "'h machine \<Rightarrow> nat \<Rightarrow> (u8 \<Rightarrow> ('h, unit) scan) \<Rightarrow> u8 \<Rightarrow> u8 \<Rightarrow> ('h, unit) scan" where
  "scan_device M N rec bus device s =
     try_st (scan_function M N rec bus device 0 s) (\<lambda>_ s.
     try_st (on_hw (is_single_function M (device_new bus device 0)) s) (\<lambda>single s.
       if \<not> single then
         for_scan (\<lambda>function s.
             try_st (on_hw (vendor_id M (device_new bus device function)) s) (\<lambda>v s.
               if v \<noteq> 0xffff then scan_function M N rec bus device function s else (Ok (), s)))
           (map word_of_nat [1..<8]) s
       else (Ok (), s)))"

fun scan_bus :: "'h machine \<Rightarrow> nat \<Rightarrow> nat \<Rightarrow> u8 \<Rightarrow> ('h, unit) scan" where
  "scan_bus M N 0 bus s = (Hang, s)"
| "scan_bus M N (Suc n) bus s =
     for_scan (\<lambda>device s.
         try_st (on_hw (vendor_id M (device_new bus device 0)) s) (\<lambda>v s.
           if v \<noteq> 0xffff then scan_device M N (scan_bus M N n) bus device s else (Ok (), s)))
       (map word_of_nat [0..<32]) s"

definition device_scan :: "'h machine \<Rightarrow> nat \<Rightarrow> nat \<Rightarrow> 'h \<Rightarrow> (scan_error, pci_device list) outcome \<times> 'h" where
  "device_scan M N fuel h =
     (case
       try_st (on_hw (is_single_function M (device_new 0 0 0)) ([], h)) (\<lambda>single s.
         if single then scan_bus M N fuel 0 s
         else for_scan (\<lambda>function s.
             try_st (on_hw (vendor_id M (device_new 0 0 function)) s) (\<lambda>v s.
               if v \<noteq> 0xffff then scan_bus M N fuel function s else (Ok (), s)))
           (map word_of_nat [0..<8]) s)
      of (r, (devices, h)) \<Rightarrow> (try_then r (\<lambda>_. Ok devices), h))"

text \<open>The static \<open>DEVICES\<close>: nothing before the first call.\<close>

definition initialize_devices :: "'h machine \<Rightarrow> nat \<Rightarrow> pci_device list option \<Rightarrow> ('h, unit, pci_device list option) io" where
  "initialize_devices M fuel devs h =
     (case devs of
        Some ds \<Rightarrow> (Ok (Some ds), h)
      | None \<Rightarrow> (case device_scan M 32 fuel h of
          (Ok ds, h) \<Rightarrow> (Ok (Some ds), h) | (Err e, h) \<Rightarrow> (Panic, h) | (Panic, h) \<Rightarrow> (Panic, h) | (Hang, h) \<Rightarrow> (Hang, h)))"

definition pci_devices :: "pci_device list option \<Rightarrow> ('e, pci_device list) outcome" where
  "pci_devices devs = unwrap_or_panic devs"

section \<open>What the machine promises\<close>

text \<open>
  The documented behaviour of \<open>bit_field\<close> 0.10, for values that fit, and of configuration mechanism #1: the
  address port selects a register, the data port reads it, and reading changes no register.
\<close>

definition bit_field_crate :: "'h machine \<Rightarrow> bool" where
  "bit_field_crate M \<longleftrightarrow>
     (\<forall>v lo hi w. lo < hi \<and> hi \<le> 32 \<and> unat w < 2 ^ (hi - lo) \<longrightarrow>
        bf_set_bits M v lo hi w = Some ((v AND NOT (push_bit lo (mask (hi - lo)))) OR push_bit lo w)) \<and>
     (\<forall>v i. i < 32 \<longrightarrow> bf_set_bit M v i True = Some (v OR push_bit i 1))"

definition config_mechanism :: "'h machine \<Rightarrow> ('h \<Rightarrow> u32 \<Rightarrow> u32) \<Rightarrow> ('h \<Rightarrow> u32) \<Rightarrow> bool" where
  "config_mechanism M cfg sel \<longleftrightarrow>
     (\<forall>a h. sel (out32 (m_ports M) 0x0cf8 a h) = a \<and> cfg (out32 (m_ports M) 0x0cf8 a h) = cfg h) \<and>
     (\<forall>h. fst (in32 (m_ports M) 0x0cfc h) = cfg h (sel h) \<and> cfg (snd (in32 (m_ports M) 0x0cfc h)) = cfg h)"

section \<open>Reading configuration space\<close>

definition config_address :: "pci_device \<Rightarrow> u8 \<Rightarrow> u32" where
  "config_address d reg =
     ucast reg OR push_bit 8 (ucast (d_function d)) OR push_bit 11 (ucast (d_device d)) OR
     push_bit 16 (ucast (d_bus d)) OR push_bit 31 1"

definition addressable :: "pci_device \<Rightarrow> bool" where
  "addressable d \<longleftrightarrow> d_device d < 32 \<and> d_function d < 8"

definition reads :: "('h \<Rightarrow> u32 \<Rightarrow> u32) \<Rightarrow> (u32 \<Rightarrow> u32) \<Rightarrow> ('h, 'e, 'a) io \<Rightarrow> 'a \<Rightarrow> bool" where
  "reads cfg c m x \<longleftrightarrow> (\<forall>h. cfg h = c \<longrightarrow> fst (m h) = Ok x \<and> cfg (snd (m h)) = c)"

definition reg :: "(u32 \<Rightarrow> u32) \<Rightarrow> pci_device \<Rightarrow> u8 \<Rightarrow> u32" where
  "reg c d r = c (config_address d r)"

lemma bit_less: "bit (v :: 'a::len word) n \<Longrightarrow> unat v < 2 ^ k \<Longrightarrow> n < k"
proof -
  assume "bit v n" and "unat v < 2 ^ k"
  then have "bit (take_bit k (unat v)) n"
    by (simp add: take_bit_nat_eq_self bit_unsigned_iff)
  then show "n < k" by (simp add: bit_take_bit_iff)
qed

text \<open>Setting a field that was zero, above the fields set before.\<close>

lemma or_field:
  assumes "\<forall>n. bit v n \<longrightarrow> n < lo"
  shows "(v AND NOT (push_bit lo (mask k))) OR push_bit lo w = v OR push_bit lo (w :: u32)"
  using assms by (intro bit_word_eqI) (auto simp: bit_simps)

lemma ConfigAddress_new_eq:
  assumes "bit_field_crate M" and "addressable d"
  shows "ConfigAddress_new M (d_bus d) (d_device d) (d_function d) r = Ok (config_address d r)"
proof -
  have B: "lo < hi \<Longrightarrow> hi \<le> 32 \<Longrightarrow> unat w < 2 ^ (hi - lo) \<Longrightarrow>
      bf_set_bits M v lo hi w = Some ((v AND NOT (push_bit lo (mask (hi - lo)))) OR push_bit lo w)"
    "i < 32 \<Longrightarrow> bf_set_bit M v i True = Some (v OR push_bit i 1)" for v w lo hi i
    using assms(1) by (simp_all add: bit_field_crate_def)
  have df: "unat (d_device d) < 2 ^ 5" "unat (d_function d) < 2 ^ 3"
    using assms(2) by (simp_all add: addressable_def word_less_nat_alt)
  have le: "x < 256 \<Longrightarrow> take_bit 32 x = x" for x :: nat
    by (simp add: take_bit_nat_eq_self)
  have *: "unat (ucast r :: u32) < 256" "unat (ucast (d_function d) :: u32) < 8"
    "unat (ucast (d_device d) :: u32) < 32" "unat (ucast (d_bus d) :: u32) < 256"
    using unat_u8_less [of r] unat_u8_less [of "d_bus d"] df by (simp_all add: unsigned_ucast_eq le)
  let ?v1 = "ucast r :: u32" let ?v2 = "?v1 OR push_bit 8 (ucast (d_function d))"
  let ?v3 = "?v2 OR push_bit 11 (ucast (d_device d))"
  have v1: "\<forall>n. bit ?v1 n \<longrightarrow> n < 8" using bit_imp_le_length [of r] by (auto simp: bit_simps)
  have v2: "\<forall>n. bit ?v2 n \<longrightarrow> n < 11"
    using bit_less [OF _ df(2)] v1 by (fastforce simp: bit_simps)
  have v3: "\<forall>n. bit ?v3 n \<longrightarrow> n < 16"
    using bit_less [OF _ df(1)] v2 by (fastforce simp: bit_simps)
  show ?thesis
    using * or_field [OF v1] or_field [OF v2] or_field [OF v3]
    by (simp add: ConfigAddress_new_def B unwrap_or_panic_def config_address_def) (simp only: or.assoc)
qed

lemma reads_device_read:
  assumes "bit_field_crate M" and "config_mechanism M cfg sel" and "addressable d"
  shows "reads cfg c (device_read M d r) (reg c d r)"
  using assms(2) unfolding reads_def device_read_def ConfigAddress_new_eq [OF assms(1,3)]
  by (auto simp: config_mechanism_def ConfigData_read_def ConfigAddress_write_def reg_def split: prod.splits)
    (metis fst_conv snd_conv)+

lemma reads_map_io: "reads cfg c m x \<Longrightarrow> reads cfg c (map_io f m) (f x)"
  unfolding reads_def map_io_def by (metis fst_conv prod.collapse snd_conv try_st.simps(1))

lemma reads_bind:
  "reads cfg c m x \<Longrightarrow> reads cfg c (k x) y \<Longrightarrow> reads cfg c (\<lambda>h. try_st (m h) k) y"
  unfolding reads_def by (metis prod.collapse try_st.simps(1))

text \<open>
  The capability list: the pointers from \<open>p\<close> on, up to the one whose next pointer is zero. \<open>msi_x\<close> returns the
  first MSI-X capability on it; one unit of fuel for each capability and one more are enough.
\<close>

definition next_cap :: "(u32 \<Rightarrow> u32) \<Rightarrow> pci_device \<Rightarrow> u8 \<Rightarrow> u8" where
  "next_cap c d p = ucast (drop_bit 8 (reg c d p))"

fun cap_chain :: "(u32 \<Rightarrow> u32) \<Rightarrow> pci_device \<Rightarrow> u8 \<Rightarrow> u8 list \<Rightarrow> bool" where
  "cap_chain c d p [] \<longleftrightarrow> next_cap c d p = 0"
| "cap_chain c d p (q # qs) \<longleftrightarrow> next_cap c d p = q \<and> q \<noteq> 0 \<and> cap_chain c d q qs"

definition is_msi_x_at :: "(u32 \<Rightarrow> u32) \<Rightarrow> pci_device \<Rightarrow> u8 \<Rightarrow> bool" where
  "is_msi_x_at c d p \<longleftrightarrow> (ucast (reg c d p) :: u8) = 0x11"

definition cap_at :: "pci_device \<Rightarrow> u8 \<Rightarrow> capability" where
  "cap_at d p = \<lparr>cap_device = d, cap_pointer = p\<rparr>"

lemma reads_cap_msi_x:
  assumes "bit_field_crate M" "config_mechanism M cfg sel" "addressable d"
  shows "reads cfg c (cap_msi_x M (cap_at d p)) (if is_msi_x_at c d p then Some (cap_at d p) else None)"
  unfolding cap_msi_x_def is_msi_x_def cap_id_def is_msi_x_at_def
  by (intro reads_map_io [where f = "\<lambda>b. if b then _ else _"] reads_map_io [where f = "\<lambda>i. i = _"] reads_map_io)
    (use reads_device_read [OF assms] in \<open>simp add: cap_at_def\<close>)

lemma reads_next_cap:
  assumes "bit_field_crate M" "config_mechanism M cfg sel" "addressable d" "p \<noteq> 0"
  shows "reads cfg c (capabilities_next M (cap_at d p))
    (if next_cap c d p = 0 then None else Some (cap_at d (next_cap c d p)))"
proof -
  have "reads cfg c (next_capability_pointer M (cap_at d p))
      (let q = ucast (drop_bit 8 (reg c d p)) in if q = 0 then None else Some q)"
    unfolding next_capability_pointer_def
    by (rule reads_map_io) (use reads_device_read [OF assms(1-3)] in \<open>simp add: cap_at_def\<close>)
  then have "reads cfg c (capabilities_next M (cap_at d p))
      (map_option (\<lambda>q. (cap_at d p)\<lparr>cap_pointer := q\<rparr>) (let q = ucast (drop_bit 8 (reg c d p)) in if q = 0 then None else Some q))"
    using assms(4) unfolding capabilities_next_def by (intro reads_map_io) (simp add: cap_at_def)
  then show ?thesis by (simp add: next_cap_def cap_at_def Let_def split: if_splits)
qed

lemma find_msi_x_Suc:
  "find_msi_x M (Suc n) it = (\<lambda>h. try_st (capabilities_next M it h) (\<lambda>c h.
     case c of
       None \<Rightarrow> (Ok None, h)
     | Some c \<Rightarrow> try_st (cap_msi_x M c h) (\<lambda>m h.
         case m of Some m \<Rightarrow> (Ok (Some m), h) | None \<Rightarrow> find_msi_x M n c h)))"
  by (rule ext) simp

lemma find_msi_x_chain:
  assumes M: "bit_field_crate (M :: 'h machine)" "config_mechanism M cfg sel" "addressable d"
  shows "cap_chain c d p qs \<Longrightarrow> p \<noteq> 0 \<Longrightarrow> length qs < n \<Longrightarrow>
    reads cfg c (find_msi_x M n (cap_at d p) :: ('h, 'e, _) io) (map_option (cap_at d) (find (is_msi_x_at c d) qs))"
proof (induction qs arbitrary: p n)
  case Nil
  then obtain m where m: "n = Suc m" by (cases n) auto
  have "reads cfg c (capabilities_next M (cap_at d p) :: ('h, 'e, _) io) None"
    using reads_next_cap [OF M Nil(2), of c] Nil(1) by simp
  then show ?case unfolding m find_msi_x_Suc by (rule reads_bind) (simp add: reads_def)
next
  case (Cons q qs)
  then obtain m where m: "n = Suc m" by (cases n) auto
  have "reads cfg c (capabilities_next M (cap_at d p) :: ('h, 'e, _) io) (Some (cap_at d q))"
    using reads_next_cap [OF M Cons(3), of c] Cons(2) by simp
  then show ?case
    unfolding m find_msi_x_Suc
  proof (rule reads_bind)
    have ih: "reads cfg c (find_msi_x M m (cap_at d q) :: ('h, 'e, _) io) (map_option (cap_at d) (find (is_msi_x_at c d) qs))"
      using Cons.IH [of q m] Cons.prems m by auto
    have "reads cfg c (\<lambda>h. try_st (cap_msi_x M (cap_at d q) h) (\<lambda>r h.
        case r of Some r \<Rightarrow> (Ok (Some r), h) | None \<Rightarrow> find_msi_x M m (cap_at d q) h) :: ('e, _) outcome \<times> 'h)
      (map_option (cap_at d) (find (is_msi_x_at c d) (q # qs)))"
      by (rule reads_bind [OF reads_cap_msi_x [OF M]])
        (use ih in \<open>auto simp: reads_def\<close>)
    then show "reads cfg c (\<lambda>h. case Some (cap_at d q) of None \<Rightarrow> (Ok None :: ('e, _) outcome, h)
        | Some c \<Rightarrow> try_st (cap_msi_x M c h) (\<lambda>r h. case r of Some r \<Rightarrow> (Ok (Some r), h) | None \<Rightarrow> find_msi_x M m c h))
      (map_option (cap_at d) (find (is_msi_x_at c d) (q # qs)))" by (simp only: option.case)
  qed
qed

section \<open>What the scan should list\<close>

definition present :: "(u32 \<Rightarrow> u32) \<Rightarrow> pci_device \<Rightarrow> bool" where
  "present c d \<longleftrightarrow> (ucast (reg c d 0x00) :: u16) \<noteq> 0xffff"

definition single :: "(u32 \<Rightarrow> u32) \<Rightarrow> pci_device \<Rightarrow> bool" where
  "single c d \<longleftrightarrow> reg c d 0x0c AND push_bit 16 0x80 = 0"

definition bridge :: "(u32 \<Rightarrow> u32) \<Rightarrow> pci_device \<Rightarrow> bool" where
  "bridge c d \<longleftrightarrow> is_standard_pci_to_pci_bridge (type_of_data (reg c d 0x08))"

definition secondary :: "(u32 \<Rightarrow> u32) \<Rightarrow> pci_device \<Rightarrow> u8" where
  "secondary c d = ucast (drop_bit 8 (reg c d 0x18))"

definition device_slots :: "(u32 \<Rightarrow> u32) \<Rightarrow> u8 \<Rightarrow> u8 \<Rightarrow> pci_device list" where
  "device_slots c b k =
     (if present c (device_new b k 0)
      then device_new b k 0 #
        (if single c (device_new b k 0) then []
         else filter (present c) (map (\<lambda>f. device_new b k (word_of_nat f)) [1..<8]))
      else [])"

definition bus_slots :: "(u32 \<Rightarrow> u32) \<Rightarrow> u8 \<Rightarrow> pci_device list" where
  "bus_slots c b = concat (map (\<lambda>k. device_slots c b (word_of_nat k)) [0..<32])"

fun bus_listing :: "(u32 \<Rightarrow> u32) \<Rightarrow> nat \<Rightarrow> u8 \<Rightarrow> pci_device list" where
  "bus_listing c 0 b = []"
| "bus_listing c (Suc n) b =
     concat (map (\<lambda>d. d # (if bridge c d then bus_listing c n (secondary c d) else [])) (bus_slots c b))"

definition host_buses :: "(u32 \<Rightarrow> u32) \<Rightarrow> u8 list" where
  "host_buses c =
     (if single c (device_new 0 0 0) then [0]
      else filter (\<lambda>f. present c (device_new 0 0 f)) (map word_of_nat [0..<8]))"

definition pci_listing :: "(u32 \<Rightarrow> u32) \<Rightarrow> nat \<Rightarrow> pci_device list" where
  "pci_listing c n = concat (map (bus_listing c n) (host_buses c))"

text \<open>The buses that can be reached, and the functions on them.\<close>

inductive bus_found :: "(u32 \<Rightarrow> u32) \<Rightarrow> u8 \<Rightarrow> bool" for c where
  host: "b \<in> set (host_buses c) \<Longrightarrow> bus_found c b"
| behind: "bus_found c b \<Longrightarrow> d \<in> set (bus_slots c b) \<Longrightarrow> bridge c d \<Longrightarrow> bus_found c (secondary c d)"

definition found :: "(u32 \<Rightarrow> u32) \<Rightarrow> pci_device set" where
  "found c = {d. \<exists>b. bus_found c b \<and> d \<in> set (bus_slots c b)}"

text \<open>No two bridges lead to the same bus and none leads back to a host bus, as the firmware arranges.\<close>

definition properly_numbered :: "(u32 \<Rightarrow> u32) \<Rightarrow> bool" where
  "properly_numbered c \<longleftrightarrow>
     inj_on (secondary c) {d \<in> found c. bridge c d} \<and>
     (\<forall>d \<in> found c. bridge c d \<longrightarrow> secondary c d \<notin> set (host_buses c))"

section \<open>The scan computes the listing\<close>

text \<open>
  With room for \<open>N\<close> devices and \<open>n\<close> units of fuel, more than there is room left, the action appends the list
  \<open>L\<close>, or as much of it as fits and fails.
\<close>

definition lists :: "('h \<Rightarrow> u32 \<Rightarrow> u32) \<Rightarrow> (u32 \<Rightarrow> u32) \<Rightarrow> nat \<Rightarrow> nat \<Rightarrow> ('h, unit) scan \<Rightarrow> pci_device list \<Rightarrow> bool" where
  "lists cfg c N n m L \<longleftrightarrow>
     (\<forall>dest h. cfg h = c \<and> length dest \<le> N \<and> N < length dest + n \<longrightarrow>
        (\<exists>h'. cfg h' = c \<and>
           m (dest, h) = (if length (dest @ L) \<le> N then Ok () else Err Full, (take N (dest @ L), h'))))"

lemma lists_skip: "lists cfg c N n (\<lambda>s. (Ok (), s)) []"
  by (simp add: lists_def)

lemma lists_read:
  assumes "reads cfg c m x" and "lists cfg c N n (k x) L"
  shows "lists cfg c N n (\<lambda>s. try_st (on_hw m s) k) L"
  unfolding lists_def
proof (intro allI impI)
  fix dest :: "pci_device list" and h assume *: "cfg h = c \<and> length dest \<le> N \<and> N < length dest + n"
  then obtain h' where "m h = (Ok x, h')" "cfg h' = c"
    using assms(1) unfolding reads_def by (metis prod.collapse)
  with * assms(2) show "\<exists>h'. cfg h' = c \<and> try_st (on_hw m (dest, h)) k =
      (if length (dest @ L) \<le> N then Ok () else Err Full, (take N (dest @ L), h'))"
    by (simp add: on_hw_def lists_def)
qed

lemma lists_seq:
  assumes "lists cfg c N n m L" and "lists cfg c N n k K"
  shows "lists cfg c N n (\<lambda>s. try_st (m s) (\<lambda>_. k)) (L @ K)"
  unfolding lists_def
proof (intro allI impI)
  fix dest :: "pci_device list" and h assume *: "cfg h = c \<and> length dest \<le> N \<and> N < length dest + n"
  then obtain h' where h': "cfg h' = c"
      "m (dest, h) = (if length (dest @ L) \<le> N then Ok () else Err Full, (take N (dest @ L), h'))"
    using assms(1) unfolding lists_def by blast
  show "\<exists>h'. cfg h' = c \<and> try_st (m (dest, h)) (\<lambda>_. k) =
      (if length (dest @ L @ K) \<le> N then Ok () else Err Full, (take N (dest @ L @ K), h'))"
  proof (cases "length (dest @ L) \<le> N")
    case True
    with h' have eq: "try_st (m (dest, h)) (\<lambda>_. k) = k (dest @ L, h')" by simp
    have "cfg h' = c \<and> length (dest @ L) \<le> N \<and> N < length (dest @ L) + n"
      using True * h' by simp
    then obtain h2 where "cfg h2 = c"
        "k (dest @ L, h') = (if length ((dest @ L) @ K) \<le> N then Ok () else Err Full, (take N ((dest @ L) @ K), h2))"
      using assms(2) unfolding lists_def by blast
    then show ?thesis unfolding eq by auto
  qed (use h' in auto)
qed

lemma lists_push:
  assumes "lists cfg c N n k L"
  shows "lists cfg c N (Suc n) (\<lambda>s. try_st (vec_push N d s) (\<lambda>_. k)) (d # L)"
  unfolding lists_def
proof (intro allI impI)
  fix dest :: "pci_device list" and h assume *: "cfg h = c \<and> length dest \<le> N \<and> N < length dest + Suc n"
  show "\<exists>h'. cfg h' = c \<and> try_st (vec_push N d (dest, h)) (\<lambda>_. k) =
      (if length (dest @ d # L) \<le> N then Ok () else Err Full, (take N (dest @ d # L), h'))"
  proof (cases "length dest < N")
    case True
    then have "cfg h = c \<and> length (dest @ [d]) \<le> N \<and> N < length (dest @ [d]) + n" using * by simp
    then obtain h2 where "cfg h2 = c"
        "k (dest @ [d], h) = (if length ((dest @ [d]) @ L) \<le> N then Ok () else Err Full, (take N ((dest @ [d]) @ L), h2))"
      using assms unfolding lists_def by blast
    then show ?thesis using True by (auto simp: vec_push_def)
  qed (use * in \<open>auto simp: vec_push_def\<close>)
qed

lemma lists_for:
  assumes "\<And>x. x \<in> set xs \<Longrightarrow> lists cfg c N n (f x) (L x)"
  shows "lists cfg c N n (for_scan f xs) (concat (map L xs))"
  using assms
proof (induction xs)
  case Nil
  show ?case using lists_skip [of cfg c N n] by (simp add: lists_def)
next
  case (Cons x xs)
  have "lists cfg c N n (\<lambda>s. try_st (f x s) (\<lambda>_. for_scan f xs)) (L x @ concat (map L xs))"
    using Cons by (intro lists_seq) simp_all
  moreover have "(\<lambda>s. try_st (f x s) (\<lambda>_. for_scan f xs)) = for_scan f (x # xs)"
    by (rule ext) simp
  ultimately show ?case by simp
qed

lemma concat_filter: "concat (map (\<lambda>x. if P x then f x else []) xs) = concat (map f (filter P xs))"
  by (induction xs) simp_all

lemma concat_map_concat: "concat (map (\<lambda>x. concat (map f (g x))) xs) = concat (map f (concat (map g xs)))"
  by (induction xs) simp_all

lemma length_concat_elem: "x \<in> set xs \<Longrightarrow> length (f x) \<le> length (concat (map f xs))"
  by (induction xs) auto

lemma small_u8: "k < 32 \<Longrightarrow> (word_of_nat k :: u8) < 32" "k < 8 \<Longrightarrow> (word_of_nat k :: u8) < 8"
  by (simp_all add: word_less_nat_alt unsigned_of_nat take_bit_nat_eq_self)

lemma device_new_sel [simp]:
  "d_bus (device_new b k f) = b" "d_device (device_new b k f) = k" "d_function (device_new b k f) = f"
  by (simp_all add: device_new_def)

definition scan_block :: "(u32 \<Rightarrow> u32) \<Rightarrow> nat \<Rightarrow> pci_device \<Rightarrow> pci_device list" where
  "scan_block c n d = d # (if bridge c d then bus_listing c n (secondary c d) else [])"

lemma lists_scan_function:
  assumes M: "bit_field_crate M" "config_mechanism M cfg sel" and d: "addressable (device_new b k f)"
    and rec: "\<And>b. lists cfg c N n (rec b) (bus_listing c n b)"
  shows "lists cfg c N (Suc n) (scan_function M N rec b k f) (scan_block c n (device_new b k f))"
proof -
  let ?d = "device_new b k f"
  note r = reads_device_read [OF M d, of c]
  have ty: "reads cfg c (device_type M ?d) (type_of_data (reg c ?d 0x08))"
    unfolding device_type_def by (rule reads_map_io [OF r])
  have bn: "reads cfg c (bus_numbers M ?d) (ucast (reg c ?d 0x18), secondary c ?d)" if "bridge c ?d"
  proof -
    have "reads cfg c (\<lambda>h. try_st (device_type M ?d h) (\<lambda>t h. if is_standard_pci_to_pci_bridge t
        then map_io (\<lambda>data. (ucast data, ucast (drop_bit 8 data))) (device_read M ?d 0x18) h else (Panic, h)))
      (ucast (reg c ?d 0x18), secondary c ?d)"
      by (rule reads_bind [OF ty]) (use that reads_map_io [OF r] in \<open>simp add: bridge_def secondary_def\<close>)
    then show ?thesis by (simp add: bus_numbers_def [abs_def])
  qed
  have "lists cfg c N n (\<lambda>s. if bridge c ?d
      then try_st (on_hw (bus_numbers M ?d) s) (\<lambda>(_, secondary_bus). rec secondary_bus) else (Ok (), s))
    (if bridge c ?d then bus_listing c n (secondary c ?d) else [])"
    using lists_read [OF bn, where k = "\<lambda>(_, secondary_bus). rec secondary_bus"] rec lists_skip by auto
  then have "lists cfg c N (Suc n) (\<lambda>s. try_st (vec_push N ?d s) (\<lambda>_ s. try_st (on_hw (device_type M ?d) s) (\<lambda>t s.
      if is_standard_pci_to_pci_bridge t
      then try_st (on_hw (bus_numbers M ?d) s) (\<lambda>(_, secondary_bus). rec secondary_bus) else (Ok (), s))))
    (scan_block c n ?d)"
    unfolding scan_block_def by (intro lists_push lists_read [OF ty]) (simp add: bridge_def)
  then show ?thesis by (simp add: scan_function_def [abs_def] Let_def)
qed

lemma lists_scan_device:
  assumes M: "bit_field_crate M" "config_mechanism M cfg sel" and k: "k < 32"
    and pr: "present c (device_new b k 0)"
    and rec: "\<And>b. lists cfg c N n (rec b) (bus_listing c n b)"
  shows "lists cfg c N (Suc n) (scan_device M N rec b k) (concat (map (scan_block c n) (device_slots c b k)))"
proof -
  let ?d = "\<lambda>f. device_new b k f"
  have ad: "addressable (?d f)" if "f < 8" for f using k that by (simp add: addressable_def)
  note fn = lists_scan_function [OF M ad rec]
  note r = reads_device_read [OF M ad]
  have sg: "reads cfg c (is_single_function M (?d 0)) (single c (?d 0))"
    unfolding is_single_function_def single_def by (rule reads_map_io [OF r]) simp
  have vi: "reads cfg c (vendor_id M (?d f)) (ucast (reg c (?d f) 0x00))" if "f < 8" for f
    unfolding vendor_id_def by (rule reads_map_io [OF r [OF that]])
  let ?body = "\<lambda>f s. try_st (on_hw (vendor_id M (?d f)) s) (\<lambda>v s.
      if v \<noteq> 0xffff then scan_function M N rec b k f s else (Ok (), s))"
  have body: "lists cfg c N (Suc n) (?body f) (if present c (?d f) then scan_block c n (?d f) else [])" if "f < 8" for f
    by (rule lists_read [OF vi [OF that]]) (use fn [OF that] lists_skip in \<open>auto simp: present_def\<close>)
  have "lists cfg c N (Suc n) (for_scan ?body (map word_of_nat [1..<8]))
     (concat (map (\<lambda>f. if present c (?d f) then scan_block c n (?d f) else []) (map word_of_nat [1..<8])))"
    by (rule lists_for, rule body) (auto intro: small_u8)
  then have rest: "lists cfg c N (Suc n) (for_scan ?body (map word_of_nat [1..<8]))
     (concat (map (scan_block c n) (filter (present c) (map (\<lambda>f. ?d (word_of_nat f)) [1..<8]))))"
    unfolding concat_filter by (simp add: filter_map comp_def del: upt_rec_numeral)
  have "lists cfg c N (Suc n)
      (\<lambda>s. try_st (scan_function M N rec b k 0 s) (\<lambda>_ s.
         try_st (on_hw (is_single_function M (?d 0)) s) (\<lambda>single s.
           if \<not> single then for_scan ?body (map word_of_nat [1..<8]) s else (Ok (), s))))
      (scan_block c n (?d 0) @ concat (map (scan_block c n)
         (if single c (?d 0) then [] else filter (present c) (map (\<lambda>f. ?d (word_of_nat f)) [1..<8]))))"
    by (intro lists_seq fn lists_read [OF sg]) (use rest lists_skip in \<open>auto simp del: upt_rec_numeral\<close>)
  then show ?thesis using pr by (simp add: scan_device_def [abs_def] device_slots_def del: upt_rec_numeral)
qed

lemma lists_scan_bus:
  assumes M: "bit_field_crate M" "config_mechanism M cfg sel"
  shows "lists cfg c N n (scan_bus M N n b) (bus_listing c n b)"
proof (induction n arbitrary: b)
  case 0
  then show ?case by (simp add: lists_def)
next
  case (Suc n)
  let ?body = "\<lambda>k s. try_st (on_hw (vendor_id M (device_new b k 0)) s) (\<lambda>v s.
      if v \<noteq> 0xffff then scan_device M N (scan_bus M N n) b k s else (Ok (), s))"
  have body: "lists cfg c N (Suc n) (?body k) (concat (map (scan_block c n) (device_slots c b k)))" if "k < 32" for k
  proof (rule lists_read)
    show "reads cfg c (vendor_id M (device_new b k 0)) (ucast (reg c (device_new b k 0) 0x00))"
      unfolding vendor_id_def
      by (intro reads_map_io reads_device_read [OF M]) (simp add: addressable_def that)
    show "lists cfg c N (Suc n) (\<lambda>s. if ucast (reg c (device_new b k 0) 0x00) \<noteq> (0xffff :: u16)
        then scan_device M N (scan_bus M N n) b k s else (Ok (), s)) (concat (map (scan_block c n) (device_slots c b k)))"
      using lists_scan_device [OF M that _ Suc.IH] lists_skip
      by (cases "present c (device_new b k 0)") (auto simp: present_def device_slots_def)
  qed
  have "lists cfg c N (Suc n) (for_scan ?body (map word_of_nat [0..<32]))
      (concat (map (\<lambda>k. concat (map (scan_block c n) (device_slots c b k))) (map word_of_nat [0..<32])))"
    by (rule lists_for, rule body) (auto intro: small_u8)
  moreover have "scan_bus M N (Suc n) b = for_scan ?body (map word_of_nat [0..<32])"
    by (rule ext) simp
  ultimately show ?case
    by (simp add: bus_slots_def scan_block_def [abs_def] concat_map_concat comp_def del: upt_rec_numeral)
qed

lemma device_scan_eq:
  assumes M: "bit_field_crate M" "config_mechanism M cfg sel"
  obtains h' where "cfg h' = cfg h" and "device_scan M N (Suc N) h =
    (let L = pci_listing (cfg h) (Suc N) in if length L \<le> N then Ok L else Err Full, h')"
proof -
  let ?c = "cfg h" let ?d = "device_new 0 0"
  let ?body = "\<lambda>f s. try_st (on_hw (vendor_id M (?d f)) s) (\<lambda>v s.
      if v \<noteq> 0xffff then scan_bus M N (Suc N) f s else (Ok (), s))"
  note bus = lists_scan_bus [OF M, where n = "Suc N"]
  have ad: "addressable (?d f)" if "f < 8" for f using that by (simp add: addressable_def)
  have sg: "reads cfg ?c (is_single_function M (?d 0)) (single ?c (?d 0))"
    unfolding is_single_function_def single_def by (intro reads_map_io reads_device_read [OF M] ad) simp
  have vi: "reads cfg ?c (vendor_id M (?d f)) (ucast (reg ?c (?d f) 0x00))" if "f < 8" for f
    unfolding vendor_id_def by (intro reads_map_io reads_device_read [OF M] ad that)
  have body: "lists cfg ?c N (Suc N) (?body f) (if present ?c (?d f) then bus_listing ?c (Suc N) f else [])" if "f < 8" for f
    by (rule lists_read [OF vi [OF that]]) (use bus lists_skip in \<open>auto simp: present_def simp del: scan_bus.simps\<close>)
  have "lists cfg ?c N (Suc N) (for_scan ?body (map word_of_nat [0..<8]))
     (concat (map (\<lambda>f. if present ?c (?d f) then bus_listing ?c (Suc N) f else []) (map word_of_nat [0..<8])))"
    by (rule lists_for, rule body) (auto intro: small_u8)
  note rest = this [unfolded concat_filter]
  have "lists cfg ?c N (Suc N) (\<lambda>s. try_st (on_hw (is_single_function M (?d 0)) s) (\<lambda>single s.
        if single then scan_bus M N (Suc N) 0 s else for_scan ?body (map word_of_nat [0..<8]) s))
      (pci_listing ?c (Suc N))"
    unfolding pci_listing_def host_buses_def
    by (intro lists_read [OF sg]) (use bus rest in \<open>auto simp: filter_map simp del: scan_bus.simps bus_listing.simps upt_rec_numeral\<close>)
  then obtain h' where "cfg h' = ?c" "try_st (on_hw (is_single_function M (?d 0)) ([], h)) (\<lambda>single s.
        if single then scan_bus M N (Suc N) 0 s else for_scan ?body (map word_of_nat [0..<8]) s) =
      (if length ([] @ pci_listing ?c (Suc N)) \<le> N then Ok () else Err Full, (take N ([] @ pci_listing ?c (Suc N)), h'))"
    unfolding lists_def by (metis (no_types, lifting) add_0 le0 lessI list.size(3))
  then show thesis
    using that [of h'] by (simp add: device_scan_def Let_def del: scan_bus.simps bus_listing.simps upt_rec_numeral)
qed

section \<open>The listing is what can be found\<close>

lemma bus_slots_bus: "d \<in> set (bus_slots c b) \<Longrightarrow> d_bus d = b"
  by (auto simp: bus_slots_def device_slots_def split: if_splits)

lemma bus_listing_Suc: "bus_listing c (Suc n) b = concat (map (scan_block c n) (bus_slots c b))"
  by (simp add: scan_block_def [abs_def])

text \<open>
  A listing shorter than its fuel has followed every bridge: the buses it visits are closed under bridges.
\<close>

inductive below :: "(u32 \<Rightarrow> u32) \<Rightarrow> u8 \<Rightarrow> u8 \<Rightarrow> bool" for c a where
  refl: "below c a a"
| step: "below c a b \<Longrightarrow> d \<in> set (bus_slots c b) \<Longrightarrow> bridge c d \<Longrightarrow> below c a (secondary c d)"

lemma below_behind:
  "below c (secondary c d) x \<Longrightarrow> d \<in> set (bus_slots c b) \<Longrightarrow> bridge c d \<Longrightarrow> below c b x"
  by (induction rule: below.induct) (auto intro: below.intros)

lemma below_cases:
  assumes "below c b x"
  shows "x = b \<or> (\<exists>d \<in> set (bus_slots c b). bridge c d \<and> below c (secondary c d) x)"
  using assms by induction (auto intro: below.intros)

lemma bus_listing_below:
  "d \<in> set (bus_listing c n b) \<Longrightarrow> below c b (d_bus d) \<and> d \<in> set (bus_slots c (d_bus d))"
proof (induction n arbitrary: b)
  case (Suc n)
  then obtain e where e: "e \<in> set (bus_slots c b)" "d \<in> set (scan_block c n e)"
    unfolding bus_listing_Suc by auto
  show ?case
  proof (cases "d = e")
    case True
    then show ?thesis using e bus_slots_bus [OF e(1)] by (simp add: below.refl)
  next
    case False
    then have "bridge c e" "d \<in> set (bus_listing c n (secondary c e))"
      using e by (auto simp: scan_block_def split: if_splits)
    then show ?thesis using Suc.IH below_behind [OF _ e(1)] by blast
  qed
qed simp

lemma bus_listing_complete:
  assumes "length (bus_listing c n b) < n" and "below c b x" and "d \<in> set (bus_slots c x)"
  shows "d \<in> set (bus_listing c n b)"
  using assms(1,2)
proof (induction n arbitrary: b)
  case (Suc n)
  consider "x = b" | e where "e \<in> set (bus_slots c b)" "bridge c e" "below c (secondary c e) x"
    using below_cases [OF Suc.prems(2)] by blast
  then show ?case
  proof cases
    case 1
    then show ?thesis using assms(3) by auto
  next
    case 2
    have "length (scan_block c n e) < Suc n"
      using length_concat_elem [OF 2(1), of "scan_block c n"] Suc.prems(1) unfolding bus_listing_Suc by linarith
    then have "length (bus_listing c n (secondary c e)) < n" using 2(2) by (simp add: scan_block_def)
    then have "d \<in> set (bus_listing c n (secondary c e))" using Suc.IH 2(3) by blast
    then have "d \<in> set (scan_block c n e)" using 2(2) by (simp add: scan_block_def)
    then show ?thesis unfolding bus_listing_Suc using 2(1) by auto
  qed
qed simp

lemma bus_found_below: "bus_found c x \<longleftrightarrow> (\<exists>b \<in> set (host_buses c). below c b x)"
proof
  show "bus_found c x \<Longrightarrow> \<exists>b \<in> set (host_buses c). below c b x"
    by (induction rule: bus_found.induct) (auto intro: below.intros)
  have "below c b x \<Longrightarrow> bus_found c b \<Longrightarrow> bus_found c x" for b
    by (induction rule: below.induct) (auto intro: bus_found.behind)
  then show "\<exists>b \<in> set (host_buses c). below c b x \<Longrightarrow> bus_found c x"
    using bus_found.host by blast
qed

lemma pci_listing_sound: "set (pci_listing c n) \<subseteq> found c"
  using bus_listing_below by (fastforce simp: pci_listing_def found_def bus_found_below)

lemma pci_listing_complete:
  assumes "length (pci_listing c n) < n"
  shows "set (pci_listing c n) = found c"
proof
  show "found c \<subseteq> set (pci_listing c n)"
  proof
    fix d assume "d \<in> found c"
    then obtain b x where b: "b \<in> set (host_buses c)" "below c b x" "d \<in> set (bus_slots c x)"
      by (auto simp: found_def bus_found_below)
    have "length (bus_listing c n b) < n"
      using length_concat_elem [OF b(1), of "bus_listing c n"] assms unfolding pci_listing_def by linarith
    then have "d \<in> set (bus_listing c n b)" using bus_listing_complete b by blast
    then show "d \<in> set (pci_listing c n)" using b(1) by (auto simp: pci_listing_def)
  qed
qed (rule pci_listing_sound)

text \<open>
  With proper bus numbers every bus that is found has one depth, and one ancestor at every smaller depth, so
  listings of different buses of the same depth are disjoint.
\<close>

inductive depth :: "(u32 \<Rightarrow> u32) \<Rightarrow> u8 \<Rightarrow> nat \<Rightarrow> bool" for c where
  host: "b \<in> set (host_buses c) \<Longrightarrow> depth c b 0"
| behind: "depth c b k \<Longrightarrow> d \<in> set (bus_slots c b) \<Longrightarrow> bridge c d \<Longrightarrow> depth c (secondary c d) (Suc k)"

lemma depth_found: "depth c b k \<Longrightarrow> bus_found c b"
  by (induction rule: depth.induct) (auto intro: bus_found.intros)

lemma slot_found: "bus_found c b \<Longrightarrow> d \<in> set (bus_slots c b) \<Longrightarrow> d \<in> found c"
  by (auto simp: found_def)

lemma numbered_parent:
  assumes "properly_numbered c" and "bus_found c a" "d \<in> set (bus_slots c a)" "bridge c d"
    and "bus_found c b" "e \<in> set (bus_slots c b)" "bridge c e" and "secondary c d = secondary c e"
  shows "d = e \<and> a = b"
proof -
  have "d = e"
    using assms slot_found unfolding properly_numbered_def inj_on_def by blast
  then show ?thesis using bus_slots_bus assms by metis
qed

lemma numbered_host:
  "properly_numbered c \<Longrightarrow> bus_found c b \<Longrightarrow> d \<in> set (bus_slots c b) \<Longrightarrow> bridge c d \<Longrightarrow>
    secondary c d \<notin> set (host_buses c)"
  using slot_found unfolding properly_numbered_def by blast

lemma depth_unique:
  assumes c: "properly_numbered c"
  shows "depth c x i \<Longrightarrow> depth c x j \<Longrightarrow> i = j"
proof (induction arbitrary: j rule: depth.induct)
  case (host b)
  from host(2,1) show ?case
    by cases (auto dest: numbered_host [OF c depth_found])
next
  case (behind b k d)
  from behind(5) show ?case
  proof cases
    case host
    then show ?thesis using numbered_host [OF c depth_found [OF behind(1)] behind(2,3)] by simp
  next
    case (behind b' k' d')
    have "b' = b"
      using numbered_parent [OF c depth_found [OF behind(3)] behind(4,5) depth_found [OF \<open>depth c b k\<close>]]
        \<open>d \<in> set (bus_slots c b)\<close> \<open>bridge c d\<close> behind(1) by simp
    then show ?thesis using \<open>\<And>j. depth c b j \<Longrightarrow> k = j\<close> behind by blast
  qed
qed

lemma below_deeper: "below c a x \<Longrightarrow> depth c a k \<Longrightarrow> \<exists>i \<ge> k. depth c x i \<and> (x = a \<or> k < i)"
  by (induction rule: below.induct) (auto intro: depth.behind le_SucI)

lemma below_depth:
  assumes c: "properly_numbered c" and "below c a x" "below c b x" "depth c a k" "depth c b k"
  shows "a = b"
proof -
  have found: "below c a x \<Longrightarrow> depth c a k \<Longrightarrow> bus_found c x" for a x
    using below_deeper depth_found by blast
  show ?thesis
    using assms(2,3)
  proof (induction rule: below.induct)
    case refl
    then show ?case using below_deeper [OF refl \<open>depth c b k\<close>] depth_unique [OF c assms(4)] by blast
  next
    case (step y d)
    from step(5) show ?case
    proof cases
      case refl
      then show ?thesis
        using below_deeper [OF below.step [OF step(1-3)] assms(4)] depth_unique [OF c assms(5)] by auto
    next
      case (step y' d')
      have "y' = y"
        using numbered_parent [OF c found [OF step(2) assms(5)] step(3,4) found [OF \<open>below c a y\<close> assms(4)]]
          \<open>d \<in> set (bus_slots c y)\<close> \<open>bridge c d\<close> step(1) by simp
      then show ?thesis using \<open>below c b y \<Longrightarrow> a = b\<close> step(2) by simp
    qed
  qed
qed

lemma distinct_concat_map:
  assumes "distinct xs" and "\<And>x. x \<in> set xs \<Longrightarrow> distinct (f x)"
    and "\<And>x y. x \<in> set xs \<Longrightarrow> y \<in> set xs \<Longrightarrow> x \<noteq> y \<Longrightarrow> set (f x) \<inter> set (f y) = {}"
  shows "distinct (concat (map f xs))"
  using assms
proof (induction xs)
  case (Cons x xs)
  then have "set (f x) \<inter> set (f y) = {}" if "y \<in> set xs" for y
    using that by (metis distinct.simps(2) list.set_intros(1,2))
  with Cons show ?case by auto
qed simp

lemma device_new_inject [simp]: "device_new a k f = device_new b l g \<longleftrightarrow> a = b \<and> k = l \<and> f = g"
  by (simp add: device_new_def)

lemma distinct_words: "n \<le> 256 \<Longrightarrow> distinct (map (word_of_nat :: nat \<Rightarrow> u8) [m..<n])"
  by (auto simp: distinct_map inj_on_def dest!: arg_cong [where f = unat] simp: unsigned_of_nat take_bit_nat_eq_self)

lemma device_slots_fields: "d \<in> set (device_slots c b k) \<Longrightarrow> d_bus d = b \<and> d_device d = k"
  by (auto simp: device_slots_def split: if_splits)

lemma distinct_device_slots: "distinct (device_slots c b k)"
proof -
  have "distinct (map (\<lambda>f. device_new b k (word_of_nat f)) [0..<8])"
    using distinct_words [of 8 0] by (auto simp: distinct_map inj_on_def simp del: upt_rec_numeral)
  then have "distinct (map (\<lambda>f. device_new b k (word_of_nat f)) (0 # [1..<8]))"
    by (simp add: upt_rec [of 0])
  then show ?thesis
    by (auto simp: device_slots_def simp del: upt_rec_numeral)
qed

lemma distinct_bus_slots: "distinct (bus_slots c b)"
proof -
  have "distinct (concat (map (device_slots c b) (map word_of_nat [0..<32])))"
  proof (rule distinct_concat_map)
    show "distinct (map word_of_nat [0..<32] :: u8 list)" by (rule distinct_words) simp
    show "set (device_slots c b k) \<inter> set (device_slots c b l) = {}" if "k \<noteq> l" for k l
      using that device_slots_fields by blast
  qed (rule distinct_device_slots)
  then show ?thesis by (simp add: bus_slots_def comp_def del: upt_rec_numeral)
qed

lemma distinct_bus_listing:
  assumes c: "properly_numbered c"
  shows "depth c b k \<Longrightarrow> distinct (bus_listing c n b)"
proof (induction n arbitrary: b k)
  case (Suc n)
  have sub: "depth c (secondary c d) (Suc k)" if "d \<in> set (bus_slots c b)" "bridge c d" for d
    using depth.behind Suc.prems that by blast
  have out: "e \<notin> set (bus_listing c n (secondary c d))"
    if "d \<in> set (bus_slots c b)" "bridge c d" "e \<in> set (bus_slots c b)" for d e
  proof
    note deeper = below_deeper [OF _ sub [OF that(1,2)]]
    assume "e \<in> set (bus_listing c n (secondary c d))"
    then have "below c (secondary c d) b" using bus_listing_below bus_slots_bus [OF that(3)] by blast
    then obtain i where "Suc k \<le> i" "depth c b i" using deeper by blast
    then show False using depth_unique [OF c Suc.prems] by auto
  qed
  show ?case
    unfolding bus_listing_Suc
  proof (rule distinct_concat_map [OF distinct_bus_slots])
    show "distinct (scan_block c n d)" if "d \<in> set (bus_slots c b)" for d
      using Suc.IH [OF sub] out that by (auto simp: scan_block_def)
  next
    fix d e assume de: "d \<in> set (bus_slots c b)" "e \<in> set (bus_slots c b)" "d \<noteq> e"
    have "\<not> (x \<in> set (bus_listing c n (secondary c d)) \<and> x \<in> set (bus_listing c n (secondary c e)))"
      if "bridge c d" "bridge c e" for x
    proof
      assume "x \<in> set (bus_listing c n (secondary c d)) \<and> x \<in> set (bus_listing c n (secondary c e))"
      then have "secondary c d = secondary c e"
        using below_depth [OF c _ _ sub [OF de(1) that(1)] sub [OF de(2) that(2)]] bus_listing_below by blast
      then show False
        using numbered_parent [OF c depth_found [OF Suc.prems] de(1) that(1) depth_found [OF Suc.prems] de(2) that(2)] de(3)
        by simp
    qed
    then show "set (scan_block c n d) \<inter> set (scan_block c n e) = {}"
      using out de by (auto simp: scan_block_def)
  qed
qed simp

lemma distinct_host_buses: "distinct (host_buses c)"
  using distinct_words [of 8 0] by (auto simp: host_buses_def simp del: upt_rec_numeral)

lemma distinct_pci_listing:
  assumes c: "properly_numbered c"
  shows "distinct (pci_listing c n)"
  unfolding pci_listing_def
proof (rule distinct_concat_map [OF distinct_host_buses])
  show "distinct (bus_listing c n b)" if "b \<in> set (host_buses c)" for b
    using distinct_bus_listing [OF c depth.host [OF that]] .
  show "set (bus_listing c n a) \<inter> set (bus_listing c n b) = {}"
    if "a \<in> set (host_buses c)" "b \<in> set (host_buses c)" "a \<noteq> b" for a b
    using below_depth [OF c _ _ depth.host [OF that(1)] depth.host [OF that(2)]] bus_listing_below that(3) by blast
qed

lemma finite_found: "finite (found c)"
proof (rule finite_subset)
  show "found c \<subseteq> (\<lambda>(b, k, f). device_new b k f) ` UNIV"
    by (auto simp: image_def device_new_def) (metis pci_device.surjective old.unit.exhaust)
qed simp

text \<open>
  C11: The PCI scan is exact. On a machine whose configuration space answers through the two ports,
  \<open>Device::scan::<N>\<close> always returns, whatever the bridges say, never panics and changes no register. If it
  succeeds it lists exactly the functions that are present on a bus reachable through bridges, at most \<open>N\<close>;
  with properly assigned bus numbers each appears once, and the scan fails with \<open>Full\<close> only if there are
  more than \<open>N\<close> of them.
\<close>

theorem pci_scan_exact:
  assumes "bit_field_crate M" and "config_mechanism M cfg sel"
  shows "\<exists>h'. cfg h' = cfg h \<and>
    ((\<exists>ds. device_scan M N (Suc N) h = (Ok ds, h') \<and> length ds \<le> N \<and> set ds = found (cfg h) \<and>
        (properly_numbered (cfg h) \<longrightarrow> distinct ds)) \<or>
     device_scan M N (Suc N) h = (Err Full, h') \<and> (properly_numbered (cfg h) \<longrightarrow> N < card (found (cfg h))))"
proof -
  define L where "L = pci_listing (cfg h) (Suc N)"
  obtain h' where h': "cfg h' = cfg h"
      "device_scan M N (Suc N) h = (if length L \<le> N then Ok L else Err Full, h')"
    unfolding L_def using device_scan_eq [OF assms, of h N] unfolding Let_def by metis
  show ?thesis
  proof (cases "length L \<le> N")
    case True
    then have "set L = found (cfg h)" unfolding L_def by (intro pci_listing_complete) simp
    moreover have "properly_numbered (cfg h) \<longrightarrow> distinct L" unfolding L_def using distinct_pci_listing by blast
    ultimately show ?thesis using True h' by (intro exI [of _ h']) simp
  next
    case False
    have "N < card (found (cfg h))" if "properly_numbered (cfg h)"
    proof -
      have "N < length L" using False by simp
      also have "length L = card (set L)"
        using distinct_pci_listing [OF that] by (simp add: L_def distinct_card)
      also have "\<dots> \<le> card (found (cfg h))"
        unfolding L_def by (intro card_mono finite_found pci_listing_sound)
      finally show ?thesis .
    qed
    then show ?thesis using False h' by (intro exI [of _ h']) simp
  qed
qed

text \<open>A machine with a host bridge, a bridge to bus 1 and a disk on it.\<close>

definition small_config :: "u32 \<Rightarrow> u32" where
  "small_config a =
     (case map_of [(0x80000000, 0x12378086), (0x80000008, 0x06000000), (0x8000000c, 0),
        (0x80000800, 0x00011b36), (0x80000808, 0x06040000), (0x8000080c, 0x00010000), (0x80000818, 0x00010100),
        (0x80010000, 0x10011af4), (0x80010008, 0x01000000), (0x8001000c, 0)] a
      of Some v \<Rightarrow> v | None \<Rightarrow> 0xffffffff)"

definition small_machine :: "u32 machine" where
  "small_machine =
     \<lparr>m_ports = \<lparr>in8 = \<lambda>_ h. (0, h), in16 = \<lambda>_ h. (0, h),
        in32 = \<lambda>p h. (if p = 0x0cfc then small_config h else 0, h),
        out8 = \<lambda>_ _ h. h, out16 = \<lambda>_ _ h. h, out32 = \<lambda>p v h. if p = 0x0cf8 then v else h\<rparr>,
      bf_set_bits = \<lambda>v lo hi w. if lo < hi \<and> hi \<le> 32 \<and> unat w < 2 ^ (hi - lo)
        then Some ((v AND NOT (push_bit lo (mask (hi - lo)))) OR push_bit lo w) else None,
      bf_set_bit = \<lambda>v i b. if i < 32 then Some (if b then v OR push_bit i 1 else v AND NOT (push_bit i 1)) else None,
      read_volatile = \<lambda>_ h. (0, h), write_volatile = \<lambda>_ _ h. h\<rparr>"

lemma small_machine_ok:
  "bit_field_crate small_machine" "config_mechanism small_machine (\<lambda>_. small_config) id"
  by (simp_all add: bit_field_crate_def config_mechanism_def small_machine_def)

lemma small_scan:
  "fst (device_scan small_machine 3 (Suc 3) 0) = Ok [device_new 0 0 0, device_new 0 1 0, device_new 1 0 0]"
  by code_simp

theorem pci_scan_exact_witness:
  "fst (device_scan small_machine 3 (Suc 3) 0) = Ok [device_new 0 0 0, device_new 0 1 0, device_new 1 0 0] \<and>
   found small_config = {device_new 0 0 0, device_new 0 1 0, device_new 1 0 0}"
proof -
  obtain h' where "(\<exists>ds. device_scan small_machine 3 (Suc 3) 0 = (Ok ds, h') \<and> set ds = found small_config) \<or>
      device_scan small_machine 3 (Suc 3) 0 = (Err Full, h')"
    using pci_scan_exact [OF small_machine_ok, where N = 3 and h = 0] by blast
  then have "set [device_new 0 0 0, device_new 0 1 0, device_new 1 0 0] = found small_config"
    using small_scan by (metis fst_conv outcome.distinct(1) outcome.inject(1))
  with small_scan show ?thesis by simp
qed

end
