(* ===== verification/Phys_Memory.thy ===== *)
theory Phys_Memory
  imports Ors_Prelude
begin

text \<open>
  The physical frame allocator, \<open>ors-kernel/src/phys_memory.rs\<close>: a bitmap with one bit per
  4 KiB frame (set: allocated), a first-fit search, and the set-up from the boot loader's
  memory map. Frame numbers, byte counts and addresses are naturals: they stay far below
  \<open>2 ^ 64\<close> (the bitmap covers 128 GiB, and every index is compared with the end of the managed
  range before it is used), while the map lines are 64-bit words. Log output (\<open>trace!\<close> and the flag
  \<open>init\<close> that selects it) is left out.
\<close>

section \<open>Data\<close>

definition FRAME_SIZE :: nat where
  "FRAME_SIZE = 4096"

definition MAX_PHYSICAL_MEMORY_BYTES :: nat where
  "MAX_PHYSICAL_MEMORY_BYTES = 128 * 1024 * 1024 * 1024"

definition FRAME_COUNT :: nat where
  "FRAME_COUNT = MAX_PHYSICAL_MEMORY_BYTES div FRAME_SIZE"

definition BITS_PER_MAP_LINE :: nat where
  "BITS_PER_MAP_LINE = 64"

definition MAP_LINE_COUNT :: nat where
  "MAP_LINE_COUNT = FRAME_COUNT div BITS_PER_MAP_LINE"

definition FRAME_MIN :: nat where
  "FRAME_MIN = 1"

definition FRAME_MAX :: nat where
  "FRAME_MAX = FRAME_COUNT"

definition frame_from_phys_addr :: "nat \<Rightarrow> nat" where
  "frame_from_phys_addr addr = addr div FRAME_SIZE"

definition frame_phys_addr :: "nat \<Rightarrow> nat" where
  "frame_phys_addr frame = frame * FRAME_SIZE"

record frame_manager =
  alloc_map :: "u64 list"
  frame_begin :: nat
  frame_end :: nat

datatype allocate_error = NotEnoughFrame

record mem_descriptor =
  phys_start :: u64
  phys_end :: u64

section \<open>Operations\<close>

definition new_frame_manager :: frame_manager where
  "new_frame_manager =
     \<lparr>alloc_map = replicate MAP_LINE_COUNT 0, frame_begin = FRAME_MIN, frame_end = FRAME_MAX\<rparr>"

definition set_memory_range :: "frame_manager \<Rightarrow> nat \<Rightarrow> nat \<Rightarrow> frame_manager" where
  "set_memory_range m b e = m\<lparr>frame_begin := b, frame_end := e\<rparr>"

text \<open>Indexing the map out of range panics.\<close>

definition get_bit :: "frame_manager \<Rightarrow> nat \<Rightarrow> (allocate_error, bool) outcome" where
  "get_bit m frame =
     (let line_index = frame div BITS_PER_MAP_LINE; bit_index = frame mod BITS_PER_MAP_LINE in
      if line_index < length (alloc_map m)
      then Ok ((alloc_map m ! line_index) AND push_bit bit_index 1 \<noteq> 0)
      else Panic)"

definition set_bit_frame :: "frame_manager \<Rightarrow> nat \<Rightarrow> bool \<Rightarrow> (allocate_error, frame_manager) outcome" where
  "set_bit_frame m frame allocated =
     (let line_index = frame div BITS_PER_MAP_LINE; bit_index = frame mod BITS_PER_MAP_LINE in
      if line_index < length (alloc_map m)
      then (let line = alloc_map m ! line_index;
                line' = (if allocated then line OR push_bit bit_index 1
                         else line AND NOT (push_bit bit_index 1))
            in Ok (m\<lparr>alloc_map := (alloc_map m)[line_index := line']\<rparr>))
      else Panic)"

text \<open>The loops \<open>for i in 0..num_frames\<close> of \<open>mark_allocated\<close> and \<open>free\<close>.\<close>

fun set_frames :: "frame_manager \<Rightarrow> nat \<Rightarrow> bool \<Rightarrow> nat list \<Rightarrow> (allocate_error, frame_manager) outcome" where
  "set_frames m frame allocated [] = Ok m"
| "set_frames m frame allocated (i # is) =
     try_then (set_bit_frame m (frame + i) allocated) (\<lambda>m'. set_frames m' frame allocated is)"

definition mark_allocated :: "frame_manager \<Rightarrow> nat \<Rightarrow> nat \<Rightarrow> (allocate_error, frame_manager) outcome" where
  "mark_allocated m frame num_frames = set_frames m frame True [0..<num_frames]"

definition mark_allocated_in_bytes ::
    "frame_manager \<Rightarrow> nat \<Rightarrow> nat \<Rightarrow> (allocate_error, frame_manager) outcome" where
  "mark_allocated_in_bytes m start num_bytes = mark_allocated m start (num_bytes div FRAME_SIZE)"

definition free_frames :: "frame_manager \<Rightarrow> nat \<Rightarrow> nat \<Rightarrow> (allocate_error, frame_manager) outcome" where
  "free_frames m frame num_frames = set_frames m frame False [0..<num_frames]"

text \<open>
  The inner \<open>for\<close> loop of \<open>allocate\<close>: \<open>Ok None\<close> when all frames of the window are free,
  \<open>Ok (Some i)\<close> when the \<open>i\<close>-th is taken (\<open>continue 'search\<close>).
\<close>

fun scan_window :: "frame_manager \<Rightarrow> nat \<Rightarrow> nat list \<Rightarrow> (allocate_error, nat option) outcome" where
  "scan_window m frame [] = Ok None"
| "scan_window m frame (i # is) =
     (if frame_end m \<le> frame + i then Err NotEnoughFrame
      else try_then (get_bit m (frame + i))
             (\<lambda>b. if b then Ok (Some i) else scan_window m frame is))"

lemma scan_window_busy: "scan_window m frame is = Ok (Some i) \<Longrightarrow> frame + i < frame_end m"
  by (induction "is") (auto split: if_splits)

text \<open>The outer \<open>'search\<close> loop: it moves past the taken frame, so it ends.\<close>

function search_frames ::
    "frame_manager \<Rightarrow> nat \<Rightarrow> nat \<Rightarrow> (allocate_error, nat \<times> frame_manager) outcome" where
  "search_frames m frame num_frames =
     (case scan_window m frame [0..<num_frames] of
        Ok None \<Rightarrow> try_then (mark_allocated m frame num_frames) (\<lambda>m'. Ok (frame, m'))
      | Ok (Some i) \<Rightarrow> search_frames m (frame + i + 1) num_frames
      | Err e \<Rightarrow> Err e
      | Panic \<Rightarrow> Panic
      | Hang \<Rightarrow> Hang)"
  by pat_completeness auto
termination
  by (relation "measure (\<lambda>(m, frame, n). frame_end m - frame)") (auto dest: scan_window_busy)

declare search_frames.simps [simp del]

definition allocate :: "frame_manager \<Rightarrow> nat \<Rightarrow> (allocate_error, nat \<times> frame_manager) outcome" where
  "allocate m num_frames = search_frames m (frame_begin m) num_frames"

text \<open>The loop of \<open>initialize\<close>: everything between two descriptors is marked as allocated.\<close>

fun mark_gaps :: "frame_manager \<Rightarrow> nat \<Rightarrow> mem_descriptor list \<Rightarrow> (allocate_error, frame_manager \<times> nat) outcome" where
  "mark_gaps m phys_available_end [] = Ok (m, phys_available_end)"
| "mark_gaps m phys_available_end (d # ds) =
     try_then
       (if phys_available_end < unat (phys_start d)
        then mark_allocated_in_bytes m (frame_from_phys_addr phys_available_end)
               (unat (phys_start d) - phys_available_end)
        else Ok m)
       (\<lambda>m'. mark_gaps m' (unat (phys_end d)) ds)"

definition initialize_frames :: "frame_manager \<Rightarrow> mem_descriptor list \<Rightarrow> (allocate_error, frame_manager) outcome" where
  "initialize_frames m mm =
     try_then (mark_gaps m 0 mm)
       (\<lambda>(m', phys_available_end).
          Ok (set_memory_range m' FRAME_MIN (frame_from_phys_addr phys_available_end)))"

definition total_frames :: "frame_manager \<Rightarrow> (allocate_error, nat) outcome" where
  "total_frames m =
     (if frame_begin m \<le> frame_end m then Ok (frame_end m - frame_begin m) else Panic)"

text \<open>\<open>available_frames\<close>: \<open>(begin..end).filter(get_bit).count()\<close>.\<close>

fun count_bits :: "frame_manager \<Rightarrow> nat list \<Rightarrow> (allocate_error, nat) outcome" where
  "count_bits m [] = Ok 0"
| "count_bits m (f # fs) =
     try_then (get_bit m f) (\<lambda>b. try_then (count_bits m fs) (\<lambda>n. Ok (if b then Suc n else n)))"

definition available_frames :: "frame_manager \<Rightarrow> (allocate_error, nat) outcome" where
  "available_frames m = count_bits m [frame_begin m..<frame_end m]"

text \<open>The \<open>FrameAllocator\<close> and \<open>FrameDeallocator\<close> implementations for the paging crate.\<close>

definition allocate_frame :: "frame_manager \<Rightarrow> (allocate_error, nat option \<times> frame_manager) outcome" where
  "allocate_frame m =
     (case allocate m 1 of
        Ok (frame, m') \<Rightarrow> Ok (Some (frame_phys_addr frame), m')
      | Err _ \<Rightarrow> Ok (None, m)
      | Panic \<Rightarrow> Panic
      | Hang \<Rightarrow> Hang)"

definition deallocate_frame :: "frame_manager \<Rightarrow> nat \<Rightarrow> (allocate_error, frame_manager) outcome" where
  "deallocate_frame m start_address = free_frames m (frame_from_phys_addr start_address) 1"

section \<open>The abstract view: a set of allocated frames\<close>

definition capacity :: "frame_manager \<Rightarrow> nat" where
  "capacity m = BITS_PER_MAP_LINE * length (alloc_map m)"

definition allocated :: "frame_manager \<Rightarrow> nat \<Rightarrow> bool" where
  "allocated m f \<longleftrightarrow> bit (alloc_map m ! (f div BITS_PER_MAP_LINE)) (f mod BITS_PER_MAP_LINE)"

definition frames_wf :: "frame_manager \<Rightarrow> bool" where
  "frames_wf m \<longleftrightarrow> frame_end m \<le> capacity m"

definition window_free :: "frame_manager \<Rightarrow> nat \<Rightarrow> nat \<Rightarrow> bool" where
  "window_free m f n \<longleftrightarrow> (\<forall>i<n. f + i < frame_end m \<and> \<not> allocated m (f + i))"

text \<open>\<open>marks m S b m'\<close>: \<open>m'\<close> is \<open>m\<close> with the frames of \<open>S\<close> marked \<open>b\<close>, and nothing else changed.\<close>

definition marks :: "frame_manager \<Rightarrow> nat set \<Rightarrow> bool \<Rightarrow> frame_manager \<Rightarrow> bool" where
  "marks m S b m' \<longleftrightarrow>
     (\<forall>g < capacity m. allocated m' g = (if g \<in> S then b else allocated m g))
     \<and> capacity m' = capacity m \<and> frame_begin m' = frame_begin m \<and> frame_end m' = frame_end m"

lemma line_in_range:
  "f div BITS_PER_MAP_LINE < length (alloc_map m) \<longleftrightarrow> f < capacity m"
  by (simp add: capacity_def BITS_PER_MAP_LINE_def div_less_iff_less_mult mult.commute)

lemma and_push_bit_1_nonzero: "(w AND push_bit k 1 \<noteq> 0) \<longleftrightarrow> bit w k" for w :: u64
  using and_exp_eq_0_iff_not_bit [of w k] by (simp add: push_bit_eq_mult)

lemma get_bit_eq: "get_bit m f = (if f < capacity m then Ok (allocated m f) else Panic)"
  unfolding get_bit_def Let_def line_in_range and_push_bit_1_nonzero allocated_def ..

lemma set_bit_frame_Ok:
  assumes "f < capacity m"
  obtains m' where "set_bit_frame m f b = Ok m'" and "marks m {f} b m'"
proof -
  have same: "g div 64 = f div 64 \<Longrightarrow> g mod 64 = f mod 64 \<Longrightarrow> g = f" for g
    by (metis div_mult_mod_eq)
  have "f div BITS_PER_MAP_LINE < length (alloc_map m)"
    using assms by (simp add: line_in_range)
  then have "\<exists>m'. set_bit_frame m f b = Ok m' \<and> marks m {f} b m'"
    using same
    by (auto simp: set_bit_frame_def Let_def allocated_def capacity_def nth_list_update marks_def
        BITS_PER_MAP_LINE_def bit_simps)
  with that show ?thesis by blast
qed

lemma marks_trans: "marks m S b m1 \<Longrightarrow> marks m1 T b m2 \<Longrightarrow> marks m (S \<union> T) b m2"
  by (auto simp: marks_def)

lemma set_frames_Ok:
  assumes "\<forall>i\<in>set is. f + i < capacity m"
  shows "\<exists>m'. set_frames m f b is = Ok m' \<and> marks m ((+) f ` set is) b m'"
  using assms
proof (induction "is" arbitrary: m)
  case Nil
  then show ?case by (simp add: marks_def)
next
  case (Cons i "is")
  then have "f + i < capacity m" by simp
  then obtain m1 where m1: "set_bit_frame m (f + i) b = Ok m1" "marks m {f + i} b m1"
    by (rule set_bit_frame_Ok)
  with Cons.prems have "\<forall>j\<in>set is. f + j < capacity m1" by (simp add: marks_def)
  from Cons.IH [OF this] obtain m2 where
    "set_frames m1 f b is = Ok m2" "marks m1 ((+) f ` set is) b m2" by blast
  with m1 marks_trans [OF m1(2) this(2)] show ?case by auto
qed

lemma image_window: "(+) f ` set [0..<n] = {f..<f + n}"
  by (simp add: image_add_atLeastLessThan add.commute)

text \<open>Marking or freeing a window changes exactly the frames of the window.\<close>

lemma set_window_Ok:
  assumes "\<forall>i<n. f + i < capacity m"
  obtains m' where "set_frames m f b [0..<n] = Ok m'" and "marks m {f..<f + n} b m'"
  using set_frames_Ok [of "[0..<n]" f m b] assms unfolding image_window by auto

text \<open>Two managers with the same bounds, map size and allocated frames are equal.\<close>

lemma frame_manager_eqI:
  assumes "capacity m = capacity m'"
    and "frame_begin m = frame_begin m'" and "frame_end m = frame_end m'"
    and "\<forall>g < capacity m. allocated m g = allocated m' g"
  shows "m = (m' :: frame_manager)"
proof -
  have len: "length (alloc_map m) = length (alloc_map m')"
    using assms(1) by (simp add: capacity_def BITS_PER_MAP_LINE_def)
  have "alloc_map m ! k = alloc_map m' ! k" if k: "k < length (alloc_map m)" for k
  proof (rule bit_word_eqI)
    fix j :: nat
    assume "j < LENGTH(64)"
    then have j: "j < 64" by simp
    with k have "64 * k + j < capacity m"
      by (simp add: capacity_def BITS_PER_MAP_LINE_def)
    with assms(4) have "allocated m (64 * k + j) = allocated m' (64 * k + j)" by blast
    with j show "bit (alloc_map m ! k) j = bit (alloc_map m' ! k) j"
      by (simp add: allocated_def BITS_PER_MAP_LINE_def)
  qed
  with len have "alloc_map m = alloc_map m'" by (rule nth_equalityI)
  with assms(2,3) show ?thesis by (simp add: frame_manager.equality)
qed

section \<open>First-fit allocation\<close>

text \<open>What the inner loop finds.\<close>

lemma scan_window_spec:
  assumes "frames_wf m"
  shows "case scan_window m f [k..<n] of
      Ok None \<Rightarrow> \<forall>i. k \<le> i \<and> i < n \<longrightarrow> f + i < frame_end m \<and> \<not> allocated m (f + i)
    | Ok (Some i) \<Rightarrow> k \<le> i \<and> i < n \<and> f + i < frame_end m \<and> allocated m (f + i)
    | Err _ \<Rightarrow> \<exists>i. k \<le> i \<and> i < n \<and> frame_end m \<le> f + i
    | Panic \<Rightarrow> False
    | Hang \<Rightarrow> False"
proof (induction "n - k" arbitrary: k)
  case 0
  then show ?case by auto
next
  case (Suc d)
  then have kn: "k < n" by simp
  then have upt: "[k..<n] = k # [Suc k..<n]" by (rule upt_conv_Cons)
  show ?case
  proof (cases "f + k < frame_end m \<and> \<not> allocated m (f + k)")
    case True
    with assms have step: "scan_window m f [k..<n] = scan_window m f [Suc k..<n]"
      by (simp add: upt get_bit_eq frames_wf_def)
    have k: "k \<le> i \<longleftrightarrow> i = k \<or> Suc k \<le> i" for i by auto
    from Suc(2) have "d = n - Suc k" by simp
    from Suc(1) [OF this] True show ?thesis
      unfolding step by (auto simp: k split: outcome.splits option.splits)
  next
    case False
    with assms kn show ?thesis
      by (force simp: upt get_bit_eq frames_wf_def)
  qed
qed

lemma window_free_in_capacity:
  "frames_wf m \<Longrightarrow> window_free m f n \<Longrightarrow> \<forall>i<n. f + i < capacity m"
  by (force simp: frames_wf_def window_free_def)

lemma window_free_past_busy:
  assumes "i < n" and "allocated m (f + i) \<or> frame_end m \<le> f + i" and "f \<le> g" and "g \<le> f + i"
  shows "\<not> window_free m g n"
proof
  assume w: "window_free m g n"
  have "f + i - g < n" and "g + (f + i - g) = f + i" using assms(1,3,4) by auto
  with w have "f + i < frame_end m \<and> \<not> allocated m (f + i)"
    unfolding window_free_def by metis
  with assms(2) show False by auto
qed

definition allocate_result :: "frame_manager \<Rightarrow> nat \<Rightarrow> (allocate_error, nat \<times> frame_manager) outcome \<Rightarrow> bool" where
  "allocate_result m n r = (case r of
      Ok (f, m') \<Rightarrow> frame_begin m \<le> f \<and> window_free m f n
        \<and> (\<forall>g. frame_begin m \<le> g \<and> g < f \<longrightarrow> \<not> window_free m g n)
        \<and> marks m {f..<f + n} True m'
    | Err _ \<Rightarrow> \<forall>g\<ge>frame_begin m. \<not> window_free m g n
    | Panic \<Rightarrow> False
    | Hang \<Rightarrow> False)"

text \<open>A search that has seen no free window below \<open>f\<close> finds the first one, or there is none.\<close>

lemma search_frames_spec:
  assumes "frames_wf m" and "frame_begin m \<le> f"
    and "\<forall>g. frame_begin m \<le> g \<and> g < f \<longrightarrow> \<not> window_free m g n"
  shows "allocate_result m n (search_frames m f n)"
  using assms
proof (induction m f n rule: search_frames.induct)
  case (1 m f n)
  note wf = "1.prems"(1) and below = "1.prems"(3)
  note scan = scan_window_spec [OF wf, where f = f and k = 0 and n = n]
  show ?case
  proof (cases "scan_window m f [0..<n]")
    case (Ok r)
    show ?thesis
    proof (cases r)
      case None
      with Ok scan have w: "window_free m f n" by (simp add: window_free_def)
      obtain m' where "set_frames m f True [0..<n] = Ok m'" "marks m {f..<f + n} True m'"
        using window_free_in_capacity [OF wf w] by (rule set_window_Ok)
      with Ok None w "1.prems" show ?thesis
        by (simp add: search_frames.simps [of m f n] mark_allocated_def allocate_result_def)
    next
      case (Some i)
      with Ok scan have i: "i < n" "allocated m (f + i)" by simp_all
      have "\<not> window_free m g n" if "frame_begin m \<le> g" "g < f + i + 1" for g
        using that below window_free_past_busy [OF i(1), of m f g] i(2)
        by (cases "g < f") simp_all
      with "1.IH" [OF Ok Some wf] "1.prems"(2)
      have "allocate_result m n (search_frames m (f + i + 1) n)" by simp
      with Ok Some show ?thesis by (simp add: search_frames.simps [of m f n])
    qed
  next
    case (Err e)
    with scan obtain i where i: "i < n" "frame_end m \<le> f + i" by auto
    have "\<not> window_free m g n" if g: "frame_begin m \<le> g" for g
    proof (cases "g \<le> f + i")
      case True
      with g below i window_free_past_busy [OF i(1), of m f g] show ?thesis
        by (cases "g < f") simp_all
    next
      case False
      with i show ?thesis by (auto simp: window_free_def intro!: exI [of _ 0])
    qed
    with Err show ?thesis by (simp add: search_frames.simps [of m f n] allocate_result_def)
  qed (use scan in simp_all)
qed

lemma allocate_spec: "frames_wf m \<Longrightarrow> allocate_result m n (allocate m n)"
  unfolding allocate_def by (rule search_frames_spec) auto

lemma allocate_Ok:
  assumes "frames_wf m" and "allocate m n = Ok (f, m')"
  shows "frame_begin m \<le> f" and "window_free m f n" and "marks m {f..<f + n} True m'"
  using allocate_spec [OF assms(1), of n] assms(2) by (simp_all add: allocate_result_def)

lemma marks_wf: "marks m S b m' \<Longrightarrow> frames_wf m \<Longrightarrow> frames_wf m'"
  by (simp add: marks_def frames_wf_def)

lemma free_frames_Ok:
  assumes "\<forall>i<n. f + i < capacity m"
  obtains m' where "free_frames m f n = Ok m'" and "marks m {f..<f + n} False m'"
  using assms unfolding free_frames_def by (rule set_window_Ok)

section \<open>Setting up from the memory map\<close>

text \<open>
  What the boot loader promises of the memory map (\<open>Caller must ensure that the given MemoryMap
  is valid\<close>): ascending, non-overlapping, page-aligned ranges below the 128 GiB the bitmap covers.
\<close>

fun valid_memory_map :: "nat \<Rightarrow> mem_descriptor list \<Rightarrow> bool" where
  "valid_memory_map lo [] = True"
| "valid_memory_map lo (d # ds) =
     (lo \<le> unat (phys_start d) \<and> unat (phys_start d) \<le> unat (phys_end d)
      \<and> unat (phys_start d) mod FRAME_SIZE = 0 \<and> unat (phys_end d) mod FRAME_SIZE = 0
      \<and> unat (phys_end d) \<le> MAX_PHYSICAL_MEMORY_BYTES \<and> valid_memory_map (unat (phys_end d)) ds)"

definition frame_available :: "mem_descriptor list \<Rightarrow> nat \<Rightarrow> bool" where
  "frame_available ds f \<longleftrightarrow>
     (\<exists>d\<in>set ds. unat (phys_start d) \<le> frame_phys_addr f \<and> frame_phys_addr (f + 1) \<le> unat (phys_end d))"

lemma MAP_LINE_COUNT_eq: "MAP_LINE_COUNT = 524288"
  by (simp add: MAP_LINE_COUNT_def FRAME_COUNT_def MAX_PHYSICAL_MEMORY_BYTES_def FRAME_SIZE_def
      BITS_PER_MAP_LINE_def)

lemma capacity_new: "capacity new_frame_manager = 33554432"
  by (simp add: capacity_def new_frame_manager_def MAP_LINE_COUNT_eq BITS_PER_MAP_LINE_def
      del: replicate.simps)

lemma allocated_new: "f < capacity new_frame_manager \<Longrightarrow> \<not> allocated new_frame_manager f"
  by (simp add: line_in_range [symmetric] allocated_def new_frame_manager_def)

lemma frame_available_iff:
  "frame_available ds f \<longleftrightarrow>
     (\<exists>d\<in>set ds. unat (phys_start d) \<le> f * FRAME_SIZE \<and> f < frame_from_phys_addr (unat (phys_end d)))"
  by (simp add: frame_available_def frame_phys_addr_def frame_from_phys_addr_def FRAME_SIZE_def
      Suc_le_eq [symmetric] less_eq_div_iff_mult_less_eq del: mult_Suc_right mult_Suc)

lemma aligned_le: "a mod FRAME_SIZE = 0 \<Longrightarrow> a \<le> f * FRAME_SIZE \<longleftrightarrow> frame_from_phys_addr a \<le> f"
  by (auto simp: frame_from_phys_addr_def FRAME_SIZE_def)

lemma frame_from_phys_addr_mono: "a \<le> b \<Longrightarrow> frame_from_phys_addr a \<le> frame_from_phys_addr b"
  by (simp add: frame_from_phys_addr_def div_le_mono)

lemma aligned_diff:
  "a mod FRAME_SIZE = 0 \<Longrightarrow> b mod FRAME_SIZE = 0 \<Longrightarrow> a \<le> b \<Longrightarrow>
    (b - a) div FRAME_SIZE = frame_from_phys_addr b - frame_from_phys_addr a"
  by (auto simp: frame_from_phys_addr_def FRAME_SIZE_def)

text \<open>One round of the loop marks the frames between the two addresses.\<close>

lemma mark_gap_Ok:
  assumes "a mod FRAME_SIZE = 0" "b mod FRAME_SIZE = 0" "a \<le> b" "b \<le> MAX_PHYSICAL_MEMORY_BYTES"
    and "capacity m = 33554432"
  obtains m' where "(if a < b then mark_allocated_in_bytes m (frame_from_phys_addr a) (b - a) else Ok m)
      = Ok m'"
    and "marks m {frame_from_phys_addr a..<frame_from_phys_addr b} True m'"
proof -
  let ?n = "frame_from_phys_addr b - frame_from_phys_addr a"
  have sum: "frame_from_phys_addr a + ?n = frame_from_phys_addr b"
    using frame_from_phys_addr_mono [OF assms(3)] by simp
  have "frame_from_phys_addr b \<le> 33554432"
    using frame_from_phys_addr_mono [OF assms(4)]
    by (simp add: frame_from_phys_addr_def FRAME_SIZE_def MAX_PHYSICAL_MEMORY_BYTES_def)
  with sum assms(5) have "\<forall>i<?n. frame_from_phys_addr a + i < capacity m" by auto
  then obtain m' where "set_frames m (frame_from_phys_addr a) True [0..<?n] = Ok m'"
    "marks m {frame_from_phys_addr a..<frame_from_phys_addr a + ?n} True m'"
    by (rule set_window_Ok)
  moreover have "?n = 0" if "\<not> a < b" using that assms(3) by simp
  then have "(if a < b then mark_allocated_in_bytes m (frame_from_phys_addr a) (b - a) else Ok m)
      = set_frames m (frame_from_phys_addr a) True [0..<?n]"
    by (simp add: mark_allocated_in_bytes_def mark_allocated_def aligned_diff [OF assms(1-3)])
  ultimately show ?thesis using that unfolding sum by simp
qed

text \<open>
  The loop marks the frames outside every descriptor, up to the end of the last one, and nothing
  else.
\<close>

lemma mark_gaps_spec:
  assumes "valid_memory_map lo ds" and "lo mod FRAME_SIZE = 0" and "lo \<le> MAX_PHYSICAL_MEMORY_BYTES"
    and "capacity m = 33554432"
  shows "\<exists>m' e. mark_gaps m lo ds = Ok (m', e) \<and> capacity m' = capacity m
    \<and> lo \<le> e \<and> e \<le> MAX_PHYSICAL_MEMORY_BYTES
    \<and> (\<forall>f < capacity m. allocated m' f \<longleftrightarrow> allocated m f \<or>
         (frame_from_phys_addr lo \<le> f \<and> f < frame_from_phys_addr e \<and> \<not> frame_available ds f))
    \<and> (\<forall>f. frame_available ds f \<longrightarrow> frame_from_phys_addr lo \<le> f \<and> f < frame_from_phys_addr e)"
  using assms
proof (induction ds arbitrary: lo m)
  case Nil
  then show ?case by (auto simp: frame_available_def)
next
  case (Cons d ds)
  let ?F = frame_from_phys_addr
  let ?s = "unat (phys_start d)" and ?t = "unat (phys_end d)"
  from Cons.prems have d: "lo \<le> ?s" "?s \<le> ?t" "?s mod FRAME_SIZE = 0" "?t mod FRAME_SIZE = 0"
    "?t \<le> MAX_PHYSICAL_MEMORY_BYTES" "valid_memory_map ?t ds" by simp_all
  then have "?s \<le> MAX_PHYSICAL_MEMORY_BYTES" by linarith
  with Cons.prems d obtain m1 where m1:
    "(if lo < ?s then mark_allocated_in_bytes m (?F lo) (?s - lo) else Ok m) = Ok m1"
    "marks m {?F lo..<?F ?s} True m1"
    by (metis mark_gap_Ok)
  from m1(2) Cons.prems(4) have cap: "capacity m1 = 33554432" by (simp add: marks_def)
  from Cons.IH [OF d(6,4,5) cap] obtain m2 e where m2:
    "mark_gaps m1 ?t ds = Ok (m2, e)" "capacity m2 = capacity m1" "?t \<le> e"
    "e \<le> MAX_PHYSICAL_MEMORY_BYTES"
    "\<forall>f < capacity m1. allocated m2 f \<longleftrightarrow> allocated m1 f \<or>
         (?F ?t \<le> f \<and> f < ?F e \<and> \<not> frame_available ds f)"
    "\<forall>f. frame_available ds f \<longrightarrow> ?F ?t \<le> f \<and> f < ?F e" by blast
  have ord: "?F lo \<le> ?F ?s" "?F ?s \<le> ?F ?t" "?F ?t \<le> ?F e"
    using d(1,2) m2(3) by (simp_all add: frame_from_phys_addr_mono)
  have avail: "frame_available (d # ds) f \<longleftrightarrow> (?F ?s \<le> f \<and> f < ?F ?t) \<or> frame_available ds f" for f
    by (simp add: frame_available_iff aligned_le [OF d(3)])
  have "mark_gaps m lo (d # ds) = Ok (m2, e)" using m1(1) m2(1) by simp
  moreover have "capacity m2 = capacity m" using m2(2) cap Cons.prems(4) by simp
  moreover have "lo \<le> e" using d(1,2) m2(3) by simp
  moreover have "allocated m2 f \<longleftrightarrow> allocated m f \<or>
         (?F lo \<le> f \<and> f < ?F e \<and> \<not> frame_available (d # ds) f)" if "f < capacity m" for f
    using that m1(2) m2(5,6) cap Cons.prems(4) ord by (auto simp: avail marks_def)
  moreover have "?F lo \<le> f \<and> f < ?F e" if "frame_available (d # ds) f" for f
    using that m2(6) ord by (auto simp: avail)
  ultimately show ?case using m2(4) by blast
qed

lemma set_memory_range_simps [simp]:
  "frame_begin (set_memory_range m a b) = a"
  "frame_end (set_memory_range m a b) = b"
  "capacity (set_memory_range m a b) = capacity m"
  "allocated (set_memory_range m a b) = allocated m"
  by (simp_all add: set_memory_range_def capacity_def allocated_def fun_eq_iff)

lemma initialize_spec:
  assumes "valid_memory_map 0 ds"
  obtains m where "initialize_frames new_frame_manager ds = Ok m" and "frames_wf m"
    and "frame_begin m = FRAME_MIN"
    and "\<forall>f < frame_end m. allocated m f \<longleftrightarrow> \<not> frame_available ds f"
    and "\<forall>f. frame_available ds f \<longrightarrow> f < frame_end m"
proof -
  from mark_gaps_spec [OF assms _ _ capacity_new] obtain m e where m:
    "mark_gaps new_frame_manager 0 ds = Ok (m, e)" "capacity m = capacity new_frame_manager"
    "e \<le> MAX_PHYSICAL_MEMORY_BYTES"
    "\<forall>f < capacity new_frame_manager. allocated m f \<longleftrightarrow> allocated new_frame_manager f \<or>
         (f < frame_from_phys_addr e \<and> \<not> frame_available ds f)"
    "\<forall>f. frame_available ds f \<longrightarrow> f < frame_from_phys_addr e"
    by (auto simp: frame_from_phys_addr_def)
  let ?m = "set_memory_range m FRAME_MIN (frame_from_phys_addr e)"
  have cap: "frame_from_phys_addr e \<le> 33554432"
    using frame_from_phys_addr_mono [OF m(3)]
    by (simp add: frame_from_phys_addr_def FRAME_SIZE_def MAX_PHYSICAL_MEMORY_BYTES_def)
  have "frames_wf ?m"
    using m(2) cap by (simp add: frames_wf_def capacity_new)
  moreover have "initialize_frames new_frame_manager ds = Ok ?m"
    using m(1) by (simp add: initialize_frames_def)
  moreover have "\<forall>f < frame_end ?m. allocated ?m f \<longleftrightarrow> \<not> frame_available ds f"
    using m(4) allocated_new cap by (auto simp: capacity_new)
  ultimately show ?thesis using that m(5) by simp
qed

section \<open>The allocator in use\<close>

text \<open>
  The kernel's use of the allocator as a state machine: it is set up once, then frames are
  allocated and handed back. \<open>live\<close> lists the allocations not yet freed; a caller frees what it
  got (\<open>allocator.rs\<close>, \<open>virtio/queue.rs\<close>), with the length it asked for.
\<close>

inductive frames_in_use :: "mem_descriptor list \<Rightarrow> frame_manager \<Rightarrow> (nat \<times> nat) list \<Rightarrow> bool"
  for ds where
  boot: "initialize_frames new_frame_manager ds = Ok m \<Longrightarrow> frames_in_use ds m []"
| alloc: "frames_in_use ds m live \<Longrightarrow> allocate m n = Ok (f, m') \<Longrightarrow>
    frames_in_use ds m' ((f, n) # live)"
| free: "frames_in_use ds m live \<Longrightarrow> (f, n) \<in> set live \<Longrightarrow> free_frames m f n = Ok m' \<Longrightarrow>
    frames_in_use ds m' (remove1 (f, n) live)"

definition disjoint_windows :: "nat \<times> nat \<Rightarrow> nat \<times> nat \<Rightarrow> bool" where
  "disjoint_windows a b \<longleftrightarrow> {fst a..<fst a + snd a} \<inter> {fst b..<fst b + snd b} = {}"

definition live_ok :: "mem_descriptor list \<Rightarrow> frame_manager \<Rightarrow> nat \<times> nat \<Rightarrow> bool" where
  "live_ok ds m w \<longleftrightarrow> (\<forall>g \<in> {fst w..<fst w + snd w}.
     FRAME_MIN \<le> g \<and> g < frame_end m \<and> frame_available ds g \<and> allocated m g)"

definition frames_inv :: "mem_descriptor list \<Rightarrow> frame_manager \<Rightarrow> (nat \<times> nat) list \<Rightarrow> bool" where
  "frames_inv ds m live \<longleftrightarrow>
     frames_wf m \<and> frame_begin m = FRAME_MIN
     \<and> (\<forall>f < frame_end m. \<not> frame_available ds f \<longrightarrow> allocated m f)
     \<and> (\<forall>w\<in>set live. live_ok ds m w)
     \<and> sorted_wrt disjoint_windows live"

lemma frames_inv_boot:
  assumes "valid_memory_map 0 ds" and "initialize_frames new_frame_manager ds = Ok m"
  shows "frames_inv ds m []"
proof -
  from initialize_spec [OF assms(1)] obtain m0 where m0:
    "initialize_frames new_frame_manager ds = Ok m0" "frames_wf m0" "frame_begin m0 = FRAME_MIN"
    "\<forall>f < frame_end m0. allocated m0 f \<longleftrightarrow> \<not> frame_available ds f"
    by metis
  with assms(2) have "m0 = m" by simp
  with m0 show ?thesis by (simp add: frames_inv_def)
qed

lemma live_ok_marks:
  assumes "live_ok ds m w" and "marks m S b m'" and "frames_wf m"
    and "b \<or> {fst w..<fst w + snd w} \<inter> S = {}"
  shows "live_ok ds m' w"
  unfolding live_ok_def
proof
  fix g assume g: "g \<in> {fst w..<fst w + snd w}"
  with assms(1) have "FRAME_MIN \<le> g \<and> g < frame_end m \<and> frame_available ds g \<and> allocated m g"
    unfolding live_ok_def by blast
  moreover have "g \<notin> S \<or> b" using assms(4) g by blast
  ultimately show "FRAME_MIN \<le> g \<and> g < frame_end m' \<and> frame_available ds g \<and> allocated m' g"
    using assms(2,3) by (simp add: marks_def frames_wf_def)
qed

lemma window_free_iff:
  "window_free m f n \<longleftrightarrow> (\<forall>g \<in> {f..<f + n}. g < frame_end m \<and> \<not> allocated m g)"
  unfolding window_free_def
  by (auto dest: spec [where x = "_ - f"]) (metis add_diff_inverse_nat atLeastLessThan_iff le_add1 less_diff_conv2 nat_add_left_cancel_less not_less)+

lemma live_ok_allocated:
  assumes "live_ok ds m w" and "g \<in> {fst w..<fst w + snd w}"
  shows "allocated m g" and "g < frame_end m"
  using assms by (auto simp: live_ok_def)

lemma frames_inv_alloc:
  assumes inv: "frames_inv ds m live" and a: "allocate m n = Ok (f, m')"
  shows "frames_inv ds m' ((f, n) # live)"
proof -
  have wf: "frames_wf m" and b: "frame_begin m = FRAME_MIN"
    and un: "\<forall>f < frame_end m. \<not> frame_available ds f \<longrightarrow> allocated m f"
    and live: "\<forall>w\<in>set live. live_ok ds m w" and dj: "sorted_wrt disjoint_windows live"
    using inv by (simp_all add: frames_inv_def)
  note a = allocate_Ok [OF wf a]
  have free: "g < frame_end m \<and> \<not> allocated m g" if "g \<in> {f..<f + n}" for g
    using a(2) that unfolding window_free_iff by blast
  have fields: "frame_begin m' = frame_begin m" "frame_end m' = frame_end m"
    using a(3) by (simp_all add: marks_def)
  have set: "allocated m' g \<longleftrightarrow> g \<in> {f..<f + n} \<or> allocated m g" if "g < frame_end m" for g
    using a(3) that wf by (auto simp: marks_def frames_wf_def)
  have "live_ok ds m' (f, n)"
    unfolding live_ok_def fst_conv snd_conv fields
    using free un set a(1) b by (metis atLeastLessThan_iff order_trans)
  moreover have "live_ok ds m' w" if "w \<in> set live" for w
    using live_ok_marks [OF _ a(3) wf] live that by blast
  moreover have "disjoint_windows (f, n) w" if "w \<in> set live" for w
    unfolding disjoint_windows_def fst_conv snd_conv
    using free live_ok_allocated(1) live that by blast
  ultimately show ?thesis
    using un set dj b marks_wf [OF a(3) wf] by (simp add: frames_inv_def fields)
qed

lemma disjoint_windows_sym: "disjoint_windows a b \<Longrightarrow> disjoint_windows b a"
  by (auto simp: disjoint_windows_def)

lemma sorted_wrt_remove1: "sorted_wrt P xs \<Longrightarrow> sorted_wrt P (remove1 x xs)"
  by (induction xs) (auto dest: notin_set_remove1 in_set_remove1 [THEN iffD1, rotated] set_remove1_subset [THEN subsetD])

lemma sorted_wrt_remove1_other:
  assumes "sorted_wrt P xs" and "x \<in> set xs" and "y \<in> set (remove1 x xs)"
  shows "P x y \<or> P y x"
  using assms by (induction xs) (auto split: if_splits dest: set_remove1_subset [THEN subsetD])

lemma frames_inv_free:
  assumes inv: "frames_inv ds m live" and w: "(f, n) \<in> set live"
    and "free_frames m f n = Ok m'"
  shows "frames_inv ds m' (remove1 (f, n) live)"
proof -
  have wf: "frames_wf m" and b: "frame_begin m = FRAME_MIN"
    and un: "\<forall>f < frame_end m. \<not> frame_available ds f \<longrightarrow> allocated m f"
    and live: "\<forall>w\<in>set live. live_ok ds m w" and dj: "sorted_wrt disjoint_windows live"
    using inv by (simp_all add: frames_inv_def)
  have ok: "g < frame_end m \<and> frame_available ds g" if "g \<in> {f..<f + n}" for g
    using live w that by (fastforce simp: live_ok_def)
  have "f + i < capacity m" if "i < n" for i
    using ok [of "f + i"] that wf by (simp add: frames_wf_def)
  then have marks: "marks m {f..<f + n} False m'"
    using free_frames_Ok [of n f m] assms(3) by (metis outcome.inject(1))
  then have fields: "frame_begin m' = frame_begin m" "frame_end m' = frame_end m"
    and set: "\<forall>g < frame_end m. allocated m' g \<longleftrightarrow> g \<notin> {f..<f + n} \<and> allocated m g"
    using wf by (auto simp: marks_def frames_wf_def)
  have "live_ok ds m' v" if "v \<in> set (remove1 (f, n) live)" for v
    using live_ok_marks [OF _ marks wf, of ds v] live that set_remove1_subset [of "(f, n)" live]
      sorted_wrt_remove1_other [OF dj w that] unfolding disjoint_windows_def by auto
  moreover have "\<forall>g < frame_end m. \<not> frame_available ds g \<longrightarrow> allocated m' g"
    using un set ok by blast
  ultimately show ?thesis
    using b marks_wf [OF marks wf] sorted_wrt_remove1 [OF dj] by (simp add: frames_inv_def fields)
qed

lemma frames_in_use_inv:
  assumes "frames_in_use ds m live" and "valid_memory_map 0 ds"
  shows "frames_inv ds m live"
  using assms
  by induction (blast intro: frames_inv_boot frames_inv_alloc frames_inv_free)+

lemma live_window_in_capacity:
  assumes "frames_inv ds m live" and "(f, n) \<in> set live"
  shows "\<forall>i<n. f + i < capacity m"
  using assms by (auto simp: frames_inv_def frames_wf_def live_ok_def
      dest!: bspec [where x = "(f, n)"] bspec [where x = "f + _"])

lemma marks_undo:
  assumes "marks m S True m'" and "marks m' S False m''" and "\<forall>g \<in> S. \<not> allocated m g"
  shows "m'' = m"
  using assms by (intro frame_manager_eqI) (auto simp: marks_def)

lemma count_bits_eq:
  assumes "\<forall>f \<in> set fs. f < capacity m"
  shows "count_bits m fs = Ok (length (filter (allocated m) fs))"
  using assms by (induction fs) (simp_all add: get_bit_eq)

section \<open>Properties\<close>

definition sample_frames :: frame_manager where
  "sample_frames = \<lparr>alloc_map = [37], frame_begin = 1, frame_end = 60\<rparr>"

text \<open>
  C21: \<open>allocate\<close> is a first-fit search that always ends: it returns the lowest window of
  \<open>num_frames\<close> free frames of the managed range and marks exactly these frames, it reports
  \<open>NotEnoughFrame\<close> only when there is no such window, and it never indexes the bitmap out of range.
\<close>

theorem allocate_first_fit:
  assumes "frames_wf m"
  shows "case allocate m n of
      Ok (f, m') \<Rightarrow> frame_begin m \<le> f \<and> window_free m f n
        \<and> (\<forall>g. frame_begin m \<le> g \<and> g < f \<longrightarrow> \<not> window_free m g n) \<and> marks m {f..<f + n} True m'
    | Err e \<Rightarrow> \<forall>g. frame_begin m \<le> g \<longrightarrow> \<not> window_free m g n
    | Panic \<Rightarrow> False
    | Hang \<Rightarrow> False"
  using allocate_spec [OF assms, of n]
  by (auto simp: allocate_result_def split: outcome.splits)

theorem allocate_first_fit_witness:
  "window_free sample_frames 3 2 \<and> \<not> window_free sample_frames 1 2
   \<and> \<not> window_free sample_frames 3 3 \<and> \<not> window_free sample_frames 4 3"
proof -
  have wf: "frames_wf sample_frames"
    by (simp add: frames_wf_def sample_frames_def capacity_def BITS_PER_MAP_LINE_def)
  have 2: "allocate sample_frames 2 = Ok (3, sample_frames\<lparr>alloc_map := [61]\<rparr>)" by code_simp
  have 3: "allocate sample_frames 3 = Ok (6, sample_frames\<lparr>alloc_map := [485]\<rparr>)" by code_simp
  show ?thesis
    using allocate_first_fit [OF wf, of 2] allocate_first_fit [OF wf, of 3]
    unfolding 2 3 by (simp add: sample_frames_def)
qed

text \<open>
  Freeing what \<open>allocate\<close> returned gives back the frame manager as it was before, bit for bit.
\<close>

theorem free_allocate:
  assumes "frames_wf m" and "allocate m n = Ok (f, m')"
  shows "free_frames m' f n = Ok m"
proof -
  note a = allocate_Ok [OF assms]
  have free: "\<forall>g \<in> {f..<f + n}. g < frame_end m \<and> \<not> allocated m g"
    using a(2) by (simp add: window_free_iff)
  then have "f + i < capacity m'" if "i < n" for i
    using that a(3) assms(1) by (auto simp: marks_def frames_wf_def dest: bspec [of _ _ "f + i"])
  then obtain m'' where "free_frames m' f n = Ok m''" and "marks m' {f..<f + n} False m''"
    using free_frames_Ok [of n f m'] by blast
  then show ?thesis using marks_undo [OF a(3)] free by blast
qed

theorem free_allocate_witness:
  "free_frames (sample_frames\<lparr>alloc_map := [61]\<rparr>) 3 2 = Ok sample_frames"
  by (rule free_allocate)
    (simp add: frames_wf_def sample_frames_def capacity_def BITS_PER_MAP_LINE_def, code_simp)

text \<open>
  C38: \<open>available_frames\<close> counts the frames whose bit is set, and a set bit means allocated
  (\<open>set_bit\<close>, \<open>mark_allocated\<close>): the number it reports as available is the number of frames in use.
\<close>

theorem available_frames_counts_allocated:
  assumes "frames_wf m"
  shows "available_frames m = Ok (card {f. frame_begin m \<le> f \<and> f < frame_end m \<and> allocated m f})"
proof -
  have "card {f. frame_begin m \<le> f \<and> f < frame_end m \<and> allocated m f}
      = length (filter (allocated m) [frame_begin m..<frame_end m])"
    by (subst distinct_card [symmetric]) (auto intro: arg_cong [where f = card])
  then show ?thesis
    using assms by (simp add: available_frames_def count_bits_eq frames_wf_def)
qed

theorem available_frames_counts_allocated_witness:
  "available_frames sample_frames = Ok 2
   \<and> card {f. frame_begin sample_frames \<le> f \<and> f < frame_end sample_frames \<and> allocated sample_frames f} = 2"
proof -
  have wf: "frames_wf sample_frames"
    by (simp add: frames_wf_def sample_frames_def capacity_def BITS_PER_MAP_LINE_def)
  have "available_frames sample_frames = Ok 2" by code_simp
  with available_frames_counts_allocated [OF wf] show ?thesis by simp
qed

text \<open>A memory map with one descriptor, and that it is valid.\<close>

definition sample_memory_map :: "mem_descriptor list" where
  "sample_memory_map = [\<lparr>phys_start = 0x1000, phys_end = 0x10000\<rparr>]"

lemma sample_memory_map_valid: "valid_memory_map 0 sample_memory_map"
  by (simp add: sample_memory_map_def FRAME_SIZE_def MAX_PHYSICAL_MEMORY_BYTES_def)

text \<open>
  C30: on a valid memory map \<open>initialize\<close> succeeds from the empty bitmap, and afterwards a frame of
  the managed range is free exactly when it lies inside a descriptor of the map; every frame of
  a descriptor is in the managed range or is the null frame below it.
\<close>

theorem initialize_frames_correct:
  assumes "valid_memory_map 0 ds"
  shows "\<exists>m. initialize_frames new_frame_manager ds = Ok m \<and> frame_begin m = FRAME_MIN
     \<and> (\<forall>f. frame_available ds f \<longrightarrow> f < frame_end m)
     \<and> (\<forall>f < frame_end m. allocated m f \<longleftrightarrow> \<not> frame_available ds f)"
  by (rule initialize_spec [OF assms]) blast

theorem initialize_frames_correct_witness:
  "\<exists>m. initialize_frames new_frame_manager sample_memory_map = Ok m
     \<and> 5 < frame_end m \<and> allocated m 0 \<and> \<not> allocated m 5"
proof -
  have "frame_available sample_memory_map 5" and "\<not> frame_available sample_memory_map 0"
    by (simp_all add: frame_available_def sample_memory_map_def frame_phys_addr_def FRAME_SIZE_def)
  with initialize_frames_correct [OF sample_memory_map_valid] show ?thesis
    by (metis gr_implies_not0 linorder_neqE_nat less_trans zero_less_numeral)
qed

text \<open>
  C2: in every state the kernel can reach by initialising the allocator on a valid memory map,
  allocating and freeing what it got, the live allocations are pairwise disjoint, consist of frames
  of the memory map other than the null frame, all marked allocated, and freeing any of them succeeds.
\<close>

theorem frames_in_use_safe:
  assumes "frames_in_use ds m live" and "valid_memory_map 0 ds"
  shows "sorted_wrt disjoint_windows live
    \<and> (\<forall>(f, n) \<in> set live. \<exists>m'. free_frames m f n = Ok m')
    \<and> (\<forall>w \<in> set live. \<forall>g \<in> {fst w..<fst w + snd w}.
           FRAME_MIN \<le> g \<and> frame_available ds g \<and> allocated m g)"
proof -
  note inv = frames_in_use_inv [OF assms]
  have "\<exists>m'. free_frames m f n = Ok m'" if "(f, n) \<in> set live" for f n
    using live_window_in_capacity [OF inv that] by (metis free_frames_Ok)
  with inv show ?thesis by (auto simp: frames_inv_def live_ok_def)
qed

theorem frames_in_use_safe_witness:
  "\<exists>m live f. frames_in_use sample_memory_map m live \<and> live = [(f, 3)]
     \<and> FRAME_MIN \<le> f \<and> frame_available sample_memory_map f \<and> allocated m f
     \<and> (\<exists>m'. free_frames m f 3 = Ok m')"
proof -
  obtain m where m: "initialize_frames new_frame_manager sample_memory_map = Ok m" "frames_wf m"
    and "frame_begin m = FRAME_MIN"
    and al: "\<forall>f < frame_end m. allocated m f \<longleftrightarrow> \<not> frame_available sample_memory_map f"
    and en: "\<forall>f. frame_available sample_memory_map f \<longrightarrow> f < frame_end m"
    by (rule initialize_spec [OF sample_memory_map_valid])
  have avail: "\<forall>i<3. frame_available sample_memory_map (2 + i)"
    by (simp add: frame_available_def sample_memory_map_def frame_phys_addr_def FRAME_SIZE_def)
  then have "window_free m 2 3"
    using al en by (simp add: window_free_def)
  moreover have "frame_begin m \<le> 2" using \<open>frame_begin m = FRAME_MIN\<close> by (simp add: FRAME_MIN_def)
  ultimately obtain f m' where "allocate m 3 = Ok (f, m')"
    using allocate_spec [OF m(2), of 3] by (auto simp: allocate_result_def split: outcome.splits)
  with m(1) have reach: "frames_in_use sample_memory_map m' [(f, 3)]"
    by (blast intro: frames_in_use.intros)
  from frames_in_use_safe [OF reach sample_memory_map_valid] reach show ?thesis by force
qed

end
