(* ===== verification/Paging.thy ===== *)
theory Paging
  imports Ors_Prelude
begin

text \<open>
  The page tables of the kernel, \<open>paging.rs\<close>: \<open>initialize_identity_mapping\<close> fills three levels of tables
  with 2 MiB pages for the first 64 GiB. An entry is its address and the flags the code uses (\<open>x86_64\<close>'s
  \<open>PageTableEntry\<close>); \<open>walk\<close> is the translation the processor makes with such tables, against which the
  kernel's own translations \<open>as_virt_addr\<close> and \<open>as_phys_addr\<close> are measured.
\<close>

section \<open>The tables\<close>

definition SIZE_2MIB :: nat where
  "SIZE_2MIB = 0x200000"

definition SIZE_1GIB :: nat where
  "SIZE_1GIB = 0x40000000"

record page_table_entry =
  pte_addr :: nat
  pte_present :: bool
  pte_writable :: bool
  pte_global :: bool
  pte_huge :: bool

type_synonym page_table = "page_table_entry list"

definition EMPTY_PAGE_TABLE :: page_table where
  "EMPTY_PAGE_TABLE =
     replicate 512 \<lparr>pte_addr = 0, pte_present = False, pte_writable = False, pte_global = False, pte_huge = False\<rparr>"

text \<open>The static tables and the addresses the linker gave them.\<close>

record page_tables =
  PML4_TABLE :: page_table
  PDP_TABLE :: page_table
  PAGE_DIRECTORY :: "page_table list"

record table_addresses =
  pml4_addr :: nat
  pdp_addr :: nat
  directory_addr :: "nat \<Rightarrow> nat"

definition initial_tables :: page_tables where
  "initial_tables =
     \<lparr>PML4_TABLE = EMPTY_PAGE_TABLE, PDP_TABLE = EMPTY_PAGE_TABLE,
      PAGE_DIRECTORY = replicate 64 EMPTY_PAGE_TABLE\<rparr>"

text \<open>\<open>PhysFrame::from_start_address\<close> refuses an address that is not aligned.\<close>

definition phys_frame :: "nat \<Rightarrow> (unit, nat) outcome" where
  "phys_frame addr = (if addr mod 4096 = 0 then Ok addr else Panic)"

definition kernel_entry :: "nat \<Rightarrow> bool \<Rightarrow> page_table_entry" where
  "kernel_entry addr huge =
     \<lparr>pte_addr = addr, pte_present = True, pte_writable = True, pte_global = True, pte_huge = huge\<rparr>"

definition map_directory :: "nat \<Rightarrow> page_table" where
  "map_directory i = map (\<lambda>j. kernel_entry (i * SIZE_1GIB + j * SIZE_2MIB) True) [0..<512]"

fun map_directories :: "table_addresses \<Rightarrow> nat list \<Rightarrow> page_tables \<Rightarrow> (unit, page_tables) outcome" where
  "map_directories T [] t = Ok t"
| "map_directories T (i # is) t =
    try_then (phys_frame (directory_addr T i)) (\<lambda>frame.
      map_directories T is
        (t\<lparr>PDP_TABLE := (PDP_TABLE t)[i := kernel_entry frame False],
           PAGE_DIRECTORY := (PAGE_DIRECTORY t)[i := map_directory i]\<rparr>))"

definition initialize_identity_mapping :: "table_addresses \<Rightarrow> (unit, nat \<times> page_tables) outcome" where
  "initialize_identity_mapping T =
     try_then (phys_frame (pdp_addr T)) (\<lambda>frame.
       let t = initial_tables\<lparr>PML4_TABLE := (PML4_TABLE initial_tables)[0 := kernel_entry frame False]\<rparr>
       in try_then (map_directories T [0..<64] t) (\<lambda>t'.
         try_then (phys_frame (pml4_addr T)) (\<lambda>root. Ok (root, t'))))"

definition as_virt_addr :: "nat \<Rightarrow> nat option" where
  "as_virt_addr addr = (if addr < SIZE_1GIB * 64 then Some addr else None)"

definition as_phys_addr :: "nat \<Rightarrow> nat option" where
  "as_phys_addr addr = (if addr < SIZE_1GIB * 64 then Some addr else None)"

section \<open>The translation of the processor\<close>

text \<open>The table at a physical address, as the tables are placed in memory.\<close>

definition table_at :: "table_addresses \<Rightarrow> page_tables \<Rightarrow> nat \<Rightarrow> page_table option" where
  "table_at T t a =
     (if a = pml4_addr T then Some (PML4_TABLE t)
      else if a = pdp_addr T then Some (PDP_TABLE t)
      else map_option (\<lambda>i. PAGE_DIRECTORY t ! i) (find (\<lambda>i. directory_addr T i = a) [0..<length (PAGE_DIRECTORY t)]))"

definition table_entry :: "(nat \<Rightarrow> page_table option) \<Rightarrow> nat \<Rightarrow> nat \<Rightarrow> page_table_entry option" where
  "table_entry mem a i = (case mem a of
      None \<Rightarrow> None
    | Some tab \<Rightarrow> if i < length tab \<and> pte_present (tab ! i) then Some (tab ! i) else None)"

definition walk :: "(nat \<Rightarrow> page_table option) \<Rightarrow> nat \<Rightarrow> nat \<Rightarrow> nat option" where
  "walk mem root va = (case table_entry mem root (va div (512 * SIZE_1GIB) mod 512) of
      None \<Rightarrow> None
    | Some e4 \<Rightarrow> (case table_entry mem (pte_addr e4) (va div SIZE_1GIB mod 512) of
        None \<Rightarrow> None
      | Some e3 \<Rightarrow> if pte_huge e3 then Some (pte_addr e3 + va mod SIZE_1GIB)
          else (case table_entry mem (pte_addr e3) (va div SIZE_2MIB mod 512) of
            None \<Rightarrow> None
          | Some e2 \<Rightarrow> if pte_huge e2 then Some (pte_addr e2 + va mod SIZE_2MIB)
              else (case table_entry mem (pte_addr e2) (va div 4096 mod 512) of
                None \<Rightarrow> None
              | Some e1 \<Rightarrow> Some (pte_addr e1 + va mod 4096)))))"

section \<open>Identity\<close>

definition aligned_tables :: "table_addresses \<Rightarrow> bool" where
  "aligned_tables T \<longleftrightarrow> pml4_addr T mod 4096 = 0 \<and> pdp_addr T mod 4096 = 0
     \<and> list_all (\<lambda>i. directory_addr T i mod 4096 = 0) [0..<64]"

definition distinct_tables :: "table_addresses \<Rightarrow> bool" where
  "distinct_tables T \<longleftrightarrow> distinct (pml4_addr T # pdp_addr T # map (directory_addr T) [0..<64])"

lemma map_directories_ok:
  assumes "list_all (\<lambda>i. directory_addr T i mod 4096 = 0) is"
  shows "map_directories T is t = Ok (t
    \<lparr>PDP_TABLE := fold (\<lambda>i tab. tab[i := kernel_entry (directory_addr T i) False]) is (PDP_TABLE t),
     PAGE_DIRECTORY := fold (\<lambda>i tabs. tabs[i := map_directory i]) is (PAGE_DIRECTORY t)\<rparr>)"
  using assms by (induction "is" arbitrary: t) (auto simp: phys_frame_def)

lemma fold_update_upto:
  "n \<le> length xs \<Longrightarrow> fold (\<lambda>i ys. ys[i := f i]) [0..<n] xs = map f [0..<n] @ drop n xs"
proof (induction n)
  case (Suc n)
  then have "(map f [0..<n] @ drop n xs)[n := f n] = map f [0..<n] @ f n # drop (Suc n) xs"
    by (simp add: list_update_append Cons_nth_drop_Suc [symmetric])
  with Suc show ?case by simp
qed simp

definition identity_tables :: "table_addresses \<Rightarrow> page_tables" where
  "identity_tables T =
     \<lparr>PML4_TABLE = EMPTY_PAGE_TABLE[0 := kernel_entry (pdp_addr T) False],
      PDP_TABLE = map (\<lambda>i. kernel_entry (directory_addr T i) False) [0..<64] @ drop 64 EMPTY_PAGE_TABLE,
      PAGE_DIRECTORY = map map_directory [0..<64]\<rparr>"

lemma initialize_identity_mapping_ok:
  assumes "aligned_tables T"
  shows "initialize_identity_mapping T = Ok (pml4_addr T, identity_tables T)"
proof -
  let ?upd = "\<lambda>t. t\<lparr>PDP_TABLE := map (\<lambda>i. kernel_entry (directory_addr T i) False) [0..<64] @ drop 64 EMPTY_PAGE_TABLE,
     PAGE_DIRECTORY := map map_directory [0..<64]\<rparr>"
  have "length EMPTY_PAGE_TABLE = 512" by (simp add: EMPTY_PAGE_TABLE_def)
  then have "fold (\<lambda>i tab. tab[i := kernel_entry (directory_addr T i) False]) [0..<64] EMPTY_PAGE_TABLE
      = map (\<lambda>i. kernel_entry (directory_addr T i) False) [0..<64] @ drop 64 EMPTY_PAGE_TABLE"
    by (intro fold_update_upto) simp
  moreover have "fold (\<lambda>i tabs. tabs[i := map_directory i]) [0..<64] (replicate 64 EMPTY_PAGE_TABLE)
      = map map_directory [0..<64]"
    by (subst fold_update_upto) simp_all
  ultimately show ?thesis
    using assms unfolding initialize_identity_mapping_def Let_def
    by (subst map_directories_ok)
      (simp_all add: aligned_tables_def phys_frame_def initial_tables_def identity_tables_def del: upt_rec_numeral)
qed

lemma table_at_identity:
  assumes "distinct_tables T"
  shows "table_at T t (pml4_addr T) = Some (PML4_TABLE t)"
    and "table_at T t (pdp_addr T) = Some (PDP_TABLE t)"
    and "length (PAGE_DIRECTORY t) = 64 \<Longrightarrow> i < 64 \<Longrightarrow>
      table_at T t (directory_addr T i) = Some (PAGE_DIRECTORY t ! i)"
proof -
  show "table_at T t (pml4_addr T) = Some (PML4_TABLE t)" by (simp add: table_at_def)
  show "table_at T t (pdp_addr T) = Some (PDP_TABLE t)"
    using assms by (simp add: table_at_def distinct_tables_def)
  assume len: "length (PAGE_DIRECTORY t) = 64" and i: "i < 64"
  have other: "directory_addr T i \<noteq> pml4_addr T" "directory_addr T i \<noteq> pdp_addr T"
    using assms i by (force simp: distinct_tables_def simp del: upt_rec_numeral)+
  have "inj_on (directory_addr T) {0..<64}"
    using assms by (simp add: distinct_tables_def distinct_map del: upt_rec_numeral)
  then have "find (\<lambda>k. directory_addr T k = directory_addr T i) [0..<64] = Some i"
    using i by (auto simp: find_Some_iff inj_on_eq_iff intro!: exI [of _ i])
  with other len show "table_at T t (directory_addr T i) = Some (PAGE_DIRECTORY t ! i)"
    by (simp add: table_at_def del: upt_rec_numeral)
qed

text \<open>
  C12: The tables the kernel builds translate every address of the lower half of the address space as the
  kernel's \<open>as_virt_addr\<close> and \<open>as_phys_addr\<close> do: the first 64 GiB to themselves, the rest not at all.
\<close>

theorem identity_mapping:
  assumes "aligned_tables T" and "distinct_tables T" and "va < 2 ^ 47"
  shows "\<exists>root t. initialize_identity_mapping T = Ok (root, t)
    \<and> walk (table_at T t) root va = as_phys_addr va \<and> as_virt_addr va = as_phys_addr va"
proof -
  let ?t = "identity_tables T" let ?m = "table_at T ?t"
  note at = table_at_identity [OF assms(2), of ?t]
  have len: "length (PAGE_DIRECTORY ?t) = 64" by (simp add: identity_tables_def)
  define i4 i3 where "i4 = va div (512 * SIZE_1GIB) mod 512" and "i3 = va div SIZE_1GIB mod 512"
  have e4: "table_entry ?m (pml4_addr T) i4 = (if i4 = 0 then Some (kernel_entry (pdp_addr T) False) else None)"
    using at(1) by (auto simp: table_entry_def i4_def identity_tables_def EMPTY_PAGE_TABLE_def kernel_entry_def
        nth_list_update)
  have e3: "table_entry ?m (pdp_addr T) i3 =
      (if i3 < 64 then Some (kernel_entry (directory_addr T i3) False) else None)"
    using at(2) by (auto simp: table_entry_def i3_def identity_tables_def EMPTY_PAGE_TABLE_def kernel_entry_def
        nth_append simp del: upt_rec_numeral)
  have e2: "table_entry ?m (directory_addr T i) j = Some (kernel_entry (i * SIZE_1GIB + j * SIZE_2MIB) True)"
    if "i < 64" "j < 512" for i j
    using at(3) [OF len that(1)] that
    by (simp add: table_entry_def identity_tables_def map_directory_def kernel_entry_def del: upt_rec_numeral)
  have "walk ?m (pml4_addr T) va = as_phys_addr va"
  proof (cases "i4 = 0 \<and> i3 < 64")
    case True
    define j where "j = va div SIZE_2MIB mod 512"
    have "va div (512 * SIZE_1GIB) = 0" using True assms(3) by (simp add: i4_def SIZE_1GIB_def)
    then have small: "va div SIZE_1GIB < 512" by (simp add: SIZE_1GIB_def div_eq_0_iff)
    then have i3: "i3 = va div SIZE_1GIB" by (simp add: i3_def)
    then have "va div SIZE_1GIB < 64" using True by simp
    then have "va < SIZE_1GIB * 64"
      using div_less_iff_less_mult [of SIZE_1GIB va 64] by (simp add: SIZE_1GIB_def)
    moreover have "i3 * SIZE_1GIB + j * SIZE_2MIB + va mod SIZE_2MIB = va"
    proof -
      have "va mod (SIZE_2MIB * 512) = SIZE_2MIB * (va div SIZE_2MIB mod 512) + va mod SIZE_2MIB"
        by (rule mod_mult2_eq)
      moreover have "SIZE_2MIB * 512 = SIZE_1GIB" by (simp add: SIZE_2MIB_def SIZE_1GIB_def)
      ultimately show ?thesis
        unfolding i3 j_def using div_mult_mod_eq [of va SIZE_1GIB] by (simp add: mult.commute)
    qed
    moreover have "walk ?m (pml4_addr T) va = Some (i3 * SIZE_1GIB + j * SIZE_2MIB + va mod SIZE_2MIB)"
      using True e4 e3 e2 [of i3 j]
      by (simp add: walk_def flip: i4_def i3_def j_def) (simp add: kernel_entry_def j_def)
    ultimately show ?thesis by (simp add: as_phys_addr_def)
  next
    case False
    then have "\<not> va < SIZE_1GIB * 64" by (auto simp: i4_def i3_def SIZE_1GIB_def)
    moreover have "walk ?m (pml4_addr T) va = None"
      using False e4 e3 by (auto simp: walk_def kernel_entry_def simp flip: i4_def i3_def)
    ultimately show ?thesis by (simp add: as_phys_addr_def)
  qed
  with initialize_identity_mapping_ok [OF assms(1)] show ?thesis
    by (auto simp: as_phys_addr_def as_virt_addr_def)
qed

definition sample_tables :: table_addresses where
  "sample_tables = \<lparr>pml4_addr = 0x100000, pdp_addr = 0x101000, directory_addr = (\<lambda>i. 0x102000 + 0x1000 * i)\<rparr>"

theorem identity_mapping_witness:
  "\<exists>root t. initialize_identity_mapping sample_tables = Ok (root, t)
     \<and> walk (table_at sample_tables t) root 0xdeadbeef = Some 0xdeadbeef"
proof -
  have "aligned_tables sample_tables" "distinct_tables sample_tables"
    by (auto simp: aligned_tables_def distinct_tables_def sample_tables_def list_all_iff distinct_map inj_on_def)
  from identity_mapping [OF this, where va = "0xdeadbeef"] show ?thesis by (auto simp: as_phys_addr_def SIZE_1GIB_def)
qed

end
