(* ===== verification/Raw_Memory.thy ===== *)
theory Raw_Memory
  imports Ors_Prelude
begin

text \<open>
  Physical memory as the kernel's raw pointers see it, a byte at every address, for the allocator and the device
  drivers; and regions of memory that are apart.
\<close>

type_synonym memory = "nat \<Rightarrow> u8"

definition mem_read :: "memory \<Rightarrow> nat \<Rightarrow> nat \<Rightarrow> bytes" where
  "mem_read mem a n = map (\<lambda>k. mem (a + k)) [0..<n]"

definition mem_write :: "nat \<Rightarrow> bytes \<Rightarrow> memory \<Rightarrow> memory" where
  "mem_write a bs mem = (\<lambda>x. if a \<le> x \<and> x < a + length bs then bs ! (x - a) else mem x)"

text \<open>The regions of \<open>m\<close> bytes at \<open>a\<close> and of \<open>n\<close> bytes at \<open>b\<close> have nothing in common.\<close>

definition apart :: "nat \<Rightarrow> nat \<Rightarrow> nat \<Rightarrow> nat \<Rightarrow> bool" where
  "apart a m b n \<longleftrightarrow> a + m \<le> b \<or> b + n \<le> a"

lemma length_mem_read [simp]: "length (mem_read mem a n) = n"
  by (simp add: mem_read_def)

lemma mem_read_write_same: "mem_read (mem_write a bs mem) a (length bs) = bs"
  by (rule nth_equalityI) (simp_all add: mem_read_def mem_write_def)

lemma mem_read_write_apart: "apart a n b (length bs) \<Longrightarrow> mem_read (mem_write b bs mem) a n = mem_read mem a n"
  by (auto simp: mem_read_def mem_write_def apart_def)

lemma mem_write_at: "mem_write a [x] mem a = x"
  by (simp add: mem_write_def)

lemma apart_sym: "apart a m b n \<longleftrightarrow> apart b n a m"
  by (auto simp: apart_def)

end
