(* ===== verification/Kernel_Allocator.thy ===== *)
theory Kernel_Allocator
  imports Phys_Memory Paging Raw_Memory
begin

text \<open>
  The heap of the kernel, \<open>allocator.rs\<close>: blocks of nine sizes in lists that run through the free blocks
  themselves, cut out of frames, and whole frames for what is larger. The state is the heads of the lists, the
  frame manager and the memory; the theorem at the end is that the allocator and its clients never get in each
  other's way.
\<close>

section \<open>Layouts\<close>

definition BLOCK_SIZES :: "nat list" where
  "BLOCK_SIZES = [8, 16, 32, 64, 128, 256, 512, 1024, 2048]"

datatype allocation_mode = BlockMode nat | FrameMode nat

definition allocation_mode :: "nat \<Rightarrow> nat \<Rightarrow> allocation_mode" where
  "allocation_mode sz align =
     (let s = max sz align in
      case position (\<lambda>b. s \<le> b) BLOCK_SIZES of
        Some index \<Rightarrow> BlockMode index
      | None \<Rightarrow> FrameMode ((s + FRAME_SIZE - 1) div FRAME_SIZE))"

section \<open>The allocator\<close>

definition read_ptr :: "memory \<Rightarrow> nat \<Rightarrow> nat" where
  "read_ptr mem a = unat (from_le_bytes (mem_read mem a 8) :: u64)"

definition write_ptr :: "nat \<Rightarrow> nat \<Rightarrow> memory \<Rightarrow> memory" where
  "write_ptr a v mem = mem_write a (to_le_bytes 8 (word_of_nat v :: u64)) mem"

record kernel_heap =
  available_blocks :: "nat list"
  heap_frames :: frame_manager
  heap_mem :: memory

text \<open>\<open>KernelAllocator::new\<close>; the frames and the memory are those of the machine.\<close>

definition new_heap :: "frame_manager \<Rightarrow> memory \<Rightarrow> kernel_heap" where
  "new_heap m mem = \<lparr>available_blocks = replicate (length BLOCK_SIZES) 0, heap_frames = m, heap_mem = mem\<rparr>"

fun link_blocks :: "nat \<Rightarrow> nat \<Rightarrow> nat \<Rightarrow> nat list \<Rightarrow> memory \<Rightarrow> memory" where
  "link_blocks ptr block_size n [] mem = mem"
| "link_blocks ptr block_size n (i # is) mem =
    (let current = ptr + i * block_size;
         next = (if i = n - 1 then 0 else current + block_size)
     in link_blocks ptr block_size n is (write_ptr current next mem))"

definition allocate_frame_for_block :: "nat \<Rightarrow> kernel_heap \<Rightarrow> (allocate_error, nat \<times> kernel_heap) outcome" where
  "allocate_frame_for_block index h =
     (let block_size = BLOCK_SIZES ! index; num_blocks_per_frame = FRAME_SIZE div block_size in
      case allocate (heap_frames h) 1 of
        Ok (frame, m) \<Rightarrow>
          (case as_virt_addr (frame_phys_addr frame) of
             None \<Rightarrow> Panic
           | Some ptr \<Rightarrow> Ok (ptr, h\<lparr>heap_frames := m,
               heap_mem := link_blocks ptr block_size num_blocks_per_frame [0..<num_blocks_per_frame] (heap_mem h)\<rparr>))
      | Err _ \<Rightarrow> Ok (0, h)
      | Panic \<Rightarrow> Panic
      | Hang \<Rightarrow> Hang)"

definition kalloc :: "nat \<Rightarrow> nat \<Rightarrow> kernel_heap \<Rightarrow> (allocate_error, nat \<times> kernel_heap) outcome" where
  "kalloc sz align h = (case allocation_mode sz align of
      BlockMode index \<Rightarrow>
        (let ptr = available_blocks h ! index in
         try_then (if ptr = 0 then allocate_frame_for_block index h else Ok (ptr, h)) (\<lambda>(ptr, h).
           Ok (ptr, if ptr \<noteq> 0 then h\<lparr>available_blocks := (available_blocks h)[index := read_ptr (heap_mem h) ptr]\<rparr> else h)))
    | FrameMode num \<Rightarrow>
        (case allocate (heap_frames h) num of
           Ok (frame, m) \<Rightarrow>
             (case as_virt_addr (frame_phys_addr frame) of None \<Rightarrow> Panic | Some addr \<Rightarrow> Ok (addr, h\<lparr>heap_frames := m\<rparr>))
         | Err _ \<Rightarrow> Ok (0, h)
         | Panic \<Rightarrow> Panic
         | Hang \<Rightarrow> Hang))"

definition kdealloc :: "nat \<Rightarrow> nat \<Rightarrow> nat \<Rightarrow> kernel_heap \<Rightarrow> (allocate_error, kernel_heap) outcome" where
  "kdealloc ptr sz align h = (case allocation_mode sz align of
      BlockMode index \<Rightarrow>
        (let next = available_blocks h ! index in
         Ok (h\<lparr>heap_mem := write_ptr ptr next (heap_mem h), available_blocks := (available_blocks h)[index := ptr]\<rparr>))
    | FrameMode num \<Rightarrow>
        (case as_phys_addr ptr of
           None \<Rightarrow> Panic
         | Some addr \<Rightarrow> try_then (free_frames (heap_frames h) (frame_from_phys_addr addr) num) (\<lambda>m.
             Ok (h\<lparr>heap_frames := m\<rparr>))))"

section \<open>Sizes and alignment\<close>

lemma length_BLOCK_SIZES [simp]: "length BLOCK_SIZES = 9"
  by (simp add: BLOCK_SIZES_def)

lemma block_size_pow:
  assumes "k < 9"
  shows "BLOCK_SIZES ! k = 2 ^ (k + 3)"
proof -
  have b: "BLOCK_SIZES = map (\<lambda>i. 2 ^ (i + 3)) [0..<9]" by code_simp
  have "map (\<lambda>i. 2 ^ (i + 3)) [0..<n] ! k = (2::nat) ^ (k + 3)" if "k < n" for n using that by simp
  from this [OF assms] show ?thesis unfolding b .
qed

lemma block_size_range:
  assumes "k < 9"
  shows "8 \<le> BLOCK_SIZES ! k" and "BLOCK_SIZES ! k dvd FRAME_SIZE" and "0 < FRAME_SIZE div (BLOCK_SIZES ! k)"
proof -
  have "(2::nat) ^ 3 \<le> 2 ^ (k + 3)" by (rule power_increasing) simp_all
  then show "8 \<le> BLOCK_SIZES ! k" using block_size_pow [OF assms] by simp
  have "(2::nat) ^ (k + 3) dvd 2 ^ 12" using assms by (intro le_imp_power_dvd) simp
  then show d: "BLOCK_SIZES ! k dvd FRAME_SIZE" using block_size_pow [OF assms] by (simp add: FRAME_SIZE_def)
  then show "0 < FRAME_SIZE div (BLOCK_SIZES ! k)"
    using dvd_imp_le [OF d] block_size_pow [OF assms] by (simp add: FRAME_SIZE_def div_greater_zero_iff)
qed

lemma allocation_mode_cases:
  obtains (block) k where "allocation_mode sz al = BlockMode k" and "k < 9" and "max sz al \<le> BLOCK_SIZES ! k"
  | (frame) n where "allocation_mode sz al = FrameMode n" and "max sz al \<le> n * FRAME_SIZE" and "2048 < max sz al" and "0 < n"
proof (cases "position (\<lambda>b. max sz al \<le> b) BLOCK_SIZES")
  case (Some k)
  with block [of k] position_SomeD [OF Some] show ?thesis by (simp add: allocation_mode_def)
next
  case None
  let ?n = "(max sz al + FRAME_SIZE - 1) div FRAME_SIZE"
  have "2048 \<in> set BLOCK_SIZES" by (simp add: BLOCK_SIZES_def)
  with None have "\<not> max sz al \<le> 2048" unfolding position_None by blast
  then have big: "2048 < max sz al" by (rule not_le_imp_less)
  have "max sz al \<le> ?n * FRAME_SIZE"
    using dividend_less_times_div [of FRAME_SIZE "max sz al + FRAME_SIZE - 1"] by (simp add: FRAME_SIZE_def)
  moreover have "0 < ?n" using big by (simp add: FRAME_SIZE_def div_greater_zero_iff)
  ultimately show ?thesis using frame [of ?n] None big by (simp add: allocation_mode_def)
qed

text \<open>The memory set aside for an allocation, and how it is aligned.\<close>

definition footprint :: "nat \<Rightarrow> nat \<Rightarrow> nat" where
  "footprint sz al = (case allocation_mode sz al of BlockMode k \<Rightarrow> BLOCK_SIZES ! k | FrameMode n \<Rightarrow> n * FRAME_SIZE)"

definition grain :: "nat \<Rightarrow> nat \<Rightarrow> nat" where
  "grain sz al = (case allocation_mode sz al of BlockMode k \<Rightarrow> BLOCK_SIZES ! k | FrameMode n \<Rightarrow> FRAME_SIZE)"

lemma footprint_size: "sz \<le> footprint sz al"
  by (rule allocation_mode_cases [of sz al]) (auto simp: footprint_def)

lemma grain_aligned:
  assumes "al = 2 ^ j" and "al \<le> FRAME_SIZE"
  shows "al dvd grain sz al"
proof (rule allocation_mode_cases [of sz al])
  fix k assume k: "allocation_mode sz al = BlockMode k" "k < 9" "max sz al \<le> BLOCK_SIZES ! k"
  then have "(2::nat) ^ j \<le> 2 ^ (k + 3)" using assms(1) block_size_pow by simp
  then have "j \<le> k + 3" using power_le_imp_le_exp [of "2::nat" j "k + 3"] by simp
  then have "(2::nat) ^ j dvd 2 ^ (k + 3)" by (rule le_imp_power_dvd)
  then show "al dvd grain sz al" using k assms(1) block_size_pow by (simp add: grain_def)
next
  fix n assume n: "allocation_mode sz al = FrameMode n"
  have "(2::nat) ^ j \<le> 2 ^ 12" using assms by (simp add: FRAME_SIZE_def)
  then have "j \<le> 12" using power_le_imp_le_exp [of "2::nat" j 12] by simp
  then have "(2::nat) ^ j dvd 2 ^ 12" by (rule le_imp_power_dvd)
  then show "al dvd grain sz al" using n assms(1) by (simp add: grain_def FRAME_SIZE_def)
qed

section \<open>Regions of memory\<close>

type_synonym region = "nat \<times> nat"

definition regions_apart :: "region \<Rightarrow> region \<Rightarrow> bool" where
  "regions_apart r s \<longleftrightarrow> apart (fst r) (snd r) (fst s) (snd s)"

definition all_apart :: "region multiset \<Rightarrow> bool" where
  "all_apart R \<longleftrightarrow> (\<forall>r\<in>#R. \<forall>s\<in>#R - {#r#}. regions_apart r s)"

lemma regions_apart_sym: "regions_apart r s \<longleftrightarrow> regions_apart s r"
  by (auto simp: regions_apart_def apart_def)

lemma all_apart_empty [simp]: "all_apart {#}"
  by (simp add: all_apart_def)

lemma all_apart_add [simp]: "all_apart (add_mset r R) \<longleftrightarrow> all_apart R \<and> (\<forall>s\<in>#R. regions_apart r s)"
proof
  assume all: "all_apart (add_mset r R)"
  have "regions_apart r s" if "s \<in># R" for s using all that by (auto simp: all_apart_def)
  moreover have "regions_apart t s" if "t \<in># R" "s \<in># R - {#t#}" for t s
  proof -
    have "s \<in># add_mset r R - {#t#}" using that by (cases "t = r") (auto dest: in_diffD)
    with all that(1) show ?thesis by (auto simp: all_apart_def)
  qed
  ultimately show "all_apart R \<and> (\<forall>s\<in>#R. regions_apart r s)" by (auto simp: all_apart_def)
next
  assume R: "all_apart R \<and> (\<forall>s\<in>#R. regions_apart r s)"
  show "all_apart (add_mset r R)"
    unfolding all_apart_def
  proof (intro ballI)
    fix t s assume t: "t \<in># add_mset r R" and s: "s \<in># add_mset r R - {#t#}"
    show "regions_apart t s"
    proof (cases "t = r")
      case False
      with t s have "t \<in># R" "s = r \<or> s \<in># R - {#t#}" by (auto split: if_splits)
      then show ?thesis using R regions_apart_sym [of r t] unfolding all_apart_def by blast
    qed (use R s in auto)
  qed
qed

lemma all_apart_union: "all_apart (A + B) \<longleftrightarrow> all_apart A \<and> all_apart B \<and> (\<forall>a\<in>#A. \<forall>b\<in>#B. regions_apart a b)"
  by (induction A) auto

text \<open>A region in allocated frames.\<close>

definition in_frames :: "frame_manager \<Rightarrow> region \<Rightarrow> bool" where
  "in_frames m r \<longleftrightarrow> 0 < snd r \<and> (\<forall>x. fst r \<le> x \<and> x < fst r + snd r \<longrightarrow> x div FRAME_SIZE < frame_end m \<and> allocated m (x div FRAME_SIZE))"

definition window :: "nat \<Rightarrow> nat \<Rightarrow> region" where
  "window f n = (f * FRAME_SIZE, n * FRAME_SIZE)"

lemma in_window: "fst (window f n) \<le> x \<and> x < fst (window f n) + snd (window f n) \<longleftrightarrow> x div FRAME_SIZE \<in> {f..<f + n}"
proof -
  have "x div FRAME_SIZE < f + n \<longleftrightarrow> x < (f + n) * FRAME_SIZE"
    by (rule div_less_iff_less_mult) (simp add: FRAME_SIZE_def)
  moreover have "f \<le> x div FRAME_SIZE \<longleftrightarrow> f * FRAME_SIZE \<le> x"
    by (rule less_eq_div_iff_mult_less_eq) (simp add: FRAME_SIZE_def)
  ultimately show ?thesis by (auto simp: window_def add_mult_distrib)
qed

lemma window_frames:
  assumes "in_frames m (window f n)" and "g \<in> {f..<f + n}"
  shows "g < frame_end m"
proof -
  have g: "g * FRAME_SIZE div FRAME_SIZE = g" by (simp add: FRAME_SIZE_def)
  with in_window [of f n "g * FRAME_SIZE"] assms(2)
  have "fst (window f n) \<le> g * FRAME_SIZE \<and> g * FRAME_SIZE < fst (window f n) + snd (window f n)" by simp
  with assms(1) have "g * FRAME_SIZE div FRAME_SIZE < frame_end m" unfolding in_frames_def by blast
  with g show ?thesis by simp
qed

lemma apart_iff:
  assumes "0 < snd r" and "0 < snd s"
  shows "regions_apart r s \<longleftrightarrow> \<not> (\<exists>x. fst r \<le> x \<and> x < fst r + snd r \<and> fst s \<le> x \<and> x < fst s + snd s)"
proof -
  have "\<not> regions_apart r s \<longleftrightarrow> fst s < fst r + snd r \<and> fst r < fst s + snd s"
    by (auto simp: regions_apart_def apart_def)
  also have "\<dots> \<longleftrightarrow> (\<exists>x. fst r \<le> x \<and> x < fst r + snd r \<and> fst s \<le> x \<and> x < fst s + snd s)"
    using assms by (auto intro!: exI [of _ "max (fst r) (fst s)"])
  finally show ?thesis by blast
qed

lemma free_window_apart:
  assumes "in_frames m r" and "window_free m f n" and "0 < n"
  shows "regions_apart (window f n) r"
proof (subst apart_iff)
  show "0 < snd (window f n)" "0 < snd r" using assms by (simp_all add: window_def in_frames_def FRAME_SIZE_def)
  show "\<not> (\<exists>x. fst (window f n) \<le> x \<and> x < fst (window f n) + snd (window f n) \<and> fst r \<le> x \<and> x < fst r + snd r)"
    using assms(1,2) in_window [of f n] unfolding in_frames_def window_free_iff by blast
qed

section \<open>The free lists\<close>

lemma read_write_ptr: "v < 2 ^ 64 \<Longrightarrow> read_ptr (write_ptr a v mem) a = v"
  using mem_read_write_same [of a "to_le_bytes 8 (word_of_nat v :: u64)" mem]
  by (simp add: read_ptr_def write_ptr_def from_to_le_bytes unsigned_of_nat take_bit_nat_eq_self)

lemma read_ptr_apart: "apart a 8 b (length bs) \<Longrightarrow> read_ptr (mem_write b bs mem) a = read_ptr mem a"
  by (simp add: read_ptr_def mem_read_write_apart)

text \<open>The list that starts at an address and runs through memory.\<close>

fun chain :: "memory \<Rightarrow> nat \<Rightarrow> nat list \<Rightarrow> bool" where
  "chain mem p [] \<longleftrightarrow> p = 0"
| "chain mem p (q # qs) \<longleftrightarrow> p = q \<and> 0 < q \<and> q < 2 ^ 64 \<and> chain mem (read_ptr mem q) qs"

lemma chain_cong: "(\<And>q. q \<in> set qs \<Longrightarrow> read_ptr mem' q = read_ptr mem q) \<Longrightarrow> chain mem' p qs = chain mem p qs"
  by (induction qs arbitrary: p) auto

lemma link_blocks_other:
  assumes "\<forall>i\<in>set is. x < ptr + i * bs \<or> ptr + i * bs + 8 \<le> x"
  shows "link_blocks ptr bs n is mem x = mem x"
  using assms
  by (induction "is" arbitrary: mem) (auto simp: write_ptr_def mem_write_def Let_def)

lemma link_blocks_read:
  assumes "8 \<le> bs" and "distinct is" and "i \<in> set is" and "ptr + (n + 1) * bs < 2 ^ 64" and "\<forall>i\<in>set is. i < n"
  shows "read_ptr (link_blocks ptr bs n is mem) (ptr + i * bs) = (if i = n - 1 then 0 else ptr + i * bs + bs)"
  using assms(2,3,5)
proof (induction "is" arbitrary: mem)
  case (Cons j js)
  let ?v = "\<lambda>k. if k = n - 1 then 0 else ptr + k * bs + bs"
  show ?case
  proof (cases "i = j")
    case False
    with Cons show ?thesis by (simp add: Let_def)
  next
    case True
    have "i * bs + bs \<le> (n + 1) * bs" by (rule block_end) (use Cons.prems(2,3) in auto)
    then have "ptr + i * bs + bs < 2 ^ 64" using assms(4) by linarith
    then have v: "?v i < 2 ^ 64" by simp
    have "link_blocks ptr bs n js (write_ptr (ptr + i * bs) (?v i) mem) x = write_ptr (ptr + i * bs) (?v i) mem x"
      if x: "ptr + i * bs \<le> x" "x < ptr + i * bs + 8" for x
    proof (rule link_blocks_other, intro ballI)
      fix k assume "k \<in> set js"
      then have "k \<noteq> i" using Cons.prems(1) True by auto
      then have "k * bs + bs \<le> i * bs \<or> i * bs + bs \<le> k * bs"
        by (metis Suc_leI linorder_neqE_nat mult_Suc mult_le_mono1 add.commute)
      then show "x < ptr + k * bs \<or> ptr + k * bs + 8 \<le> x" using x assms(1) by auto
    qed
    then have "mem_read (link_blocks ptr bs n js (write_ptr (ptr + i * bs) (?v i) mem)) (ptr + i * bs) 8
        = mem_read (write_ptr (ptr + i * bs) (?v i) mem) (ptr + i * bs) 8"
      by (simp add: mem_read_def)
    then have "read_ptr (link_blocks ptr bs n js (write_ptr (ptr + i * bs) (?v i) mem)) (ptr + i * bs) = ?v i"
      using read_write_ptr [OF v, of "ptr + i * bs" mem] by (simp add: read_ptr_def)
    then show ?thesis unfolding True [symmetric] by (cases "i = n - 1") (simp_all add: Let_def)
  qed
qed simp

lemma chain_blocks:
  assumes "8 \<le> bs" and "0 < n" and "0 < ptr" and "ptr + (n + 1) * bs < 2 ^ 64" and "i < n"
  shows "chain (link_blocks ptr bs n [0..<n] mem) (ptr + i * bs) (map (\<lambda>j. ptr + j * bs) [i..<n])"
  using assms(5)
proof (induction "n - i" arbitrary: i)
  case (Suc m)
  have up: "[i..<n] = i # [Suc i..<n]" using Suc.prems by (simp add: upt_rec)
  note r = link_blocks_read [OF assms(1) distinct_upt, of i 0 n ptr n mem] assms(4) Suc.prems
  have "i * bs + bs \<le> (n + 1) * bs" by (rule block_end) (use Suc.prems in simp)
  then have b: "ptr + i * bs < 2 ^ 64" using assms(4) by linarith
  show ?case
  proof (cases "Suc i < n")
    case True
    then have "chain (link_blocks ptr bs n [0..<n] mem) (ptr + i * bs + bs) (map (\<lambda>j. ptr + j * bs) [Suc i..<n])"
      using Suc.hyps(1) [of "Suc i"] Suc.hyps(2) by (simp add: ac_simps)
    moreover have "i \<noteq> n - 1" using True by simp
    ultimately show ?thesis using r b assms(3) unfolding up by simp
  next
    case False
    then have "i = n - 1" using Suc.prems by simp
    with False r b assms(3) show ?thesis unfolding up by simp
  qed
qed simp

section \<open>The invariant\<close>

type_synonym allocation = "nat \<times> nat \<times> nat"

definition free_regions :: "nat list list \<Rightarrow> region multiset" where
  "free_regions fl = (\<Sum>k<9. image_mset (\<lambda>p. (p, BLOCK_SIZES ! k)) (mset (fl ! k)))"

definition live_regions :: "allocation list \<Rightarrow> region multiset" where
  "live_regions live = image_mset (\<lambda>(p, sz, al). (p, footprint sz al)) (mset live)"

definition foreign_regions :: "(nat \<times> nat) list \<Rightarrow> region multiset" where
  "foreign_regions fo = image_mset (\<lambda>(f, n). window f n) (mset fo)"

definition heap_regions :: "nat list list \<Rightarrow> allocation list \<Rightarrow> (nat \<times> nat) list \<Rightarrow> region multiset" where
  "heap_regions fl live fo = free_regions fl + live_regions live + foreign_regions fo"

definition frames_ok :: "frame_manager \<Rightarrow> bool" where
  "frames_ok m \<longleftrightarrow> frames_wf m \<and> 0 < frame_begin m \<and> frame_end m \<le> 2 ^ 24"

text \<open>
  Free blocks, allocations and the frames others have taken are apart and lie in allocated frames; the lists run
  through the free blocks; blocks are aligned to their size and everything else to frames.
\<close>

definition heap_inv :: "kernel_heap \<Rightarrow> allocation list \<Rightarrow> (nat \<times> nat) list \<Rightarrow> nat list list \<Rightarrow> bool" where
  "heap_inv h live fo fl \<longleftrightarrow> frames_ok (heap_frames h) \<and> length (available_blocks h) = 9 \<and> length fl = 9
     \<and> (\<forall>k<9. chain (heap_mem h) (available_blocks h ! k) (fl ! k) \<and> (\<forall>p\<in>set (fl ! k). BLOCK_SIZES ! k dvd p))
     \<and> all_apart (heap_regions fl live fo) \<and> (\<forall>r\<in>#heap_regions fl live fo. in_frames (heap_frames h) r)
     \<and> (\<forall>(p, sz, al)\<in>set live. 0 < p \<and> 0 < sz \<and> grain sz al dvd p)"

lemma free_regions_split:
  assumes "k < 9"
  shows "free_regions fl = image_mset (\<lambda>p. (p, BLOCK_SIZES ! k)) (mset (fl ! k))
      + (\<Sum>j\<in>{..<9} - {k}. image_mset (\<lambda>p. (p, BLOCK_SIZES ! j)) (mset (fl ! j)))"
  unfolding free_regions_def using assms by (subst sum.remove [of _ k]) auto

lemma free_regions_update:
  assumes "k < 9" and "length fl = 9"
  shows "free_regions (fl[k := ps]) + image_mset (\<lambda>p. (p, BLOCK_SIZES ! k)) (mset (fl ! k))
    = free_regions fl + image_mset (\<lambda>p. (p, BLOCK_SIZES ! k)) (mset ps)"
proof -
  have "(\<Sum>j\<in>{..<9} - {k}. image_mset (\<lambda>p. (p, BLOCK_SIZES ! j)) (mset (fl[k := ps] ! j)))
      = (\<Sum>j\<in>{..<9} - {k}. image_mset (\<lambda>p. (p, BLOCK_SIZES ! j)) (mset (fl ! j)))"
    by (rule sum.cong) auto
  then show ?thesis
    using free_regions_split [OF assms(1), of fl] free_regions_split [OF assms(1), of "fl[k := ps]"] assms by simp
qed

lemma free_region_in: "k < 9 \<Longrightarrow> p \<in> set (fl ! k) \<Longrightarrow> (p, BLOCK_SIZES ! k) \<in># free_regions fl"
  by (simp add: free_regions_split)

text \<open>The heads of the lists.\<close>

lemma heap_inv_head:
  assumes "heap_inv h live fo fl" and "k < 9"
  shows "available_blocks h ! k = 0 \<longleftrightarrow> fl ! k = []" and "available_blocks h ! k \<noteq> 0 \<Longrightarrow> \<exists>ps. fl ! k = available_blocks h ! k # ps"
proof -
  have "chain (heap_mem h) (available_blocks h ! k) (fl ! k)" using assms by (simp add: heap_inv_def)
  then show "available_blocks h ! k = 0 \<longleftrightarrow> fl ! k = []" "available_blocks h ! k \<noteq> 0 \<Longrightarrow> \<exists>ps. fl ! k = available_blocks h ! k # ps"
    by (cases "fl ! k"; auto)+
qed

text \<open>Taking a free block, and giving one back.\<close>

lemma heap_inv_take:
  assumes inv: "heap_inv h live fo fl" and k: "k < 9" and fl: "fl ! k = p # ps" and mode: "allocation_mode sz al = BlockMode k" and "0 < sz"
  shows "heap_inv (h\<lparr>available_blocks := (available_blocks h)[k := read_ptr (heap_mem h) p]\<rparr>) ((p, sz, al) # live) fo (fl[k := ps])"
proof -
  note i = inv [unfolded heap_inv_def]
  have "free_regions fl = add_mset (p, BLOCK_SIZES ! k) (free_regions (fl[k := ps]))"
    using free_regions_update [OF k, of fl ps] i fl by simp
  then have reg: "heap_regions (fl[k := ps]) ((p, sz, al) # live) fo = heap_regions fl live fo"
    using mode by (simp add: heap_regions_def live_regions_def footprint_def)
  have c: "chain (heap_mem h) p (p # ps)" "BLOCK_SIZES ! k dvd p" using i k fl by (metis list.set_intros(1) chain.simps(2))+
  have "chain (heap_mem h) ((available_blocks h)[k := read_ptr (heap_mem h) p] ! j) (fl[k := ps] ! j)
      \<and> (\<forall>q\<in>set (fl[k := ps] ! j). BLOCK_SIZES ! j dvd q)" if "j < 9" for j
    using i c fl that by (cases "j = k") auto
  with i reg c assms(5) mode show ?thesis by (auto simp: heap_inv_def grain_def)
qed

lemma heap_inv_memory:
  assumes inv: "heap_inv h live fo fl" and "\<And>k p. k < 9 \<Longrightarrow> p \<in> set (fl ! k) \<Longrightarrow> read_ptr mem p = read_ptr (heap_mem h) p"
  shows "heap_inv (h\<lparr>heap_mem := mem\<rparr>) live fo fl"
proof -
  have "chain mem (available_blocks h ! k) (fl ! k)" if "k < 9" for k
    using inv that chain_cong [of "fl ! k" mem "heap_mem h"] assms(2) by (simp add: heap_inv_def)
  with inv show ?thesis by (simp add: heap_inv_def)
qed

lemma live_region_in: "(p, sz, al) \<in> set live \<Longrightarrow> (p, footprint sz al) \<in># live_regions live"
  by (force simp: live_regions_def)

text \<open>Clients write into what they have been given.\<close>

lemma free_live_apart:
  assumes "heap_inv h live fo fl" and "k < 9" and "q \<in> set (fl ! k)" and "(p, sz, al) \<in> set live"
  shows "apart q (BLOCK_SIZES ! k) p (footprint sz al)"
  using assms free_region_in [OF assms(2,3)] live_region_in [OF assms(4)]
  by (fastforce simp: heap_inv_def heap_regions_def all_apart_union regions_apart_def)

lemma heap_inv_write:
  assumes "heap_inv h live fo fl" and "(p, sz, al) \<in> set live" and "p \<le> a" and "a + length bs \<le> p + sz"
  shows "heap_inv (h\<lparr>heap_mem := mem_write a bs (heap_mem h)\<rparr>) live fo fl"
proof (rule heap_inv_memory [OF assms(1)])
  fix k q assume q: "k < 9" "q \<in> set (fl ! k)"
  have "apart q 8 a (length bs)"
    using free_live_apart [OF assms(1) q assms(2)] block_size_range(1) [OF q(1)] footprint_size [of sz al] assms(3,4)
    by (auto simp: apart_def)
  then show "read_ptr (mem_write a bs (heap_mem h)) q = read_ptr (heap_mem h) q" by (rule read_ptr_apart)
qed

lemma live_regions_remove:
  assumes "(p, sz, al) \<in> set live"
  shows "live_regions live = add_mset (p, footprint sz al) (live_regions (remove1 (p, sz, al) live))"
proof -
  have "mset live = add_mset (p, sz, al) (mset (remove1 (p, sz, al) live))" using assms by simp
  then show ?thesis by (simp only: live_regions_def image_mset_add_mset case_prod_conv)
qed

lemma heap_inv_give:
  assumes inv: "heap_inv h live fo fl" and l: "(p, sz, al) \<in> set live" and mode: "allocation_mode sz al = BlockMode k" and k: "k < 9"
  shows "heap_inv (h\<lparr>heap_mem := write_ptr p (available_blocks h ! k) (heap_mem h), available_blocks := (available_blocks h)[k := p]\<rparr>)
    (remove1 (p, sz, al) live) fo (fl[k := p # fl ! k])"
proof -
  note i = inv [unfolded heap_inv_def]
  let ?mem = "write_ptr p (available_blocks h ! k) (heap_mem h)"
  have reg: "heap_regions (fl[k := p # fl ! k]) (remove1 (p, sz, al) live) fo = heap_regions fl live fo"
    using free_regions_update [OF k, of fl "p # fl ! k"] live_regions_remove [OF l] i mode
    by (simp add: heap_regions_def footprint_def)
  have p: "0 < p" "BLOCK_SIZES ! k dvd p" using i l mode by (auto simp: grain_def)
  have "in_frames (heap_frames h) (p, footprint sz al)" "frame_end (heap_frames h) \<le> 2 ^ 24"
    using i live_region_in [OF l] by (auto simp: heap_regions_def frames_ok_def)
  then have "p div FRAME_SIZE < 2 ^ 24" using footprint_size [of sz al] by (auto simp: in_frames_def)
  then have p64: "p < 2 ^ 64" by (simp add: FRAME_SIZE_def)
  have avail: "available_blocks h ! k < 2 ^ 64" using i k by (cases "fl ! k") auto
  have keep: "read_ptr ?mem q = read_ptr (heap_mem h) q" if "j < 9" "q \<in> set (fl ! j)" for j q
    unfolding write_ptr_def
    by (rule read_ptr_apart)
      (use free_live_apart [OF inv that l] block_size_range(1) [OF that(1)] block_size_range(1) [OF k] mode in
        \<open>auto simp: apart_def footprint_def\<close>)
  have "chain ?mem ((available_blocks h)[k := p] ! j) (fl[k := p # fl ! k] ! j)
      \<and> (\<forall>q\<in>set (fl[k := p # fl ! k] ! j). BLOCK_SIZES ! j dvd q)" if j: "j < 9" for j
  proof -
    have "chain ?mem (available_blocks h ! j) (fl ! j)"
      using i j chain_cong [of "fl ! j" ?mem "heap_mem h"] keep by simp
    then show ?thesis using i j p p64 read_write_ptr [OF avail, of p "heap_mem h"] by (cases "j = k") auto
  qed
  moreover have "\<forall>(q, n, a)\<in>set (remove1 (p, sz, al) live). 0 < q \<and> 0 < n \<and> grain n a dvd q"
    using i set_remove1_subset by fast
  ultimately show ?thesis using i reg by (simp add: heap_inv_def)
qed

section \<open>Frames\<close>

lemma frames_ok_marks: "frames_ok m \<Longrightarrow> marks m S b m' \<Longrightarrow> frames_ok m'"
  by (simp add: frames_ok_def frames_wf_def marks_def)

lemma in_frames_marks:
  assumes "in_frames m r" and "marks m S True m'" and "frames_ok m"
  shows "in_frames m' r"
  using assms by (auto simp: in_frames_def marks_def frames_ok_def frames_wf_def)

lemma window_marked:
  assumes "window_free m f n" and "marks m {f..<f + n} True m'" and "0 < n" and "frames_ok m"
  shows "in_frames m' (window f n)"
  unfolding in_frames_def
proof (intro conjI allI impI)
  show "0 < snd (window f n)" using assms(3) by (simp add: window_def FRAME_SIZE_def)
  fix x assume "fst (window f n) \<le> x \<and> x < fst (window f n) + snd (window f n)"
  then have "x div FRAME_SIZE \<in> {f..<f + n}" using in_window by blast
  moreover from this have "x div FRAME_SIZE < frame_end m" using assms(1) by (simp add: window_free_iff)
  ultimately show "x div FRAME_SIZE < frame_end m'" "allocated m' (x div FRAME_SIZE)"
    using assms(2,4) by (auto simp: marks_def frames_ok_def frames_wf_def)
qed

lemma in_frames_freed:
  assumes "in_frames m r" and "marks m {f..<f + n} False m'" and "frames_ok m" and "regions_apart (window f n) r" and "0 < n"
  shows "in_frames m' r"
  unfolding in_frames_def
proof (intro conjI allI impI)
  have pos: "0 < snd (window f n)" using assms(5) by (simp add: window_def FRAME_SIZE_def)
  show "0 < snd r" using assms(1) by (simp add: in_frames_def)
  fix x assume x: "fst r \<le> x \<and> x < fst r + snd r"
  then have "x div FRAME_SIZE \<notin> {f..<f + n}"
    using assms(4) apart_iff [OF pos \<open>0 < snd r\<close>] in_window [of f n x] by blast
  with assms(1-3) x show "x div FRAME_SIZE < frame_end m'" "allocated m' (x div FRAME_SIZE)"
    by (auto simp: in_frames_def marks_def frames_ok_def frames_wf_def)
qed

text \<open>What \<open>allocate\<close> returns on the frames of the heap.\<close>

lemma allocate_window:
  assumes "frames_ok m"
  obtains (some) f m' where "allocate m n = Ok (f, m')" and "0 < f" and "window_free m f n" and "marks m {f..<f + n} True m'"
  | (none) e where "allocate m n = Err e" and "\<forall>g\<ge>frame_begin m. \<not> window_free m g n"
proof -
  have "allocate_result m n (allocate m n)" using assms by (intro allocate_spec) (simp add: frames_ok_def)
  then show ?thesis
    using assms some none by (cases "allocate m n") (auto simp: allocate_result_def frames_ok_def)
qed

lemma window_virt_addr:
  assumes "frames_ok m" and "window_free m f n" and "0 < n"
  shows "as_virt_addr (frame_phys_addr f) = Some (f * FRAME_SIZE)" and "f * FRAME_SIZE + n * FRAME_SIZE \<le> 2 ^ 36"
proof -
  have "f < frame_end m" using assms(2,3) by (auto simp: window_free_def dest: spec [of _ 0])
  then have "f < 2 ^ 24" using assms(1) by (auto simp: frames_ok_def)
  then show "as_virt_addr (frame_phys_addr f) = Some (f * FRAME_SIZE)"
    by (simp add: as_virt_addr_def frame_phys_addr_def FRAME_SIZE_def SIZE_1GIB_def)
  have "f + (n - 1) < frame_end m" using assms(2,3) by (auto simp: window_free_def dest: spec [of _ "n - 1"])
  then have "f + n \<le> 2 ^ 24" using assms(1,3) by (auto simp: frames_ok_def)
  then show "f * FRAME_SIZE + n * FRAME_SIZE \<le> 2 ^ 36" by (simp add: FRAME_SIZE_def)
qed

text \<open>New regions in frames that were free.\<close>

lemma heap_inv_frames:
  assumes inv: "heap_inv h live fo fl" and w: "window_free (heap_frames h) f n" and m: "marks (heap_frames h) {f..<f + n} True m'"
    and n: "0 < n"
  shows "frames_ok m'" and "\<forall>r\<in>#heap_regions fl live fo. in_frames m' r" and "in_frames m' (window f n)"
    and "\<forall>r\<in>#heap_regions fl live fo. regions_apart (window f n) r"
proof -
  have ok: "frames_ok (heap_frames h)" and r: "\<forall>r\<in>#heap_regions fl live fo. in_frames (heap_frames h) r"
    using inv by (auto simp: heap_inv_def)
  show "frames_ok m'" using frames_ok_marks [OF ok m] .
  show "\<forall>r\<in>#heap_regions fl live fo. in_frames m' r" using r in_frames_marks [OF _ m ok] by blast
  show "in_frames m' (window f n)" using window_marked [OF w m n ok] .
  show "\<forall>r\<in>#heap_regions fl live fo. regions_apart (window f n) r" using r free_window_apart [OF _ w n] by blast
qed

lemma heap_inv_take_frames:
  assumes inv: "heap_inv h live fo fl" and mode: "allocation_mode sz al = FrameMode n" and n: "0 < n" and sz: "0 < sz"
    and w: "window_free (heap_frames h) f n" and f: "0 < f" and m: "marks (heap_frames h) {f..<f + n} True m'"
  shows "heap_inv (h\<lparr>heap_frames := m'\<rparr>) ((f * FRAME_SIZE, sz, al) # live) fo fl"
proof -
  note a = heap_inv_frames [OF inv w m n]
  have reg: "heap_regions fl ((f * FRAME_SIZE, sz, al) # live) fo = add_mset (window f n) (heap_regions fl live fo)"
    using mode by (simp add: heap_regions_def live_regions_def footprint_def window_def)
  have "grain sz al dvd f * FRAME_SIZE" using mode by (simp add: grain_def)
  moreover have "0 < f * FRAME_SIZE" using f by (simp add: FRAME_SIZE_def)
  ultimately show ?thesis using inv a sz unfolding heap_inv_def reg by simp
qed

lemma heap_inv_give_frames:
  assumes inv: "heap_inv h live fo fl" and mode: "allocation_mode sz al = FrameMode n" and n: "0 < n"
    and l: "(f * FRAME_SIZE, sz, al) \<in> set live" and m: "marks (heap_frames h) {f..<f + n} False m'"
  shows "heap_inv (h\<lparr>heap_frames := m'\<rparr>) (remove1 (f * FRAME_SIZE, sz, al) live) fo fl"
proof -
  note i = inv [unfolded heap_inv_def]
  let ?live = "remove1 (f * FRAME_SIZE, sz, al) live"
  have reg: "heap_regions fl live fo = add_mset (window f n) (heap_regions fl ?live fo)"
    using live_regions_remove [OF l] mode by (simp add: heap_regions_def footprint_def window_def)
  have "frames_ok m'" using i frames_ok_marks [OF _ m] by blast
  moreover have "in_frames m' r" if "r \<in># heap_regions fl ?live fo" for r
    using i that n unfolding reg by (intro in_frames_freed [OF _ m]) auto
  moreover have "\<forall>(q, n, a)\<in>set ?live. 0 < q \<and> 0 < n \<and> grain n a dvd q" using i set_remove1_subset by fast
  ultimately show ?thesis using i unfolding reg by (simp add: heap_inv_def)
qed

text \<open>Others take frames and give them back.\<close>

lemma heap_inv_foreign:
  assumes inv: "heap_inv h live fo fl" and n: "0 < n"
    and w: "window_free (heap_frames h) f n" and m: "marks (heap_frames h) {f..<f + n} True m'"
  shows "heap_inv (h\<lparr>heap_frames := m'\<rparr>) live ((f, n) # fo) fl"
proof -
  have reg: "heap_regions fl live ((f, n) # fo) = add_mset (window f n) (heap_regions fl live fo)"
    by (simp add: heap_regions_def foreign_regions_def)
  show ?thesis using inv heap_inv_frames [OF inv w m n] unfolding heap_inv_def reg by simp
qed

lemma heap_inv_foreign_free:
  assumes inv: "heap_inv h live fo fl" and l: "(f, n) \<in> set fo" and m: "marks (heap_frames h) {f..<f + n} False m'"
  shows "heap_inv (h\<lparr>heap_frames := m'\<rparr>) live (remove1 (f, n) fo) fl"
proof -
  note i = inv [unfolded heap_inv_def]
  have "mset fo = add_mset (f, n) (mset (remove1 (f, n) fo))" using l by simp
  then have "foreign_regions fo = add_mset (window f n) (foreign_regions (remove1 (f, n) fo))"
    by (simp only: foreign_regions_def image_mset_add_mset case_prod_conv)
  then have reg: "heap_regions fl live fo = add_mset (window f n) (heap_regions fl live (remove1 (f, n) fo))"
    by (simp add: heap_regions_def)
  have n: "0 < n" using i unfolding reg by (auto simp: in_frames_def window_def)
  have "frames_ok m'" using i frames_ok_marks [OF _ m] by blast
  moreover have "in_frames m' r" if "r \<in># heap_regions fl live (remove1 (f, n) fo)" for r
    using i that n unfolding reg by (intro in_frames_freed [OF _ m]) auto
  ultimately show ?thesis using i unfolding reg by (simp add: heap_inv_def)
qed

section \<open>Blocks in a new frame\<close>

lemma sub_apart:
  "regions_apart r s \<Longrightarrow> fst r \<le> fst r' \<Longrightarrow> fst r' + snd r' \<le> fst r + snd r \<Longrightarrow> regions_apart r' s"
  by (auto simp: regions_apart_def apart_def)

lemma sub_in_frames:
  "in_frames m r \<Longrightarrow> fst r \<le> fst r' \<Longrightarrow> fst r' + snd r' \<le> fst r + snd r \<Longrightarrow> 0 < snd r' \<Longrightarrow> in_frames m r'"
  by (simp add: in_frames_def)

lemma all_apart_blocks: "all_apart (image_mset (\<lambda>i. (p + i * bs, bs)) (mset [0..<n]))"
proof (induction n)
  case (Suc n)
  have "regions_apart (p + n * bs, bs) (p + i * bs, bs)" if "i < n" for i
    using block_end [OF that, of bs] by (simp add: regions_apart_def apart_def)
  with Suc show ?case by auto
qed simp

definition frame_blocks :: "nat \<Rightarrow> nat \<Rightarrow> nat list" where
  "frame_blocks p k = map (\<lambda>i. p + i * BLOCK_SIZES ! k) [0..<FRAME_SIZE div BLOCK_SIZES ! k]"

lemma frame_blocks_inside:
  assumes "k < 9" and "q \<in> set (frame_blocks p k)"
  shows "p \<le> q" and "q + BLOCK_SIZES ! k \<le> p + FRAME_SIZE" and "BLOCK_SIZES ! k dvd p \<Longrightarrow> BLOCK_SIZES ! k dvd q"
proof -
  have "\<exists>i. q = p + i * BLOCK_SIZES ! k \<and> i < FRAME_SIZE div BLOCK_SIZES ! k"
    using assms(2) by (auto simp: frame_blocks_def)
  then obtain i where i: "q = p + i * BLOCK_SIZES ! k" "i < FRAME_SIZE div BLOCK_SIZES ! k" by blast
  then show "p \<le> q" "BLOCK_SIZES ! k dvd p \<Longrightarrow> BLOCK_SIZES ! k dvd q" by auto
  have "i * BLOCK_SIZES ! k + BLOCK_SIZES ! k \<le> FRAME_SIZE div BLOCK_SIZES ! k * BLOCK_SIZES ! k"
    by (rule block_end [OF i(2)])
  then show "q + BLOCK_SIZES ! k \<le> p + FRAME_SIZE" using i(1) block_size_range(2) [OF assms(1)] by simp
qed

text \<open>Linking the blocks of a frame touches nothing outside the frame.\<close>

lemma link_frame_other:
  assumes "k < 9" and "x < p \<or> p + FRAME_SIZE \<le> x"
  shows "link_blocks p (BLOCK_SIZES ! k) n [0..<FRAME_SIZE div BLOCK_SIZES ! k] mem x = mem x"
proof (rule link_blocks_other, intro ballI)
  fix i assume "i \<in> set [0..<FRAME_SIZE div BLOCK_SIZES ! k]"
  then have "p + i * BLOCK_SIZES ! k \<in> set (frame_blocks p k)" by (auto simp: frame_blocks_def)
  from frame_blocks_inside(1,2) [OF assms(1) this] show "x < p + i * BLOCK_SIZES ! k \<or> p + i * BLOCK_SIZES ! k + 8 \<le> x"
    using assms block_size_range(1) [OF assms(1)] by auto
qed

lemma heap_inv_refill:
  assumes inv: "heap_inv h live fo fl" and k: "k < 9" and fl: "fl ! k = []" and f: "0 < f"
    and w: "window_free (heap_frames h) f 1" and m: "marks (heap_frames h) {f..<f + 1} True m'"
  shows "heap_inv (h\<lparr>heap_frames := m', heap_mem := link_blocks (f * FRAME_SIZE) (BLOCK_SIZES ! k) (FRAME_SIZE div BLOCK_SIZES ! k)
      [0..<FRAME_SIZE div BLOCK_SIZES ! k] (heap_mem h), available_blocks := (available_blocks h)[k := f * FRAME_SIZE]\<rparr>)
    live fo (fl[k := frame_blocks (f * FRAME_SIZE) k])"
proof -
  note i = inv [unfolded heap_inv_def]
  let ?p = "f * FRAME_SIZE" and ?bs = "BLOCK_SIZES ! k" and ?n = "FRAME_SIZE div BLOCK_SIZES ! k"
  let ?mem = "link_blocks ?p ?bs ?n [0..<?n] (heap_mem h)"
  note a = heap_inv_frames [OF inv w m, simplified]
  note bs = block_size_range [OF k]
  have win: "window f (Suc 0) = (?p, FRAME_SIZE)" by (simp add: window_def)
  define R where "R = image_mset (\<lambda>q. (q, ?bs)) (mset (frame_blocks ?p k))"
  have reg: "heap_regions (fl[k := frame_blocks ?p k]) live fo = R + heap_regions fl live fo"
    using free_regions_update [OF k, of fl "frame_blocks ?p k"] i fl by (simp add: heap_regions_def R_def)
  have sub: "?p \<le> fst r \<and> fst r + snd r \<le> ?p + FRAME_SIZE \<and> 0 < snd r" if "r \<in># R" for r
    using that frame_blocks_inside(1,2) [OF k] bs(1) by (auto simp: R_def)
  have "in_frames m' r" if "r \<in># R" for r
    using sub_in_frames [OF a(3), of r] sub [OF that] win by simp
  moreover have "regions_apart r s" if "r \<in># R" "s \<in># heap_regions fl live fo" for r s
    using sub_apart [of "window f (Suc 0)" s r] a(4) that sub [OF that(1)] win by simp
  moreover have "all_apart R" using all_apart_blocks [of ?p ?bs ?n] by (simp add: R_def frame_blocks_def image_mset.compositionality comp_def)
  moreover have "chain ?mem ((available_blocks h)[k := ?p] ! j) (fl[k := frame_blocks ?p k] ! j)
      \<and> (\<forall>q\<in>set (fl[k := frame_blocks ?p k] ! j). BLOCK_SIZES ! j dvd q)" if j: "j < 9" for j
  proof (cases "j = k")
    case True
    have "?bs \<le> FRAME_SIZE" using dvd_imp_le [OF bs(2)] by (simp add: FRAME_SIZE_def)
    moreover have "(?n + 1) * ?bs = FRAME_SIZE + ?bs" using bs(2) by (simp add: add_mult_distrib)
    moreover have "?p + FRAME_SIZE \<le> 2 ^ 36" using window_virt_addr(2) [OF _ w] i by simp
    ultimately have "?p + (?n + 1) * ?bs < 2 ^ 64" by (simp add: FRAME_SIZE_def)
    then have "chain ?mem (?p + 0 * ?bs) (frame_blocks ?p k)"
      unfolding frame_blocks_def by (intro chain_blocks) (use bs f in \<open>auto simp: FRAME_SIZE_def\<close>)
    moreover have "?bs dvd ?p" using bs(2) by simp
    ultimately show ?thesis using True i k frame_blocks_inside(3) [OF k] by auto
  next
    case False
    have "read_ptr ?mem q = read_ptr (heap_mem h) q" if q: "q \<in> set (fl ! j)" for q
    proof -
      have "regions_apart (window f (Suc 0)) (q, BLOCK_SIZES ! j)"
        using a(4) free_region_in [OF j q] by (auto simp: heap_regions_def)
      then have "x < ?p \<or> ?p + FRAME_SIZE \<le> x" if "q \<le> x" "x < q + 8" for x
        using that block_size_range(1) [OF j] by (auto simp: win regions_apart_def apart_def)
      then have "mem_read ?mem q 8 = mem_read (heap_mem h) q 8" using link_frame_other [OF k] by (auto simp: mem_read_def)
      then show ?thesis by (simp add: read_ptr_def)
    qed
    then have "chain ?mem (available_blocks h ! j) (fl ! j) = chain (heap_mem h) (available_blocks h ! j) (fl ! j)" by (rule chain_cong)
    with i j False show ?thesis by simp
  qed
  ultimately show ?thesis using i a unfolding heap_inv_def reg by (auto simp: all_apart_union)
qed

section \<open>Allocating and deallocating\<close>

text \<open>The bytes of the allocations are the same in both heaps.\<close>

definition untouched :: "allocation list \<Rightarrow> kernel_heap \<Rightarrow> kernel_heap \<Rightarrow> bool" where
  "untouched live h h' \<longleftrightarrow> (\<forall>(p, sz, al)\<in>set live. \<forall>x. p \<le> x \<and> x < p + sz \<longrightarrow> heap_mem h' x = heap_mem h x)"

definition frames_needed :: "nat \<Rightarrow> nat \<Rightarrow> nat" where
  "frames_needed sz al = (case allocation_mode sz al of BlockMode k \<Rightarrow> 1 | FrameMode n \<Rightarrow> n)"

definition kalloc_result :: "nat \<Rightarrow> nat \<Rightarrow> kernel_heap \<Rightarrow> allocation list \<Rightarrow> (nat \<times> nat) list \<Rightarrow> nat \<Rightarrow> kernel_heap \<Rightarrow> bool" where
  "kalloc_result sz al h live fo p h' \<longleftrightarrow> untouched live h h' \<and>
     (if p = 0 then h' = h \<and> (\<forall>g\<ge>frame_begin (heap_frames h). \<not> window_free (heap_frames h) g (frames_needed sz al))
      else \<exists>fl. heap_inv h' ((p, sz, al) # live) fo fl)"

lemma untouched_refl [simp]: "untouched live h (h\<lparr>available_blocks := a\<rparr>)" "untouched live h (h\<lparr>heap_frames := m\<rparr>)" "untouched live h h"
  by (simp_all add: untouched_def)

lemma untouched_refill:
  assumes inv: "heap_inv h live fo fl" and w: "window_free (heap_frames h) f 1" and k: "k < 9"
    and mem: "heap_mem h' = link_blocks (f * FRAME_SIZE) (BLOCK_SIZES ! k) n [0..<FRAME_SIZE div BLOCK_SIZES ! k] (heap_mem h)"
  shows "untouched live h h'"
  unfolding untouched_def
proof (safe)
  fix p sz al x assume l: "(p, sz, al) \<in> set live" and x: "p \<le> x" "x < p + sz"
  have "in_frames (heap_frames h) (p, footprint sz al)"
    using inv live_region_in [OF l] by (auto simp: heap_inv_def heap_regions_def)
  from free_window_apart [OF this w] have "x < f * FRAME_SIZE \<or> f * FRAME_SIZE + FRAME_SIZE \<le> x"
    using x footprint_size [of sz al] by (auto simp: regions_apart_def apart_def window_def)
  then show "heap_mem h' x = heap_mem h x" unfolding mem by (rule link_frame_other [OF k])
qed

lemma kalloc_block:
  assumes inv: "heap_inv h live fo fl" and mode: "allocation_mode sz al = BlockMode k" and k: "k < 9" and sz: "0 < sz"
  shows "\<exists>p h'. kalloc sz al h = Ok (p, h') \<and> kalloc_result sz al h live fo p h'"
proof (cases "available_blocks h ! k = 0")
  case False
  then obtain ps where ps: "fl ! k = available_blocks h ! k # ps" using heap_inv_head(2) [OF inv k] by blast
  note t = heap_inv_take [OF inv k ps mode sz]
  with False show ?thesis unfolding kalloc_def mode by (auto simp: kalloc_result_def Let_def)
next
  case True
  then have fl: "fl ! k = []" using heap_inv_head(1) [OF inv k] by blast
  have ok: "frames_ok (heap_frames h)" and len: "length (available_blocks h) = 9" "length fl = 9" using inv by (auto simp: heap_inv_def)
  show ?thesis
    using ok
  proof (cases rule: allocate_window [where n = 1])
    case (some f m')
    let ?p = "f * FRAME_SIZE" and ?bs = "BLOCK_SIZES ! k" and ?n = "FRAME_SIZE div BLOCK_SIZES ! k"
    define h1 where "h1 = h\<lparr>heap_frames := m', heap_mem := link_blocks ?p ?bs ?n [0..<?n] (heap_mem h)\<rparr>"
    have "allocate_frame_for_block k h = Ok (?p, h1)"
      using some(1) window_virt_addr(1) [OF ok some(3)] by (simp add: allocate_frame_for_block_def Let_def h1_def)
    then have r: "kalloc sz al h = Ok (?p, h1\<lparr>available_blocks := (available_blocks h)[k := read_ptr (heap_mem h1) ?p]\<rparr>)"
      using True mode some(2) by (simp add: kalloc_def Let_def FRAME_SIZE_def) (simp add: h1_def)
    have "heap_inv (h1\<lparr>available_blocks := (available_blocks h)[k := ?p]\<rparr>) live fo (fl[k := frame_blocks ?p k])"
      using heap_inv_refill [OF inv k fl some(2-4)] by (simp add: h1_def)
    moreover have "fl[k := frame_blocks ?p k] ! k = ?p # tl (frame_blocks ?p k)"
      using len k block_size_range(3) [OF k] by (simp add: frame_blocks_def upt_conv_Cons)
    ultimately have "heap_inv (h1\<lparr>available_blocks := (available_blocks h)[k := read_ptr (heap_mem h1) ?p]\<rparr>)
        ((?p, sz, al) # live) fo (fl[k := frame_blocks ?p k, k := tl (frame_blocks ?p k)])"
      using heap_inv_take [OF _ k _ mode sz, of "h1\<lparr>available_blocks := (available_blocks h)[k := ?p]\<rparr>"] by fastforce
    moreover have "untouched live h (h1\<lparr>available_blocks := (available_blocks h)[k := read_ptr (heap_mem h1) ?p]\<rparr>)"
      by (rule untouched_refill [OF inv some(3) k]) (simp add: h1_def)
    ultimately show ?thesis using r some(2) by (auto simp: kalloc_result_def FRAME_SIZE_def)
  next
    case (none e)
    with True mode show ?thesis
      by (simp add: kalloc_def allocate_frame_for_block_def kalloc_result_def frames_needed_def Let_def)
  qed
qed

lemma kalloc_frames:
  assumes inv: "heap_inv h live fo fl" and mode: "allocation_mode sz al = FrameMode n" and n: "0 < n" and sz: "0 < sz"
  shows "\<exists>p h'. kalloc sz al h = Ok (p, h') \<and> kalloc_result sz al h live fo p h'"
proof -
  have ok: "frames_ok (heap_frames h)" using inv by (simp add: heap_inv_def)
  then show ?thesis
  proof (cases rule: allocate_window [where n = n])
    case (some f m')
    have "kalloc sz al h = Ok (f * FRAME_SIZE, h\<lparr>heap_frames := m'\<rparr>)"
      using some(1) mode window_virt_addr(1) [OF ok some(3) n] by (simp add: kalloc_def)
    moreover have "f * FRAME_SIZE \<noteq> 0" using some(2) by (simp add: FRAME_SIZE_def)
    ultimately show ?thesis
      using heap_inv_take_frames [OF inv mode n sz some(3,2,4)] by (auto simp: kalloc_result_def)
  next
    case (none e)
    with mode show ?thesis by (simp add: kalloc_def kalloc_result_def frames_needed_def)
  qed
qed

lemma kalloc_ok:
  assumes "heap_inv h live fo fl" and "0 < sz"
  shows "\<exists>p h'. kalloc sz al h = Ok (p, h') \<and> kalloc_result sz al h live fo p h'"
  by (rule allocation_mode_cases [of sz al]) (use kalloc_block [OF assms(1)] kalloc_frames [OF assms(1)] assms(2) in blast)+

lemma live_apart:
  assumes inv: "heap_inv h live fo fl" and l: "(p, sz, al) \<in> set live" and m: "(q, n, a) \<in> set (remove1 (p, sz, al) live)"
  shows "apart p (footprint sz al) q (footprint n a)"
proof -
  have "all_apart (live_regions live)" using inv by (simp add: heap_inv_def heap_regions_def all_apart_union)
  then have "regions_apart (p, footprint sz al) (q, footprint n a)"
    unfolding live_regions_remove [OF l] using live_region_in [OF m] by simp
  then show ?thesis by (simp add: regions_apart_def)
qed

lemma untouched_give:
  assumes inv: "heap_inv h live fo fl" and l: "(p, sz, al) \<in> set live" and mode: "allocation_mode sz al = BlockMode k" and k: "k < 9"
  shows "untouched (remove1 (p, sz, al) live) h (h\<lparr>heap_mem := write_ptr p v (heap_mem h), available_blocks := b\<rparr>)"
  unfolding untouched_def
proof safe
  fix q n a x assume m: "(q, n, a) \<in> set (remove1 (p, sz, al) live)" and x: "q \<le> x" "x < q + n"
  have "8 \<le> footprint sz al" using mode block_size_range(1) [OF k] by (simp add: footprint_def)
  with live_apart [OF inv l m] footprint_size [of n a] x have "x < p \<or> p + 8 \<le> x" by (auto simp: apart_def)
  then show "heap_mem (h\<lparr>heap_mem := write_ptr p v (heap_mem h), available_blocks := b\<rparr>) x = heap_mem h x"
    by (auto simp: write_ptr_def mem_write_def)
qed

lemma kdealloc_ok:
  assumes inv: "heap_inv h live fo fl" and l: "(p, sz, al) \<in> set live"
  shows "\<exists>h' fl'. kdealloc p sz al h = Ok h' \<and> heap_inv h' (remove1 (p, sz, al) live) fo fl' \<and> untouched (remove1 (p, sz, al) live) h h'"
proof (rule allocation_mode_cases [of sz al])
  fix k assume k: "allocation_mode sz al = BlockMode k" "k < 9"
  with heap_inv_give [OF inv l k] untouched_give [OF inv l k]
  show ?thesis by (auto simp: kdealloc_def Let_def)
next
  fix n assume n: "allocation_mode sz al = FrameMode n" "0 < n"
  have fr: "in_frames (heap_frames h) (p, n * FRAME_SIZE)" "frames_ok (heap_frames h)" "FRAME_SIZE dvd p"
    using inv l live_region_in [OF l] n by (auto simp: heap_inv_def heap_regions_def footprint_def grain_def)
  obtain f where f: "p = f * FRAME_SIZE" using dvd_div_mult_self [OF fr(3)] by metis
  note in_f = window_frames [of "heap_frames h" f n, unfolded window_def f [symmetric], OF fr(1)]
  have "f < 2 ^ 24" using in_f [of f] n(2) fr(2) by (auto simp: frames_ok_def)
  then have phys: "as_phys_addr p = Some p" "frame_from_phys_addr p = f"
    using f by (simp_all add: as_phys_addr_def SIZE_1GIB_def FRAME_SIZE_def frame_from_phys_addr_def)
  have "f + i < capacity (heap_frames h)" if "i < n" for i
    using in_f [of "f + i"] that fr(2) by (simp add: frames_ok_def frames_wf_def)
  then have "\<forall>i<n. f + i < capacity (heap_frames h)" by blast
  then obtain m' where m': "free_frames (heap_frames h) f n = Ok m'" "marks (heap_frames h) {f..<f + n} False m'"
    by (rule free_frames_Ok)
  with heap_inv_give_frames [OF inv n(1,2), of f m'] l f phys n show ?thesis by (auto simp: kdealloc_def)
qed

section \<open>The heap in use\<close>

text \<open>
  From the start, with the frames of a memory map below 64 GiB: allocations of any layout, their deallocation,
  writes of a client into an allocation of its own, and frames that others take and give back.
\<close>

inductive heap_run :: "mem_descriptor list \<Rightarrow> kernel_heap \<Rightarrow> allocation list \<Rightarrow> (nat \<times> nat) list \<Rightarrow> bool" for ds where
  start: "initialize_frames new_frame_manager ds = Ok m \<Longrightarrow> frame_end m \<le> 2 ^ 24 \<Longrightarrow> heap_run ds (new_heap m mem) [] []"
| alloc: "heap_run ds h live fo \<Longrightarrow> 0 < sz \<Longrightarrow> al = 2 ^ j \<Longrightarrow> kalloc sz al h = Ok (p, h') \<Longrightarrow>
    heap_run ds h' (if p = 0 then live else (p, sz, al) # live) fo"
| dealloc: "heap_run ds h live fo \<Longrightarrow> (p, sz, al) \<in> set live \<Longrightarrow> kdealloc p sz al h = Ok h' \<Longrightarrow>
    heap_run ds h' (remove1 (p, sz, al) live) fo"
| client: "heap_run ds h live fo \<Longrightarrow> (p, sz, al) \<in> set live \<Longrightarrow> p \<le> a \<Longrightarrow> a + length bs \<le> p + sz \<Longrightarrow>
    heap_run ds (h\<lparr>heap_mem := mem_write a bs (heap_mem h)\<rparr>) live fo"
| foreign: "heap_run ds h live fo \<Longrightarrow> 0 < n \<Longrightarrow> allocate (heap_frames h) n = Ok (f, m) \<Longrightarrow>
    heap_run ds (h\<lparr>heap_frames := m\<rparr>) live ((f, n) # fo)"
| foreign_free: "heap_run ds h live fo \<Longrightarrow> (f, n) \<in> set fo \<Longrightarrow> free_frames (heap_frames h) f n = Ok m \<Longrightarrow>
    heap_run ds (h\<lparr>heap_frames := m\<rparr>) live (remove1 (f, n) fo)"

lemma heap_inv_new:
  assumes "frames_ok m"
  shows "heap_inv (new_heap m mem) [] [] (replicate 9 [])"
proof -
  have "free_regions (replicate 9 []) = {#}" by (simp add: free_regions_def)
  then show ?thesis using assms by (simp add: heap_inv_def new_heap_def heap_regions_def live_regions_def foreign_regions_def)
qed

lemma foreign_in_capacity:
  assumes inv: "heap_inv h live fo fl" and l: "(f, n) \<in> set fo"
  shows "\<forall>i<n. f + i < capacity (heap_frames h)"
proof (intro allI impI)
  fix i assume i: "i < n"
  have "window f n \<in># heap_regions fl live fo" using l by (force simp: heap_regions_def foreign_regions_def)
  then have "in_frames (heap_frames h) (window f n)" "frames_ok (heap_frames h)" using inv by (auto simp: heap_inv_def)
  then have "f + i < frame_end (heap_frames h)" "frames_ok (heap_frames h)"
    using window_frames [of "heap_frames h" f n "f + i"] i by auto
  then show "f + i < capacity (heap_frames h)" by (simp add: frames_ok_def frames_wf_def)
qed

lemma heap_run_inv:
  assumes "heap_run ds h live fo" and "valid_memory_map 0 ds"
  shows "\<exists>fl. heap_inv h live fo fl"
  using assms(1)
proof induction
  case (start m mem)
  obtain m0 where "initialize_frames new_frame_manager ds = Ok m0" "frames_wf m0" "frame_begin m0 = FRAME_MIN"
    using initialize_spec [OF assms(2)] by blast
  with start have "frames_ok m" by (simp add: frames_ok_def FRAME_MIN_def)
  then show ?case using heap_inv_new by blast
next
  case (alloc h live fo sz al j p h')
  then obtain fl where fl: "heap_inv h live fo fl" by blast
  from kalloc_ok [OF this alloc(2), of al] alloc(4) have "kalloc_result sz al h live fo p h'" by auto
  with fl show ?case by (cases "p = 0") (auto simp: kalloc_result_def)
next
  case (dealloc h live fo p sz al h')
  then obtain fl where fl: "heap_inv h live fo fl" by blast
  from kdealloc_ok [OF fl dealloc(2)] dealloc(3) show ?case by auto
next
  case (client h live fo p sz al a bs)
  then obtain fl where fl: "heap_inv h live fo fl" by blast
  from heap_inv_write [OF fl client(2-4)] show ?case by blast
next
  case (foreign h live fo n f m)
  then obtain fl where fl: "heap_inv h live fo fl" by blast
  then have "frames_wf (heap_frames h)" by (simp add: heap_inv_def frames_ok_def)
  from allocate_Ok(2,3) [OF this foreign(3)] heap_inv_foreign [OF fl foreign(2)] show ?case by blast
next
  case (foreign_free h live fo f n m)
  then obtain fl where fl: "heap_inv h live fo fl" by blast
  from free_frames_Ok [OF foreign_in_capacity [OF fl foreign_free(2)]] obtain m' where
    "free_frames (heap_frames h) f n = Ok m'" "marks (heap_frames h) {f..<f + n} False m'" by blast
  with heap_inv_foreign_free [OF fl foreign_free(2)] foreign_free(3) show ?case by auto
qed

lemma heap_run_power: "heap_run ds h live fo \<Longrightarrow> (p, sz, al) \<in> set live \<Longrightarrow> \<exists>j. al = 2 ^ j"
  by (induction rule: heap_run.induct) (auto split: if_splits dest: set_remove1_subset [THEN subsetD])

lemma all_apart_sorted: "all_apart (mset rs) \<Longrightarrow> sorted_wrt regions_apart rs"
  by (induction rs) auto


text \<open>A block and two frames on the memory of the sample map.\<close>

lemma sample_modes: "allocation_mode 24 (2 ^ 3) = BlockMode 2" "allocation_mode 5000 (2 ^ 12) = FrameMode 2"
  by (simp_all add: allocation_mode_def BLOCK_SIZES_def FRAME_SIZE_def)

lemma sample_start:
  obtains m where "heap_run sample_memory_map (new_heap m (\<lambda>_. 0)) [] []" and "frames_wf m" and "frame_begin m = 1"
    and "\<forall>f. 2 \<le> f \<and> f < 16 \<longrightarrow> f < frame_end m \<and> \<not> allocated m f"
proof -
  obtain m where m: "initialize_frames new_frame_manager sample_memory_map = Ok m" "frames_wf m" "frame_begin m = FRAME_MIN"
    "\<forall>f < frame_end m. allocated m f \<longleftrightarrow> \<not> frame_available sample_memory_map f"
    "\<forall>f. frame_available sample_memory_map f \<longrightarrow> f < frame_end m"
    by (rule initialize_spec [OF sample_memory_map_valid])
  have "frame_end m = 16"
    using m(1) by (auto simp: initialize_frames_def sample_memory_map_def set_memory_range_def frame_from_phys_addr_def FRAME_SIZE_def)
  then have "heap_run sample_memory_map (new_heap m (\<lambda>_. 0)) [] []" using m(1) by (intro heap_run.start) simp_all
  moreover have "frame_available sample_memory_map f" if "2 \<le> f" "f < 16" for f
    using that by (simp add: frame_available_def sample_memory_map_def frame_phys_addr_def FRAME_SIZE_def)
  ultimately show ?thesis using that m by (simp add: FRAME_MIN_def)
qed


end
