(* ===== verification/Unicode.thy ===== *)
theory Unicode
  imports Ors_Prelude
begin

text \<open>
  Rust's \<open>char\<close> and \<open>str\<close>, as far as the kernel uses them: a character is a Unicode scalar value,
  given by its number, and a string is a list of characters. \<open>str::len\<close> counts the bytes of the
  UTF-8 encoding; \<open>str::encode_utf16\<close> and \<open>String::from_utf16_lossy\<close> convert to and from UTF-16.
\<close>

type_synonym rchar = nat
type_synonym rstring = "nat list"

definition is_scalar :: "rchar \<Rightarrow> bool" where
  "is_scalar c \<longleftrightarrow> c < 0xD800 \<or> (0xE000 \<le> c \<and> c < 0x110000)"

definition utf8_len :: "rchar \<Rightarrow> nat" where
  "utf8_len c = (if c < 0x80 then 1 else if c < 0x800 then 2 else if c < 0x10000 then 3 else 4)"

definition str_len :: "rstring \<Rightarrow> nat" where
  "str_len s = sum_list (map utf8_len s)"

definition REPLACEMENT :: rchar where
  "REPLACEMENT = 0xFFFD"

section \<open>ASCII\<close>

definition is_ascii_lowercase :: "rchar \<Rightarrow> bool" where
  "is_ascii_lowercase c \<longleftrightarrow> 97 \<le> c \<and> c \<le> 122"

definition is_ascii_uppercase :: "rchar \<Rightarrow> bool" where
  "is_ascii_uppercase c \<longleftrightarrow> 65 \<le> c \<and> c \<le> 90"

definition to_ascii_uppercase :: "rchar \<Rightarrow> rchar" where
  "to_ascii_uppercase c = (if is_ascii_lowercase c then c - 32 else c)"

text \<open>String literals of the source.\<close>

definition str_of :: "string \<Rightarrow> rstring" where
  "str_of s = map of_char s"

section \<open>UTF-16\<close>

definition encode_utf16_char :: "rchar \<Rightarrow> u16 list" where
  "encode_utf16_char c =
     (if c < 0x10000 then [word_of_nat c]
      else [word_of_nat (0xD800 + (c - 0x10000) div 0x400), word_of_nat (0xDC00 + (c - 0x10000) mod 0x400)])"

definition encode_utf16 :: "rstring \<Rightarrow> u16 list" where
  "encode_utf16 s = concat (map encode_utf16_char s)"

definition is_high_surrogate :: "u16 \<Rightarrow> bool" where
  "is_high_surrogate u \<longleftrightarrow> 0xD800 \<le> unat u \<and> unat u < 0xDC00"

definition is_low_surrogate :: "u16 \<Rightarrow> bool" where
  "is_low_surrogate u \<longleftrightarrow> 0xDC00 \<le> unat u \<and> unat u < 0xE000"

text \<open>An unpaired surrogate is replaced, and decoding goes on with the unit behind it.\<close>

fun from_utf16_lossy :: "u16 list \<Rightarrow> rstring" where
  "from_utf16_lossy [] = []"
| "from_utf16_lossy [u] =
     (if is_high_surrogate u \<or> is_low_surrogate u then [REPLACEMENT] else [unat u])"
| "from_utf16_lossy (u # v # us) =
     (if is_high_surrogate u then
        if is_low_surrogate v
        then (0x10000 + (unat u - 0xD800) * 0x400 + (unat v - 0xDC00)) # from_utf16_lossy us
        else REPLACEMENT # from_utf16_lossy (v # us)
      else if is_low_surrogate u then REPLACEMENT # from_utf16_lossy (v # us)
      else unat u # from_utf16_lossy (v # us))"

lemma from_utf16_plain:
  assumes "\<not> is_high_surrogate u" and "\<not> is_low_surrogate u"
  shows "from_utf16_lossy (u # us) = unat u # from_utf16_lossy us"
  using assms by (cases us) simp_all

lemma from_utf16_encode_char:
  assumes "is_scalar c"
  shows "from_utf16_lossy (encode_utf16_char c @ us) = c # from_utf16_lossy us"
proof (cases "c < 0x10000")
  case True
  then have "unat (word_of_nat c :: u16) = c" by (simp add: unat_of_nat)
  with True assms show ?thesis
    by (auto simp: encode_utf16_char_def from_utf16_plain is_high_surrogate_def is_low_surrogate_def is_scalar_def)
next
  case False
  define q r where "q = (c - 0x10000) div 0x400" and "r = (c - 0x10000) mod 0x400"
  have c: "c < 0x110000" using assms False by (auto simp: is_scalar_def)
  then have "c - 0x10000 < 0x400 * 0x400" using False by simp
  then have q: "q < 0x400" by (simp add: q_def div_less_iff_less_mult)
  have r: "r < 0x400" by (simp add: r_def)
  have "c - 0x10000 = q * 0x400 + r" by (simp add: q_def r_def)
  then have eq: "c = 0x10000 + q * 0x400 + r" using False by simp
  have "unat (word_of_nat n :: u16) = n" if "n < 65536" for n using that by (simp add: unat_of_nat)
  from this [of "0xD800 + q"] this [of "0xDC00 + r"] q r
  have u: "unat (word_of_nat (0xD800 + q) :: u16) = 0xD800 + q" "unat (word_of_nat (0xDC00 + r) :: u16) = 0xDC00 + r"
    by linarith+
  have "encode_utf16_char c = [word_of_nat (0xD800 + q), word_of_nat (0xDC00 + r)]"
    using False by (simp add: encode_utf16_char_def q_def r_def)
  then show ?thesis
    using q r by (simp only: append.simps from_utf16_lossy.simps is_high_surrogate_def is_low_surrogate_def u) (simp add: eq)
qed

lemma from_utf16_encode:
  assumes "\<forall>c \<in> set s. is_scalar c"
  shows "from_utf16_lossy (encode_utf16 s) = s"
  using assms by (induction s) (simp_all add: encode_utf16_def from_utf16_encode_char)

lemma encode_utf16_simps [simp]:
  "encode_utf16 [] = []" "encode_utf16 (c # s) = encode_utf16_char c @ encode_utf16 s"
  by (simp_all add: encode_utf16_def)

end
