(* ===== verification/Boot_Sector.thy ===== *)
theory Boot_Sector
  imports Ors_Prelude
begin

text \<open>
  The boot sector of a FAT volume, \<open>fs/fat/boot_sector.rs\<close>: its parser with all its checks, and
  the geometry computed from it. Sizes and sector numbers are naturals. A function whose
  \<open>debug_assert\<close>s, subtraction or division can fail returns an option: \<open>None\<close> is the panic. Sums
  and products stay below \<open>2 ^ 64\<close>: they are built from 8, 16 and 32-bit fields.
\<close>

section \<open>Data\<close>

datatype boot_sector_error = SignatureMismatch | Broken string | Unsupported string

record boot_sector =
  jmp_boot :: bytes
  oem_name :: bytes
  bpb_byts_per_sec :: u16
  bpb_sec_per_clus :: u8
  bpb_rsvd_sec_cnt :: u16
  bpb_num_fats :: u8
  bpb_root_ent_cnt :: u16
  bpb_tot_sec_16 :: u16
  bpb_media :: u8
  bpb_fat_sz_16 :: u16
  bpb_sec_per_trk :: u16
  bpb_num_heads :: u16
  bpb_hidd_sec :: u32
  bpb_tot_sec_32 :: u32
  bpb_fat_sz_32 :: u32
  bpb_ext_flags :: u16
  bpb_fs_ver :: u16
  bpb_root_clus :: u32
  bpb_fs_info :: u16
  bpb_bk_boot_sec :: u16
  bpb_reserved :: bytes
  drv_num :: u8
  bs_reserved :: u8
  boot_sig :: u8
  vol_id :: u32
  vol_lab :: bytes
  fil_sys_type :: bytes

section \<open>Geometry\<close>

definition volume_id :: "boot_sector \<Rightarrow> u32" where
  "volume_id bs = vol_id bs"

definition volume_label :: "boot_sector \<Rightarrow> bytes" where
  "volume_label bs = vol_lab bs"

definition bs_sector_size :: "boot_sector \<Rightarrow> nat" where
  "bs_sector_size bs = unat (bpb_byts_per_sec bs)"

definition total_sector_count :: "boot_sector \<Rightarrow> nat option" where
  "total_sector_count bs = (if bpb_tot_sec_16 bs = 0 then Some (unat (bpb_tot_sec_32 bs)) else None)"

definition fat_size :: "boot_sector \<Rightarrow> nat option" where
  "fat_size bs = (if bpb_fat_sz_16 bs = 0 then Some (unat (bpb_fat_sz_32 bs)) else None)"

definition fat_area_start :: "boot_sector \<Rightarrow> nat" where
  "fat_area_start bs = unat (bpb_rsvd_sec_cnt bs)"

definition fat_area_size :: "boot_sector \<Rightarrow> nat option" where
  "fat_area_size bs = map_option (\<lambda>n. n * unat (bpb_num_fats bs)) (fat_size bs)"

definition root_dir_area_start :: "boot_sector \<Rightarrow> nat option" where
  "root_dir_area_start bs = map_option (\<lambda>n. fat_area_start bs + n) (fat_area_size bs)"

definition root_dir_area_size :: "boot_sector \<Rightarrow> nat option" where
  "root_dir_area_size bs = (if bpb_root_ent_cnt bs = 0 then Some 0 else None)"

definition data_area_start :: "boot_sector \<Rightarrow> nat option" where
  "data_area_start bs =
     Option.bind (root_dir_area_start bs) (\<lambda>s. map_option (\<lambda>n. s + n) (root_dir_area_size bs))"

definition data_area_size :: "boot_sector \<Rightarrow> nat option" where
  "data_area_size bs =
     Option.bind (total_sector_count bs) (\<lambda>t. Option.bind (data_area_start bs) (\<lambda>d.
       if d \<le> t then Some (t - d) else None))"

definition cluster_size :: "boot_sector \<Rightarrow> nat" where
  "cluster_size bs = unat (bpb_sec_per_clus bs)"

definition cluster_count :: "boot_sector \<Rightarrow> nat option" where
  "cluster_count bs =
     Option.bind (data_area_size bs)
       (\<lambda>n. if cluster_size bs = 0 then None else Some (n div cluster_size bs))"

definition is_cluster_available :: "boot_sector \<Rightarrow> nat \<Rightarrow> bool option" where
  "is_cluster_available bs n =
     (if 2 \<le> n then map_option (\<lambda>count. n \<le> count + 1) (cluster_count bs) else Some False)"

definition fat_entry_location :: "boot_sector \<Rightarrow> nat \<Rightarrow> (nat \<times> nat) option" where
  "fat_entry_location bs n =
     (if is_cluster_available bs n = Some True \<and> bs_sector_size bs \<noteq> 0
      then (let bytes_offset = n * 4 in
            Some (fat_area_start bs + bytes_offset div bs_sector_size bs,
                  bytes_offset mod bs_sector_size bs))
      else None)"

definition cluster_location :: "boot_sector \<Rightarrow> nat \<Rightarrow> nat option" where
  "cluster_location bs n =
     (if is_cluster_available bs n = Some True
      then map_option (\<lambda>d. d + (n - 2) * cluster_size bs) (data_area_start bs)
      else None)"

definition root_dir_cluster :: "boot_sector \<Rightarrow> nat" where
  "root_dir_cluster bs = unat (bpb_root_clus bs)"

section \<open>Parsing\<close>

text \<open>\<open>u8::is_power_of_two\<close>: exactly one bit is set.\<close>

definition is_power_of_two :: "u8 \<Rightarrow> bool" where
  "is_power_of_two w \<longleftrightarrow> length (filter (bit w) [0..<8]) = 1"

definition is_jmp_boot :: "bytes \<Rightarrow> bool" where
  "is_jmp_boot b \<longleftrightarrow> (b ! 0 = 0xeb \<and> b ! 2 = 0x90) \<or> b ! 0 = 0xe9"

text \<open>The record as it stands in the buffer, at the offsets the parser uses.\<close>

definition boot_sector_fields :: "bytes \<Rightarrow> boot_sector" where
  "boot_sector_fields buf =
     \<lparr>jmp_boot = array 3 0 buf,
      oem_name = array 8 3 buf,
      bpb_byts_per_sec = from_le_bytes (array 2 11 buf),
      bpb_sec_per_clus = buf ! 13,
      bpb_rsvd_sec_cnt = from_le_bytes (array 2 14 buf),
      bpb_num_fats = buf ! 16,
      bpb_root_ent_cnt = from_le_bytes (array 2 17 buf),
      bpb_tot_sec_16 = from_le_bytes (array 2 19 buf),
      bpb_media = buf ! 21,
      bpb_fat_sz_16 = from_le_bytes (array 2 22 buf),
      bpb_sec_per_trk = from_le_bytes (array 2 24 buf),
      bpb_num_heads = from_le_bytes (array 2 26 buf),
      bpb_hidd_sec = from_le_bytes (array 4 28 buf),
      bpb_tot_sec_32 = from_le_bytes (array 4 32 buf),
      bpb_fat_sz_32 = from_le_bytes (array 4 36 buf),
      bpb_ext_flags = from_le_bytes (array 2 40 buf),
      bpb_fs_ver = from_le_bytes (array 2 42 buf),
      bpb_root_clus = from_le_bytes (array 4 44 buf),
      bpb_fs_info = from_le_bytes (array 2 48 buf),
      bpb_bk_boot_sec = from_le_bytes (array 2 50 buf),
      bpb_reserved = array 12 52 buf,
      drv_num = buf ! 64,
      bs_reserved = buf ! 65,
      boot_sig = buf ! 66,
      vol_id = from_le_bytes (array 4 67 buf),
      vol_lab = array 11 71 buf,
      fil_sys_type = array 8 82 buf\<rparr>"

text \<open>
  \<open>TryFrom<&[u8]> for BootSector\<close>: the checks in the order of the code. Every offset is below 512,
  and the length is checked first, so no index is out of range.
\<close>

definition boot_sector_try_from :: "bytes \<Rightarrow> (boot_sector_error, boot_sector) outcome" where
  "boot_sector_try_from buf =
     (if length buf < 512 \<or> array 2 510 buf \<noteq> [0x55, 0xaa] then Err SignatureMismatch
      else
        let bs = boot_sector_fields buf in
        if \<not> is_jmp_boot (jmp_boot bs) then Err (Broken ''JmpBoot'')
        else if bpb_byts_per_sec bs \<notin> {512, 1024, 2048, 4096} then Err (Broken ''BytsPerSec'')
        else if \<not> is_power_of_two (bpb_sec_per_clus bs) then Err (Broken ''SecPerClus'')
        else if bpb_rsvd_sec_cnt bs = 0 then Err (Broken ''RsvdSecCnt'')
        else if bpb_root_ent_cnt bs \<noteq> 0 \<or> bpb_tot_sec_16 bs \<noteq> 0 \<or> bpb_fat_sz_16 bs \<noteq> 0
        then Err (Unsupported ''FAT12/16'')
        else if bpb_fs_ver bs \<noteq> 0 then Err (Unsupported ''FSVer'')
        else if bpb_fs_info bs \<noteq> 1 then Err (Broken ''FSInfo'')
        else if boot_sig bs \<noteq> 0x29 then Err (Broken ''BootSig'')
        else Ok bs)"

section \<open>Parsed boot sectors\<close>

text \<open>What the parser guarantees, as far as the geometry depends on it.\<close>

definition boot_sector_wf :: "boot_sector \<Rightarrow> bool" where
  "boot_sector_wf bs \<longleftrightarrow>
     bs_sector_size bs \<in> {512, 1024, 2048, 4096} \<and> 0 < cluster_size bs \<and> 0 < fat_area_start bs
     \<and> bpb_root_ent_cnt bs = 0 \<and> bpb_tot_sec_16 bs = 0 \<and> bpb_fat_sz_16 bs = 0"

lemma is_power_of_two_nonzero: "is_power_of_two w \<Longrightarrow> w \<noteq> 0"
  by (auto simp: is_power_of_two_def)

lemma boot_sector_try_from_wf:
  assumes "boot_sector_try_from buf = Ok bs"
  shows "boot_sector_wf bs" and "bs = boot_sector_fields buf" and "512 \<le> length buf"
proof -
  show bs: "bs = boot_sector_fields buf" and "512 \<le> length buf"
    using assms by (auto simp: boot_sector_try_from_def Let_def split: if_splits)
  have "bpb_byts_per_sec bs \<in> {512, 1024, 2048, 4096}" and "is_power_of_two (bpb_sec_per_clus bs)"
    and "bpb_rsvd_sec_cnt bs \<noteq> 0"
    and zero: "bpb_root_ent_cnt bs = 0 \<and> bpb_tot_sec_16 bs = 0 \<and> bpb_fat_sz_16 bs = 0"
    using assms unfolding bs by (auto simp: boot_sector_try_from_def Let_def split: if_splits)
  moreover from this have "bpb_sec_per_clus bs \<noteq> 0" by (auto dest: is_power_of_two_nonzero)
  ultimately show "boot_sector_wf bs"
    by (auto simp: boot_sector_wf_def bs_sector_size_def cluster_size_def fat_area_start_def
        unat_gt_0)
qed

text \<open>The number of the first data sector, and of clusters, when the geometry is consistent.\<close>

definition data_start :: "boot_sector \<Rightarrow> nat" where
  "data_start bs = fat_area_start bs + unat (bpb_fat_sz_32 bs) * unat (bpb_num_fats bs)"

definition clusters :: "boot_sector \<Rightarrow> nat" where
  "clusters bs = (unat (bpb_tot_sec_32 bs) - data_start bs) div cluster_size bs"

definition available :: "boot_sector \<Rightarrow> nat \<Rightarrow> bool" where
  "available bs n \<longleftrightarrow> 2 \<le> n \<and> n \<le> clusters bs + 1"

text \<open>
  What the parser does not check: that the areas fit into the volume, and that the first FAT has
  an entry for every cluster, whose number fits the 28 bits of an entry.
\<close>

definition geometry_ok :: "boot_sector \<Rightarrow> bool" where
  "geometry_ok bs \<longleftrightarrow>
     boot_sector_wf bs \<and> data_start bs \<le> unat (bpb_tot_sec_32 bs) \<and> 0 < bpb_num_fats bs
     \<and> (clusters bs + 2) * 4 \<le> unat (bpb_fat_sz_32 bs) * bs_sector_size bs
     \<and> clusters bs + 1 \<le> 0x0ffffff6"

lemma boot_sector_wf_sizes:
  assumes "boot_sector_wf bs"
  shows "0 < bs_sector_size bs" and "4 dvd bs_sector_size bs" and "32 dvd bs_sector_size bs"
    and "0 < cluster_size bs"
  using assms by (auto simp: boot_sector_wf_def)

lemma data_area_start_eq:
  "boot_sector_wf bs \<Longrightarrow> data_area_start bs = Some (data_start bs)"
  by (simp add: boot_sector_wf_def data_area_start_def root_dir_area_start_def fat_area_size_def
      fat_size_def root_dir_area_size_def data_start_def)

lemma cluster_count_eq:
  assumes "boot_sector_wf bs"
  shows "cluster_count bs =
    (if data_start bs \<le> unat (bpb_tot_sec_32 bs) then Some (clusters bs) else None)"
  using assms data_area_start_eq [OF assms]
  by (simp add: boot_sector_wf_def cluster_count_def data_area_size_def total_sector_count_def
      clusters_def)

lemma is_cluster_available_eq:
  "geometry_ok bs \<Longrightarrow> is_cluster_available bs n = Some (available bs n)"
  by (simp add: geometry_ok_def is_cluster_available_def cluster_count_eq available_def)

lemma fat_entry_location_eq:
  assumes "geometry_ok bs" and "available bs n"
  shows "fat_entry_location bs n =
    Some (fat_area_start bs + n * 4 div bs_sector_size bs, n * 4 mod bs_sector_size bs)"
  using assms boot_sector_wf_sizes(1) [of bs]
  by (simp add: geometry_ok_def fat_entry_location_def is_cluster_available_eq Let_def)

lemma cluster_location_eq:
  assumes "geometry_ok bs" and "available bs n"
  shows "cluster_location bs n = Some (data_start bs + (n - 2) * cluster_size bs)"
  using assms data_area_start_eq
  by (simp add: geometry_ok_def cluster_location_def is_cluster_available_eq)

section \<open>Layout\<close>

text \<open>Where the FAT entry and the data of a cluster are, for the proofs above this layer.\<close>

definition fat_sector :: "boot_sector \<Rightarrow> nat \<Rightarrow> nat" where
  "fat_sector bs n = fat_area_start bs + n * 4 div bs_sector_size bs"

definition fat_offset :: "boot_sector \<Rightarrow> nat \<Rightarrow> nat" where
  "fat_offset bs n = n * 4 mod bs_sector_size bs"

definition cluster_sector :: "boot_sector \<Rightarrow> nat \<Rightarrow> nat" where
  "cluster_sector bs n = data_start bs + (n - 2) * cluster_size bs"

lemma fat_offset_in_sector:
  assumes "boot_sector_wf bs"
  shows "fat_offset bs n + 4 \<le> bs_sector_size bs"
proof -
  obtain k where k: "bs_sector_size bs = 4 * k" using boot_sector_wf_sizes(2) [OF assms] by blast
  have "n * 4 mod (4 * k) = 4 * (n mod k)" by (simp add: mult.commute mult_mod_right)
  moreover have "n mod k < k" using boot_sector_wf_sizes(1) [OF assms] k by simp
  ultimately show ?thesis by (simp add: fat_offset_def k)
qed

lemma fat_offset_aligned: "boot_sector_wf bs \<Longrightarrow> 4 dvd fat_offset bs n"
  using boot_sector_wf_sizes(2) [of bs] by (simp add: fat_offset_def dvd_mod)

lemma fat_location_inj:
  assumes "boot_sector_wf bs" and "fat_sector bs c = fat_sector bs d" and "fat_offset bs c = fat_offset bs d"
  shows "c = d"
proof -
  have "c * 4 div bs_sector_size bs = d * 4 div bs_sector_size bs"
    using assms(2) by (simp add: fat_sector_def)
  with assms(3) have "c * 4 = d * 4"
    unfolding fat_offset_def by (metis div_mult_mod_eq)
  then show ?thesis by simp
qed

lemma fat_sector_bounds:
  assumes "geometry_ok bs" and "available bs n"
  shows "fat_area_start bs \<le> fat_sector bs n" and "fat_sector bs n < data_start bs"
proof -
  have "0 < bs_sector_size bs"
    using assms(1) by (simp add: geometry_ok_def boot_sector_wf_sizes)
  have "n * 4 < (clusters bs + 2) * 4" using assms(2) by (simp add: available_def)
  also have "\<dots> \<le> unat (bpb_fat_sz_32 bs) * bs_sector_size bs"
    using assms(1) by (simp add: geometry_ok_def)
  finally have "n * 4 div bs_sector_size bs < unat (bpb_fat_sz_32 bs)"
    using \<open>0 < bs_sector_size bs\<close> by (simp add: div_less_iff_less_mult)
  also have "1 \<le> unat (bpb_num_fats bs)"
    using assms(1) by (simp add: geometry_ok_def Suc_le_eq unat_gt_0 word_gt_0)
  then have "unat (bpb_fat_sz_32 bs) \<le> unat (bpb_fat_sz_32 bs) * unat (bpb_num_fats bs)" by simp
  finally show "fat_sector bs n < data_start bs" by (simp add: fat_sector_def data_start_def)
qed (simp add: fat_sector_def)

lemma next_cluster_offset: "2 \<le> n \<Longrightarrow> (n - 2) * k + k = (n - 1) * k" for n k :: nat
  by (auto dest!: le_Suc_ex)

lemma cluster_sector_bounds:
  assumes "geometry_ok bs" and "available bs n"
  shows "data_start bs \<le> cluster_sector bs n"
    and "cluster_sector bs n + cluster_size bs \<le> unat (bpb_tot_sec_32 bs)"
proof -
  have "(n - 2) * cluster_size bs + cluster_size bs = (n - 1) * cluster_size bs"
    using assms(2) by (simp add: available_def next_cluster_offset)
  also have "\<dots> \<le> clusters bs * cluster_size bs"
    using assms(2) by (intro mult_le_mono1) (auto simp: available_def)
  also have "\<dots> \<le> unat (bpb_tot_sec_32 bs) - data_start bs"
    by (simp add: clusters_def)
  finally show "cluster_sector bs n + cluster_size bs \<le> unat (bpb_tot_sec_32 bs)"
    using assms(1) unfolding cluster_sector_def geometry_ok_def by linarith
qed (simp add: cluster_sector_def)

lemma cluster_sectors_disjoint:
  assumes "available bs c" and "available bs d" and "c < d"
  shows "cluster_sector bs c + cluster_size bs \<le> cluster_sector bs d"
proof -
  have "(c - 2) * cluster_size bs + cluster_size bs = (c - 1) * cluster_size bs"
    using assms(1) by (simp add: available_def next_cluster_offset)
  also have "\<dots> \<le> (d - 2) * cluster_size bs"
    using assms by (intro mult_le_mono1) (auto simp: available_def)
  finally show ?thesis by (simp add: cluster_sector_def)
qed

section \<open>Properties\<close>

definition sample_boot_sector :: bytes where
  "sample_boot_sector =
     [0xeb, 0x58, 0x90] @ replicate 8 0x20 @ [0, 2, 1, 32, 0, 1, 0, 0, 0, 0, 0xf8, 0, 0]
     @ replicate 8 0 @ [64, 0, 0, 0, 1, 0, 0, 0, 0, 0, 0, 0, 2, 0, 0, 0, 1, 0, 6, 0]
     @ replicate 14 0 @ [0x29, 1, 2, 3, 4] @ replicate 439 0x20 @ [0x55, 0xaa]"

lemma sample_boot_sector_fields:
  "bpb_byts_per_sec (boot_sector_fields sample_boot_sector) = 512"
  "jmp_boot (boot_sector_fields sample_boot_sector) = [0xeb, 0x58, 0x90]"
  "bpb_sec_per_clus (boot_sector_fields sample_boot_sector) = 1"
  "bpb_rsvd_sec_cnt (boot_sector_fields sample_boot_sector) = 32"
  "bpb_num_fats (boot_sector_fields sample_boot_sector) = 1"
  "bpb_root_ent_cnt (boot_sector_fields sample_boot_sector) = 0"
  "bpb_tot_sec_16 (boot_sector_fields sample_boot_sector) = 0"
  "bpb_fat_sz_16 (boot_sector_fields sample_boot_sector) = 0"
  "bpb_tot_sec_32 (boot_sector_fields sample_boot_sector) = 64"
  "bpb_fat_sz_32 (boot_sector_fields sample_boot_sector) = 1"
  "bpb_fs_ver (boot_sector_fields sample_boot_sector) = 0"
  "bpb_fs_info (boot_sector_fields sample_boot_sector) = 1"
  "boot_sig (boot_sector_fields sample_boot_sector) = 0x29"
  by (simp_all add: boot_sector_fields_def sample_boot_sector_def array_def nth_append
      from_le_bytes_def)

lemma sample_boot_sector_accepted:
  "boot_sector_try_from sample_boot_sector = Ok (boot_sector_fields sample_boot_sector)"
proof -
  have "is_power_of_two 1" "is_jmp_boot [0xeb, 0x58, 0x90]" by code_simp+
  then show ?thesis
    unfolding boot_sector_try_from_def Let_def
    by (simp add: sample_boot_sector_fields) (simp add: sample_boot_sector_def array_def)
qed

lemma sample_boot_sector_geometry:
  "geometry_ok (boot_sector_fields sample_boot_sector)"
  "available (boot_sector_fields sample_boot_sector) 2"
  "available (boot_sector_fields sample_boot_sector) 3"
  using boot_sector_try_from_wf(1) [OF sample_boot_sector_accepted]
  by (simp_all add: geometry_ok_def available_def clusters_def data_start_def fat_area_start_def
      cluster_size_def bs_sector_size_def sample_boot_sector_fields)





end
