(* ===== verification/Fat_Entry.thy ===== *)
theory Fat_Entry
  imports Ors_Prelude
begin

text \<open>
  Entries of the file allocation table, \<open>fs/fat/fat_entry.rs\<close>: the 32-bit word of an entry, whose
  upper four bits are reserved, and the five states it denotes. Cluster numbers (\<open>Cluster(usize)\<close>)
  are naturals.
\<close>

datatype fat_entry = FatUnused | FatReserved | UsedChained nat | UsedEoc | FatBad

fun chain :: "fat_entry \<Rightarrow> nat option" where
  "chain (UsedChained c) = Some c"
| "chain _ = None"

definition fat_entry_from_u32 :: "u32 \<Rightarrow> fat_entry" where
  "fat_entry_from_u32 v =
     (let n = v AND 0x0fffffff in
      if n = 0 then FatUnused
      else if n = 1 then FatReserved
      else if 2 \<le> n \<and> n \<le> 0x0ffffff6 then UsedChained (unat n)
      else if n = 0x0ffffff7 then FatBad
      else UsedEoc)"

text \<open>\<open>cluster.index() as u32\<close> keeps the low 32 bits.\<close>

fun fat_entry_into_u32 :: "fat_entry \<Rightarrow> u32" where
  "fat_entry_into_u32 FatUnused = 0"
| "fat_entry_into_u32 FatReserved = 1"
| "fat_entry_into_u32 (UsedChained c) = word_of_nat c"
| "fat_entry_into_u32 UsedEoc = 0x0fffffff"
| "fat_entry_into_u32 FatBad = 0x0ffffff7"

text \<open>The cluster numbers an entry can hold.\<close>

fun fat_entry_wf :: "fat_entry \<Rightarrow> bool" where
  "fat_entry_wf (UsedChained c) \<longleftrightarrow> 2 \<le> c \<and> c \<le> 0x0ffffff6"
| "fat_entry_wf _ \<longleftrightarrow> True"

lemma low_28_bits: "unat (v AND 0x0fffffff) = unat (v :: u32) mod 2 ^ 28"
proof -
  have "v AND mask 28 = take_bit 28 v" by (simp add: take_bit_eq_mask)
  moreover have "(mask 28 :: u32) = 0x0fffffff" by (simp add: mask_eq_exp_minus_1)
  moreover have "unat (take_bit 28 v) = take_bit 28 (unat v)" by (simp add: unsigned_take_bit_eq)
  ultimately show ?thesis by (simp add: take_bit_eq_mod)
qed

text \<open>The decoder on the number in the low 28 bits.\<close>

lemma fat_entry_from_u32_nat:
  "fat_entry_from_u32 v =
     (let n = unat v mod 2 ^ 28 in
      if n = 0 then FatUnused
      else if n = 1 then FatReserved
      else if n \<le> 0x0ffffff6 then UsedChained n
      else if n = 0x0ffffff7 then FatBad
      else UsedEoc)"
proof -
  let ?w = "v AND 0x0fffffff"
  have "?w = 0 \<longleftrightarrow> unat ?w = 0" "?w = 1 \<longleftrightarrow> unat ?w = 1" "2 \<le> ?w \<longleftrightarrow> 2 \<le> unat ?w"
    "?w \<le> 0x0ffffff6 \<longleftrightarrow> unat ?w \<le> 0x0ffffff6" "?w = 0x0ffffff7 \<longleftrightarrow> unat ?w = 0x0ffffff7"
    by (simp_all only: word_unat_eq_iff word_le_nat_alt) simp_all
  then show ?thesis
    unfolding fat_entry_from_u32_def Let_def low_28_bits [symmetric] by auto
qed

lemma fat_entry_from_into:
  assumes "fat_entry_wf e"
  shows "fat_entry_from_u32 (fat_entry_into_u32 e) = e"
proof (cases e)
  case (UsedChained c)
  with assms have "2 \<le> c" "c \<le> 0x0ffffff6" by auto
  moreover from this have "unat (word_of_nat c :: u32) = c" by (simp add: unat_of_nat)
  ultimately show ?thesis using UsedChained by (simp add: fat_entry_from_u32_nat)
qed (simp_all add: fat_entry_from_u32_nat)

lemma fat_entry_from_u32_wf: "fat_entry_wf (fat_entry_from_u32 v)"
  by (simp add: fat_entry_from_u32_nat Let_def)

text \<open>Reading only looks at the low 28 bits; writing clears the four reserved ones.\<close>

lemma fat_entry_from_u32_low_bits:
  "unat v mod 2 ^ 28 = unat w mod 2 ^ 28 \<Longrightarrow> fat_entry_from_u32 v = fat_entry_from_u32 w"
  by (simp only: fat_entry_from_u32_nat)

lemma fat_entry_into_u32_reserved:
  assumes "fat_entry_wf e"
  shows "unat (fat_entry_into_u32 e) < 2 ^ 28"
  using assms by (cases e) (auto simp: unat_of_nat)

section \<open>Property\<close>

text \<open>
  C32: encoding an entry and decoding it yields the entry, for all cluster numbers an entry can hold;
  decoding looks only at the low 28 bits of a word, while encoding sets the four reserved bits to zero
  whatever they were.
\<close>

theorem fat_entry_roundtrip:
  assumes "fat_entry_wf e" and "unat v mod 2 ^ 28 = unat (fat_entry_into_u32 e) mod 2 ^ 28"
  shows "fat_entry_from_u32 v = e \<and> unat (fat_entry_into_u32 e) < 2 ^ 28"
  using fat_entry_from_u32_low_bits [OF assms(2)] fat_entry_from_into [OF assms(1)]
    fat_entry_into_u32_reserved [OF assms(1)] by simp

theorem fat_entry_roundtrip_witness:
  "fat_entry_from_u32 0xf0000005 = UsedChained 5 \<and> unat (fat_entry_into_u32 (UsedChained 5)) < 2 ^ 28"
  using fat_entry_roundtrip [of "UsedChained 5" "0xf0000005"] by simp

end
