(* ===== verification/Sector_Volume.thy ===== *)
theory Sector_Volume
  imports Ors_Prelude
begin

text \<open>
  Volumes and the sector cache, \<open>fs/volume.rs\<close>. The trait \<open>Volume\<close> is a record of operations on a
  volume state; \<open>BufferedVolume\<close> keeps sectors in memory: the ones some \<open>BufferedSectorRef\<close> refers
  to are \<open>lent\<close>, the others stay in \<open>cached\<close>, most recently used first, until they are recycled.

  A reference (an \<open>Arc\<close> of a lent sector) is named by its sector number: the lent sectors have
  distinct numbers, and the number of a lent sector cannot change. \<open>ref_count\<close> is the number of
  references, one less than the \<open>Arc\<close>'s strong count, since \<open>lent\<close> itself holds one. The locks are
  not part of the state; \<open>sector\<close> is split at the point where the code releases the lock.
\<close>

section \<open>The volume trait\<close>

datatype volume_error_kind = Io | OutOfRange | UnknownError

record volume_error =
  err_sector :: nat
  err_kind :: volume_error_kind

text \<open>
  \<open>read\<close> fills a buffer, which it may leave in any state when it fails; both \<open>read\<close> and \<open>write\<close>
  may change the state of the volume.
\<close>

record 'v volume_ops =
  vol_sector_count :: "'v \<Rightarrow> nat"
  vol_sector_size :: "'v \<Rightarrow> nat"
  vol_read :: "'v \<Rightarrow> nat \<Rightarrow> bytes \<Rightarrow> (volume_error, unit) outcome \<times> bytes \<times> 'v"
  vol_write :: "'v \<Rightarrow> nat \<Rightarrow> bytes \<Rightarrow> (volume_error, unit) outcome \<times> 'v"

section \<open>The sector cache\<close>

text \<open>\<open>BufferedSector\<close> with its \<open>BufferedSectorData\<close>, whose \<open>sector\<close> tells what \<open>bytes\<close> holds.\<close>

record buffered_sector =
  buf_sector :: nat
  data_sector :: "nat option"
  is_dirty :: bool
  data_bytes :: bytes
  ref_count :: nat

record 'v buffered_volume =
  volume :: 'v
  lent :: "buffered_sector list"
  cached :: "buffered_sector list"

definition EXPECTED_CACHE_SIZE :: nat where
  "EXPECTED_CACHE_SIZE = 8"

definition new_buffered_volume :: "'v \<Rightarrow> 'v buffered_volume" where
  "new_buffered_volume v = \<lparr>volume = v, lent = [], cached = []\<rparr>"

definition new_buffered_sector :: "nat \<Rightarrow> nat \<Rightarrow> buffered_sector" where
  "new_buffered_sector n sz =
     \<lparr>buf_sector = n, data_sector = None, is_dirty = False, data_bytes = replicate sz 0,
      ref_count = 0\<rparr>"

definition recycle :: "nat \<Rightarrow> buffered_sector \<Rightarrow> buffered_sector" where
  "recycle n b = b\<lparr>buf_sector := n\<rparr>"

text \<open>\<open>BufferedSectorData::commit\<close>: \<open>self.sector.unwrap()\<close> panics on a dirty sector without number.\<close>

definition data_commit ::
    "'v volume_ops \<Rightarrow> 'v \<Rightarrow> buffered_sector \<Rightarrow> (volume_error, unit) outcome \<times> buffered_sector \<times> 'v" where
  "data_commit V v b =
     (if is_dirty b then
        (case data_sector b of
           None \<Rightarrow> (Panic, b, v)
         | Some n \<Rightarrow>
             (case vol_write V v n (data_bytes b) of
                (Ok _, v') \<Rightarrow> (Ok (), b\<lparr>is_dirty := False\<rparr>, v')
              | (Err e, v') \<Rightarrow> (Err e, b, v')
              | (Panic, v') \<Rightarrow> (Panic, b, v')
              | (Hang, v') \<Rightarrow> (Hang, b, v')))
      else (Ok (), b, v))"

definition data_initialize ::
    "'v volume_ops \<Rightarrow> 'v \<Rightarrow> buffered_sector \<Rightarrow> (volume_error, unit) outcome \<times> buffered_sector \<times> 'v" where
  "data_initialize V v b =
     (case data_commit V v b of
        (Ok _, b', v') \<Rightarrow>
          if data_sector b' \<noteq> Some (buf_sector b') then
            (case vol_read V v' (buf_sector b') (data_bytes b') of
               (Ok _, bs, v'') \<Rightarrow> (Ok (), b'\<lparr>data_bytes := bs, data_sector := Some (buf_sector b')\<rparr>, v'')
             | (Err e, bs, v'') \<Rightarrow> (Err e, b'\<lparr>data_bytes := bs\<rparr>, v'')
             | (Panic, bs, v'') \<Rightarrow> (Panic, b'\<lparr>data_bytes := bs\<rparr>, v'')
             | (Hang, bs, v'') \<Rightarrow> (Hang, b'\<lparr>data_bytes := bs\<rparr>, v''))
          else (Ok (), b', v')
      | (Err e, b', v') \<Rightarrow> (Err e, b', v')
      | (Panic, b', v') \<Rightarrow> (Panic, b', v')
      | (Hang, b', v') \<Rightarrow> (Hang, b', v'))"

abbreviation at_sector :: "nat \<Rightarrow> buffered_sector list \<Rightarrow> nat option" where
  "at_sector n bs \<equiv> position (\<lambda>b. buf_sector b = n) bs"

text \<open>
  The part of \<open>sector\<close> under the lock: find the sector among the lent ones, or move a cached,
  recycled or new one to \<open>lent\<close>, and make a reference to it.
\<close>

definition acquire_sector :: "'v volume_ops \<Rightarrow> 'v buffered_volume \<Rightarrow> nat \<Rightarrow> 'v buffered_volume" where
  "acquire_sector V bv n =
     (case at_sector n (lent bv) of
        Some i \<Rightarrow> bv\<lparr>lent := (lent bv)[i := (lent bv ! i)\<lparr>ref_count := ref_count (lent bv ! i) + 1\<rparr>]\<rparr>
      | None \<Rightarrow>
          (case at_sector n (cached bv) of
             Some i \<Rightarrow> bv\<lparr>lent := lent bv @ [(cached bv ! i)\<lparr>ref_count := 1\<rparr>],
                          cached := remove_nth i (cached bv)\<rparr>
           | None \<Rightarrow>
               if EXPECTED_CACHE_SIZE \<le> length (cached bv)
               then bv\<lparr>lent := lent bv @ [(recycle n (last (cached bv)))\<lparr>ref_count := 1\<rparr>],
                       cached := butlast (cached bv)\<rparr>
               else bv\<lparr>lent := lent bv @
                         [(new_buffered_sector n (vol_sector_size V (volume bv)))\<lparr>ref_count := 1\<rparr>]\<rparr>))"

text \<open>\<open>r.initialize(&self.volume)\<close>, on the lent sector the reference denotes.\<close>

definition initialize_ref ::
    "'v volume_ops \<Rightarrow> 'v buffered_volume \<Rightarrow> nat \<Rightarrow> (volume_error, unit) outcome \<times> 'v buffered_volume" where
  "initialize_ref V bv n =
     (case at_sector n (lent bv) of
        None \<Rightarrow> (Panic, bv)
      | Some i \<Rightarrow>
          (case data_initialize V (volume bv) (lent bv ! i) of
             (res, b, v) \<Rightarrow> (res, bv\<lparr>lent := (lent bv)[i := b], volume := v\<rparr>)))"

text \<open>\<open>Drop for BufferedSectorRef\<close>: the last reference moves the sector to the front of \<open>cached\<close>.\<close>

definition drop_ref :: "'v buffered_volume \<Rightarrow> nat \<Rightarrow> 'v buffered_volume" where
  "drop_ref bv n =
     (case at_sector n (lent bv) of
        None \<Rightarrow> bv
      | Some i \<Rightarrow>
          let b = lent bv ! i in
          if ref_count b = 1
          then bv\<lparr>lent := swap_remove i (lent bv), cached := b\<lparr>ref_count := 0\<rparr> # cached bv\<rparr>
          else bv\<lparr>lent := (lent bv)[i := b\<lparr>ref_count := ref_count b - 1\<rparr>]\<rparr>)"

definition clone_ref :: "'v buffered_volume \<Rightarrow> nat \<Rightarrow> 'v buffered_volume" where
  "clone_ref bv n =
     (case at_sector n (lent bv) of
        None \<Rightarrow> bv
      | Some i \<Rightarrow> bv\<lparr>lent := (lent bv)[i := (lent bv ! i)\<lparr>ref_count := ref_count (lent bv ! i) + 1\<rparr>]\<rparr>)"

text \<open>\<open>BufferedVolume::sector\<close>: on an error the reference is dropped on return.\<close>

definition sector ::
    "'v volume_ops \<Rightarrow> 'v buffered_volume \<Rightarrow> nat \<Rightarrow> (volume_error, nat) outcome \<times> 'v buffered_volume" where
  "sector V bv n =
     (case initialize_ref V (acquire_sector V bv n) n of
        (Ok _, bv') \<Rightarrow> (Ok n, bv')
      | (Err e, bv') \<Rightarrow> (Err e, drop_ref bv' n)
      | (Panic, bv') \<Rightarrow> (Panic, bv')
      | (Hang, bv') \<Rightarrow> (Hang, bv'))"

text \<open>
  Access through a reference: \<open>bytes()\<close> read, \<open>bytes()\<close> overwritten, \<open>mark_as_dirty\<close>, and
  \<open>BufferedSector::commit\<close>.
\<close>

definition ref_bytes :: "'v buffered_volume \<Rightarrow> nat \<Rightarrow> bytes" where
  "ref_bytes bv n = (case at_sector n (lent bv) of None \<Rightarrow> [] | Some i \<Rightarrow> data_bytes (lent bv ! i))"

definition set_ref_bytes :: "'v buffered_volume \<Rightarrow> nat \<Rightarrow> bytes \<Rightarrow> 'v buffered_volume" where
  "set_ref_bytes bv n bs =
     (case at_sector n (lent bv) of
        None \<Rightarrow> bv
      | Some i \<Rightarrow> bv\<lparr>lent := (lent bv)[i := (lent bv ! i)\<lparr>data_bytes := bs\<rparr>]\<rparr>)"

definition mark_as_dirty :: "'v buffered_volume \<Rightarrow> nat \<Rightarrow> 'v buffered_volume" where
  "mark_as_dirty bv n =
     (case at_sector n (lent bv) of
        None \<Rightarrow> bv
      | Some i \<Rightarrow> bv\<lparr>lent := (lent bv)[i := (lent bv ! i)\<lparr>is_dirty := True\<rparr>]\<rparr>)"

definition ref_commit ::
    "'v volume_ops \<Rightarrow> 'v buffered_volume \<Rightarrow> nat \<Rightarrow> (volume_error, unit) outcome \<times> 'v buffered_volume" where
  "ref_commit V bv n =
     (case at_sector n (lent bv) of
        None \<Rightarrow> (Panic, bv)
      | Some i \<Rightarrow>
          (case data_commit V (volume bv) (lent bv ! i) of
             (res, b, v) \<Rightarrow> (res, bv\<lparr>lent := (lent bv)[i := b], volume := v\<rparr>)))"

text \<open>\<open>BufferedVolume::commit\<close>: the numbers are collected first, then each sector is taken and written.\<close>

fun commit_sectors ::
    "'v volume_ops \<Rightarrow> 'v buffered_volume \<Rightarrow> nat list \<Rightarrow> (volume_error, unit) outcome \<times> 'v buffered_volume" where
  "commit_sectors V bv [] = (Ok (), bv)"
| "commit_sectors V bv (n # ns) =
     try_st (sector V bv n) (\<lambda>r bv1.
       (case ref_commit V bv1 r of
          (res, bv2) \<Rightarrow> try_st (res, drop_ref bv2 r) (\<lambda>_ bv3. commit_sectors V bv3 ns)))"

definition commit :: "'v volume_ops \<Rightarrow> 'v buffered_volume \<Rightarrow> (volume_error, unit) outcome \<times> 'v buffered_volume" where
  "commit V bv = commit_sectors V bv (map buf_sector (cached bv))"

section \<open>What a volume promises, and the cache on top of it\<close>

text \<open>
  The abstract view of a volume: \<open>nsec\<close> sectors of \<open>ssize\<close> bytes with a content, as long as the
  volume is in a \<open>good\<close> state (a device that answers).
\<close>

record 'v volume_spec =
  good :: "'v \<Rightarrow> bool"
  content :: "'v \<Rightarrow> nat \<Rightarrow> bytes"
  nsec :: nat
  ssize :: nat

text \<open>A sector in memory holds its own sector, and the clean ones agree with the volume.\<close>

definition buffer_ok :: "'v volume_spec \<Rightarrow> 'v \<Rightarrow> buffered_sector \<Rightarrow> bool" where
  "buffer_ok S v b \<longleftrightarrow>
     buf_sector b < nsec S \<and> data_sector b = Some (buf_sector b) \<and> length (data_bytes b) = ssize S
     \<and> (is_dirty b \<or> data_bytes b = content S v (buf_sector b))"

abbreviation buffers :: "'v buffered_volume \<Rightarrow> buffered_sector list" where
  "buffers bv \<equiv> lent bv @ cached bv"

text \<open>
  The invariant, with the multiset \<open>H\<close> of references held by the rest of the program: every
  sector is in memory at most once, and the lent ones are those referred to.
\<close>

definition cache_ok :: "'v volume_spec \<Rightarrow> nat multiset \<Rightarrow> 'v buffered_volume \<Rightarrow> bool" where
  "cache_ok S H bv \<longleftrightarrow>
     good S (volume bv) \<and> distinct (map buf_sector (buffers bv))
     \<and> (\<forall>b\<in>set (buffers bv). buffer_ok S (volume bv) b)
     \<and> (\<forall>b\<in>set (lent bv). ref_count b = count H (buf_sector b) \<and> buf_sector b \<in># H)
     \<and> (\<forall>n. n \<in># H \<longrightarrow> n \<in> buf_sector ` set (lent bv))"

text \<open>The contents of the volume as the file system sees them.\<close>

definition view :: "'v volume_spec \<Rightarrow> 'v buffered_volume \<Rightarrow> nat \<Rightarrow> bytes" where
  "view S bv n =
     (case find (\<lambda>b. buf_sector b = n) (buffers bv) of
        Some b \<Rightarrow> data_bytes b
      | None \<Rightarrow> content S (volume bv) n)"

lemma view_buffer:
  assumes "distinct (map buf_sector (buffers bv))" and "b \<in> set (buffers bv)"
  shows "view S bv (buf_sector b) = data_bytes b"
proof (cases "find (\<lambda>x. buf_sector x = buf_sector b) (buffers bv)")
  case None
  with assms(2) show ?thesis by (simp only: find_None_iff) blast
next
  case (Some c)
  then obtain k where k: "k < length (buffers bv)" "buf_sector c = buf_sector b" "c = buffers bv ! k"
    unfolding find_Some_iff by blast
  then have "c \<in> set (buffers bv)" using nth_mem by blast
  with k(2) assms have "c = b" unfolding distinct_map by (blast dest: inj_onD)
  with Some show ?thesis by (simp only: view_def option.case)
qed

lemma view_no_buffer:
  assumes "n \<notin> buf_sector ` set (buffers bv)"
  shows "view S bv n = content S (volume bv) n"
proof -
  have "find (\<lambda>b. buf_sector b = n) (buffers bv) = None"
    using assms unfolding find_None_iff by blast
  then show ?thesis by (simp only: view_def option.case)
qed

text \<open>
  What changes between two states of the cache, as far as the file system is concerned: the
  buffers as a set of numbers and bytes, and the content of the volume where there is no buffer.
\<close>

lemma view_eqI:
  assumes "distinct (map buf_sector (buffers bv))" and "distinct (map buf_sector (buffers bv'))"
    and "\<And>b. b \<in> set (buffers bv') \<Longrightarrow> view S bv (buf_sector b) = data_bytes b"
    and "\<And>n. n \<notin> buf_sector ` set (buffers bv') \<Longrightarrow> view S bv n = content S (volume bv') n"
  shows "view S bv' = view S bv"
proof
  fix n
  show "view S bv' n = view S bv n"
  proof (cases "n \<in> buf_sector ` set (buffers bv')")
    case True
    then obtain b where b: "b \<in> set (buffers bv')" "n = buf_sector b" by blast
    then show ?thesis using assms(2,3) view_buffer by metis
  next
    case False
    then show ?thesis using assms(4) view_no_buffer by metis
  qed
qed

lemma at_lent:
  assumes "cache_ok S H bv" and "n \<in># H"
  obtains i where "at_sector n (lent bv) = Some i" and "i < length (lent bv)"
    and "buf_sector (lent bv ! i) = n" and "lent bv ! i \<in> set (lent bv)"
proof (cases "at_sector n (lent bv)")
  case None
  with assms show ?thesis by (force simp: cache_ok_def position_None)
next
  case (Some i)
  with that show ?thesis using position_SomeD [OF Some] by simp
qed

text \<open>Replacing a lent sector by another version of it.\<close>

lemma update_lent_set:
  assumes "at_sector n (lent bv) = Some i" and "distinct (map buf_sector (buffers bv))"
    and "lent bv' = (lent bv)[i := b']" and "buf_sector b' = n"
  shows "set (lent bv') = insert b' {b \<in> set (lent bv). buf_sector b \<noteq> n}"
proof -
  have i: "i < length (lent bv)" "buf_sector (lent bv ! i) = n"
    using position_SomeD [OF assms(1)] by simp_all
  have "set (lent bv') = insert b' (set (lent bv) - {lent bv ! i})"
    using assms(2,3) i(1) by (simp add: distinct_map set_update_distinct)
  moreover have "b = lent bv ! i" if "b \<in> set (lent bv)" "buf_sector b = n" for b
    using assms(2) i that by (auto simp: distinct_map dest!: inj_onD [where x = b and y = "lent bv ! i"])
  ultimately show ?thesis using i by auto
qed

lemma update_lent_keys:
  assumes "at_sector n (lent bv) = Some i" and "lent bv' = (lent bv)[i := b']" and "buf_sector b' = n"
    and "cached bv' = cached bv"
  shows "map buf_sector (buffers bv') = map buf_sector (buffers bv)"
  using assms position_SomeD [OF assms(1)] by (simp add: map_update list_update_same_conv)

lemma update_lent_ok:
  assumes ok: "cache_ok S H bv" and at: "at_sector n (lent bv) = Some i"
    and bv': "lent bv' = (lent bv)[i := b']" "cached bv' = cached bv"
    and b': "buf_sector b' = n" "buffer_ok S (volume bv') b'" "ref_count b' = count H' n"
    and vol: "good S (volume bv')" "\<forall>m. m \<noteq> n \<longrightarrow> content S (volume bv') m = content S (volume bv) m"
    and H': "n \<in># H'" "\<forall>m. m \<noteq> n \<longrightarrow> count H' m = count H m"
  shows "cache_ok S H' bv'" and "view S bv' = (view S bv)(n := data_bytes b')"
proof -
  have d: "distinct (map buf_sector (buffers bv))" using ok by (simp add: cache_ok_def)
  note keys = update_lent_keys [OF at bv'(1) b'(1) bv'(2)]
  note lent = update_lent_set [OF at d bv'(1) b'(1)]
  have n: "n \<in> buf_sector ` set (lent bv)" using position_SomeD [OF at] nth_mem by blast
  have d': "distinct (map buf_sector (buffers bv'))" using d unfolding keys .
  have others: "b \<in> set (buffers bv) \<and> buf_sector b \<noteq> n" if "b \<in> set (buffers bv')" "b \<noteq> b'" for b
    using that d n lent bv'(2) by auto
  have mem: "m \<in># H' \<longleftrightarrow> m = n \<or> m \<in># H" for m
    using H' by (metis count_greater_zero_iff)
  show "cache_ok S H' bv'"
    unfolding cache_ok_def
  proof (intro conjI ballI allI impI)
    show "buffer_ok S (volume bv') b" if "b \<in> set (buffers bv')" for b
      using others [OF that] ok b'(2) vol(2) by (cases "b = b'") (auto simp: cache_ok_def buffer_ok_def)
    show "ref_count b = count H' (buf_sector b)" if "b \<in> set (lent bv')" for b
      using that ok lent b' H' by (auto simp: cache_ok_def)
    show "buf_sector b \<in># H'" if "b \<in> set (lent bv')" for b
      using that ok lent b' mem by (auto simp: cache_ok_def)
    show "m \<in> buf_sector ` set (lent bv')" if "m \<in># H'" for m
      using that ok lent b' mem by (fastforce simp: cache_ok_def)
  qed (use vol d' in auto)
  show "view S bv' = (view S bv)(n := data_bytes b')"
  proof
    fix m
    show "view S bv' m = ((view S bv)(n := data_bytes b')) m"
    proof (cases "m \<in> buf_sector ` set (buffers bv')")
      case True
      then obtain b where "b \<in> set (buffers bv')" "m = buf_sector b" by blast
      then show ?thesis
        using others view_buffer [OF d'] view_buffer [OF d] b'(1) by (cases "b = b'") auto
    next
      case False
      moreover have "buf_sector ` set (buffers bv') = buf_sector ` set (buffers bv)"
        using keys by (metis list.set_map)
      moreover have "m \<noteq> n" using False lent b'(1) by auto
      ultimately show ?thesis using view_no_buffer [of m bv] view_no_buffer [of m bv'] vol(2) by simp
    qed
  qed
qed

text \<open>A sector that was not lent is: taken from the cache, recycled or new.\<close>

lemma lend_ok:
  assumes ok: "cache_ok S H bv" and n: "n \<notin> buf_sector ` set (lent bv)"
    and bv': "lent bv' = lent bv @ [b']"
    and cached: "set (cached bv') \<subseteq> set (cached bv)" "distinct (map buf_sector (cached bv'))"
      "n \<notin> buf_sector ` set (cached bv')"
    and b': "buf_sector b' = n" "buffer_ok S (volume bv') b'" "ref_count b' = 1"
      "data_bytes b' = view S bv n"
    and vol: "good S (volume bv')"
      "\<forall>b \<in> set (lent bv @ cached bv').
         content S (volume bv') (buf_sector b) = content S (volume bv) (buf_sector b)"
      "\<forall>m. m \<notin> buf_sector ` set (buffers bv') \<longrightarrow> content S (volume bv') m = view S bv m"
  shows "cache_ok S (add_mset n H) bv'" and "view S bv' = view S bv"
proof -
  have d: "distinct (map buf_sector (buffers bv))" using ok by (simp add: cache_ok_def)
  have d': "distinct (map buf_sector (buffers bv'))"
    using d cached n by (fastforce simp: bv' b'(1))
  have "n \<notin># H" using ok n by (auto simp: cache_ok_def)
  then have H: "count H n = 0" by (simp add: not_in_iff)
  have old: "b \<in> set (buffers bv)" if "b \<in> set (lent bv @ cached bv')" for b
    using that cached(1) by auto
  show "cache_ok S (add_mset n H) bv'"
    unfolding cache_ok_def
  proof (intro conjI ballI allI impI)
    show "buffer_ok S (volume bv') b" if "b \<in> set (buffers bv')" for b
      using that old [of b] ok b'(2) vol(2) by (auto simp: bv' cache_ok_def buffer_ok_def)
    show "ref_count b = count (add_mset n H) (buf_sector b)" if "b \<in> set (lent bv')" for b
      using that ok b' H n by (auto simp: bv' cache_ok_def)
    show "buf_sector b \<in># add_mset n H" if "b \<in> set (lent bv')" for b
      using that ok b' by (auto simp: bv' cache_ok_def)
    show "m \<in> buf_sector ` set (lent bv')" if "m \<in># add_mset n H" for m
      using that ok b' by (auto simp: bv' cache_ok_def)
  qed (use vol d' in auto)
  show "view S bv' = view S bv"
  proof (rule view_eqI [OF d d'])
    show "view S bv (buf_sector b) = data_bytes b" if "b \<in> set (buffers bv')" for b
      using that old [of b] b' view_buffer [OF d] by (cases "b = b'") (auto simp: bv')
  qed (use vol in auto)
qed

text \<open>Between \<open>bv\<close> and \<open>bv'\<close> nothing changed but that sectors may have been written back.\<close>

definition writes_back :: "'v volume_spec \<Rightarrow> 'v buffered_volume \<Rightarrow> 'v buffered_volume \<Rightarrow> bool" where
  "writes_back S bv bv' \<longleftrightarrow>
     view S bv' = view S bv
     \<and> (\<forall>m. content S (volume bv') m = content S (volume bv) m \<or> content S (volume bv') m = view S bv m)"

lemma writes_back_trans: "writes_back S bv1 bv2 \<Longrightarrow> writes_back S bv2 bv3 \<Longrightarrow> writes_back S bv1 bv3"
  unfolding writes_back_def by metis

section \<open>The cache on a volume that keeps its contract\<close>

locale volume_trait =
  fixes V :: "'v volume_ops" and S :: "'v volume_spec"
  assumes counts: "good S v \<Longrightarrow> vol_sector_count V v = nsec S \<and> vol_sector_size V v = ssize S"
    and content_length: "good S v \<Longrightarrow> n < nsec S \<Longrightarrow> length (content S v n) = ssize S"
    and read_sector: "good S v \<Longrightarrow> n < nsec S \<Longrightarrow> length buf = ssize S \<Longrightarrow>
      \<exists>v'. vol_read V v n buf = (Ok (), content S v n, v') \<and> good S v' \<and> content S v' = content S v"
    and write_sector: "good S v \<Longrightarrow> n < nsec S \<Longrightarrow> length bs = ssize S \<Longrightarrow>
      \<exists>v'. vol_write V v n bs = (Ok (), v') \<and> good S v' \<and> content S v' = (content S v)(n := bs)"
begin

text \<open>Writing back a sector: the volume then has its bytes.\<close>

lemma data_commit_ok:
  assumes "good S v" and "data_sector b = Some d" and "d < nsec S" and "length (data_bytes b) = ssize S"
    and "is_dirty b \<or> data_bytes b = content S v d"
  obtains v' where "data_commit V v b = (Ok (), b\<lparr>is_dirty := False\<rparr>, v')" and "good S v'"
    and "content S v' = (content S v)(d := data_bytes b)"
proof (cases "is_dirty b")
  case True
  with write_sector [OF assms(1,3,4)] assms(2) that show ?thesis by (auto simp: data_commit_def)
next
  case False
  then have "b\<lparr>is_dirty := False\<rparr> = b" by simp
  with False assms that show ?thesis by (auto simp: data_commit_def fun_upd_idem_iff)
qed

lemma data_initialize_own:
  assumes "good S v" and "buffer_ok S v b"
  obtains v' where "data_initialize V v b = (Ok (), b\<lparr>is_dirty := False\<rparr>, v')" and "good S v'"
    and "content S v' = (content S v)(buf_sector b := data_bytes b)"
proof -
  obtain v' where "data_commit V v b = (Ok (), b\<lparr>is_dirty := False\<rparr>, v')" "good S v'"
    "content S v' = (content S v)(buf_sector b := data_bytes b)"
    using assms(2) by (auto simp: buffer_ok_def intro: data_commit_ok [OF assms(1)])
  with that assms(2) show ?thesis by (simp add: data_initialize_def buffer_ok_def)
qed

lemma data_initialize_recycled:
  assumes "good S v" and "buffer_ok S v b" and "n < nsec S" and "n \<noteq> buf_sector b"
  obtains v' where "data_initialize V v (b\<lparr>buf_sector := n, ref_count := 1\<rparr>)
      = (Ok (), b\<lparr>buf_sector := n, data_sector := Some n, is_dirty := False, data_bytes := content S v n,
                  ref_count := 1\<rparr>, v')"
    and "good S v'" and "content S v' = (content S v)(buf_sector b := data_bytes b)"
proof -
  let ?b = "b\<lparr>buf_sector := n, ref_count := 1\<rparr>"
  obtain v1 where v1: "data_commit V v ?b = (Ok (), ?b\<lparr>is_dirty := False\<rparr>, v1)" "good S v1"
    "content S v1 = (content S v)(buf_sector b := data_bytes b)"
    using assms(2) by (auto simp: buffer_ok_def intro: data_commit_ok [OF assms(1), of ?b "buf_sector b"])
  obtain v2 where "vol_read V v1 n (data_bytes b) = (Ok (), content S v1 n, v2)" "good S v2"
    "content S v2 = content S v1"
    using read_sector [OF v1(2) assms(3)] assms(2) by (auto simp: buffer_ok_def)
  with v1 that [of v2] assms(2,4) show ?thesis by (simp add: data_initialize_def buffer_ok_def)
qed

lemma data_initialize_new:
  assumes "good S v" and "n < nsec S"
  obtains v' where "data_initialize V v ((new_buffered_sector n (ssize S))\<lparr>ref_count := 1\<rparr>)
      = (Ok (), \<lparr>buf_sector = n, data_sector = Some n, is_dirty = False, data_bytes = content S v n,
                 ref_count = 1\<rparr>, v')"
    and "good S v'" and "content S v' = content S v"
  using read_sector [OF assms, of "replicate (ssize S) 0"] that
  by (auto simp: data_initialize_def data_commit_def new_buffered_sector_def)

lemma initialize_ref_last:
  assumes "at_sector n (lent bv) = None" and "buf_sector b = n"
    and "data_initialize V (volume bv) b = (Ok (), b', v')"
  shows "initialize_ref V (bv\<lparr>lent := lent bv @ [b], cached := c\<rparr>) n
      = (Ok (), bv\<lparr>lent := lent bv @ [b'], cached := c, volume := v'\<rparr>)"
  using assms by (simp add: initialize_ref_def position_append)

lemma sector_lent:
  assumes ok: "cache_ok S H bv" and at: "at_sector n (lent bv) = Some i"
  obtains bv' where "sector V bv n = (Ok n, bv')" and "cache_ok S (add_mset n H) bv'"
    and "writes_back S bv bv'" and "content S (volume bv') n = view S bv n"
proof -
  let ?b = "lent bv ! i"
  let ?b1 = "?b\<lparr>ref_count := ref_count ?b + 1\<rparr>"
  have i: "i < length (lent bv)" "buf_sector ?b = n" using position_SomeD [OF at] by simp_all
  then have b: "?b \<in> set (buffers bv)" "?b \<in> set (lent bv)" by simp_all
  from ok b have "good S (volume bv)" "buffer_ok S (volume bv) ?b1" "view S bv n = data_bytes ?b"
    and refs: "ref_count ?b = count H n"
    using view_buffer [of bv ?b S] i(2) by (auto simp: cache_ok_def buffer_ok_def)
  then obtain v' where v': "data_initialize V (volume bv) ?b1 = (Ok (), ?b1\<lparr>is_dirty := False\<rparr>, v')"
    "good S v'" "content S v' = (content S (volume bv))(n := data_bytes ?b)"
    using data_initialize_own [of "volume bv" ?b1] i(2) by auto
  let ?bv' = "bv\<lparr>lent := (lent bv)[i := ?b1\<lparr>is_dirty := False\<rparr>], volume := v'\<rparr>"
  have "at_sector n ((lent bv)[i := ?b1]) = Some i"
    using at i(2) by (simp add: position_update)
  then have sec: "sector V bv n = (Ok n, ?bv')"
    using at v'(1) i(1) by (simp add: sector_def acquire_sector_def initialize_ref_def)
  note upd = update_lent_ok [OF ok at, of ?bv' "?b1\<lparr>is_dirty := False\<rparr>" "add_mset n H"]
  have "cache_ok S (add_mset n H) ?bv'" and "view S ?bv' = (view S bv)(n := data_bytes ?b)"
    using upd v'(2,3) i(2) refs \<open>buffer_ok S (volume bv) ?b1\<close>
    by (simp_all add: buffer_ok_def)
  moreover have "(view S bv)(n := data_bytes ?b) = view S bv"
    using \<open>view S bv n = data_bytes ?b\<close> by (simp add: fun_upd_idem)
  ultimately show ?thesis
    using that [OF sec] v'(3) \<open>view S bv n = data_bytes ?b\<close> by (simp add: writes_back_def)
qed

lemma sector_from_cache:
  assumes ok: "cache_ok S H bv" and no: "at_sector n (lent bv) = None"
    and at: "at_sector n (cached bv) = Some i"
  obtains bv' where "sector V bv n = (Ok n, bv')" and "cache_ok S (add_mset n H) bv'"
    and "writes_back S bv bv'" and "content S (volume bv') n = view S bv n"
proof -
  let ?b = "cached bv ! i"
  let ?b1 = "?b\<lparr>ref_count := 1\<rparr>"
  let ?c = "remove_nth i (cached bv)"
  have i: "i < length (cached bv)" "buf_sector ?b = n" using position_SomeD [OF at] by simp_all
  then have b: "?b \<in> set (buffers bv)" by simp
  from ok b have "good S (volume bv)" "buffer_ok S (volume bv) ?b1" and vb: "view S bv n = data_bytes ?b"
    using view_buffer [of bv ?b S] i(2) by (auto simp: cache_ok_def buffer_ok_def)
  then obtain v' where v': "data_initialize V (volume bv) ?b1 = (Ok (), ?b1\<lparr>is_dirty := False\<rparr>, v')"
    "good S v'" "content S v' = (content S (volume bv))(n := data_bytes ?b)"
    using data_initialize_own [of "volume bv" ?b1] i(2) by auto
  let ?bv' = "bv\<lparr>lent := lent bv @ [?b1\<lparr>is_dirty := False\<rparr>], cached := ?c, volume := v'\<rparr>"
  have sec: "sector V bv n = (Ok n, ?bv')"
    using no at initialize_ref_last [OF no _ v'(1), of ?c] i(2)
    by (simp add: sector_def acquire_sector_def)
  have m: "mset (cached bv) = add_mset ?b (mset ?c)" using mset_remove_nth [OF i(1)] by simp
  then have sets: "set (cached bv) = insert ?b (set ?c)" by (metis set_mset_add_mset_insert set_mset_mset)
  have "distinct (map buf_sector (?b # ?c))"
    using ok m by (subst distinct_map_mset [of _ "cached bv"]) (auto simp: cache_ok_def)
  then have c: "distinct (map buf_sector ?c)" "n \<notin> buf_sector ` set ?c" using i(2) by auto
  have n: "n \<notin> buf_sector ` set (lent bv)" using no by (auto simp: position_None)
  have keep: "\<forall>b \<in> set (lent bv @ ?c). content S v' (buf_sector b) = content S (volume bv) (buf_sector b)"
    using n c(2) v'(3) by auto
  have rest: "content S v' m = view S bv m" if "m \<notin> buf_sector ` set (buffers ?bv')" for m
    using that view_no_buffer [of m bv S] i(2) sets v'(3) by auto
  have "cache_ok S (add_mset n H) ?bv'" and "view S ?bv' = view S bv"
    by (rule lend_ok [OF ok n, where b' = "?b1\<lparr>is_dirty := False\<rparr>"];
        use sets c i(2) vb v' keep rest \<open>buffer_ok S (volume bv) ?b1\<close> in
          \<open>auto simp: buffer_ok_def simp del: set_append\<close>)+
  then show ?thesis using that [OF sec] v'(3) vb by (simp add: writes_back_def)
qed

lemma sector_recycled:
  assumes ok: "cache_ok S H bv" and no: "at_sector n (lent bv) = None" "at_sector n (cached bv) = None"
    and full: "EXPECTED_CACHE_SIZE \<le> length (cached bv)" and range: "n < nsec S"
  obtains bv' where "sector V bv n = (Ok n, bv')" and "cache_ok S (add_mset n H) bv'"
    and "writes_back S bv bv'" and "content S (volume bv') n = view S bv n"
proof -
  have "cached bv \<noteq> []" using full by (auto simp: EXPECTED_CACHE_SIZE_def)
  then obtain c b where cb: "cached bv = c @ [b]" using rev_exhaust by blast
  have n: "n \<notin> buf_sector ` set (lent bv)" "n \<notin> buf_sector ` set (cached bv)"
    using no by (auto simp: position_None)
  have b: "b \<in> set (cached bv)" using cb by simp
  with ok have gb: "good S (volume bv)" "buffer_ok S (volume bv) b" by (auto simp: cache_ok_def)
  moreover have "n \<noteq> buf_sector b" using n(2) b by auto
  ultimately obtain v' where v': "data_initialize V (volume bv) (b\<lparr>buf_sector := n, ref_count := 1\<rparr>)
      = (Ok (), b\<lparr>buf_sector := n, data_sector := Some n, is_dirty := False,
                   data_bytes := content S (volume bv) n, ref_count := 1\<rparr>, v')"
    "good S v'" "content S v' = (content S (volume bv))(buf_sector b := data_bytes b)"
    using range by (blast elim: data_initialize_recycled)
  let ?b' = "b\<lparr>buf_sector := n, data_sector := Some n, is_dirty := False,
                   data_bytes := content S (volume bv) n, ref_count := 1\<rparr>"
  let ?bv' = "bv\<lparr>lent := lent bv @ [?b'], cached := c, volume := v'\<rparr>"
  have sec: "sector V bv n = (Ok n, ?bv')"
    using no full initialize_ref_last [OF no(1) _ v'(1), of c]
    by (simp add: sector_def acquire_sector_def recycle_def cb)
  have d: "distinct (map buf_sector (buffers bv))" using ok by (simp add: cache_ok_def)
  then have sets: "set (cached bv) = insert b (set c)" "distinct (map buf_sector c)"
    "buf_sector b \<notin> buf_sector ` set (lent bv @ c)"
    by (auto simp: cb)
  have keep: "\<forall>b \<in> set (lent bv @ c). content S v' (buf_sector b) = content S (volume bv) (buf_sector b)"
    using sets(3) unfolding v'(3) by (metis fun_upd_other imageI)
  have vn: "view S bv n = content S (volume bv) n" using n by (intro view_no_buffer) auto
  have rest: "content S v' m = view S bv m" if "m \<notin> buf_sector ` set (buffers ?bv')" for m
    using that view_no_buffer [of m bv S] view_buffer [OF d, of b S] b sets(1) v'(3) by auto
  have "cache_ok S (add_mset n H) ?bv'" and "view S ?bv' = view S bv"
    by (rule lend_ok [OF ok n(1), where b' = ?b'];
        use sets n vn v' keep rest range content_length [OF gb(1) range] in
          \<open>auto simp: buffer_ok_def simp del: set_append\<close>)+
  moreover have "view S bv (buf_sector b) = data_bytes b" using view_buffer [OF d, of b S] \<open>b \<in> set (cached bv)\<close> by simp
  ultimately show ?thesis
    using that [OF sec] v'(3) vn \<open>n \<noteq> buf_sector b\<close> by (simp add: writes_back_def)
qed

lemma sector_new:
  assumes ok: "cache_ok S H bv" and no: "at_sector n (lent bv) = None" "at_sector n (cached bv) = None"
    and room: "\<not> EXPECTED_CACHE_SIZE \<le> length (cached bv)" and range: "n < nsec S"
  obtains bv' where "sector V bv n = (Ok n, bv')" and "cache_ok S (add_mset n H) bv'"
    and "writes_back S bv bv'" and "content S (volume bv') n = view S bv n"
proof -
  have n: "n \<notin> buf_sector ` set (lent bv)" "n \<notin> buf_sector ` set (cached bv)"
    using no by (auto simp: position_None)
  have g: "good S (volume bv)" using ok by (simp add: cache_ok_def)
  let ?b' = "\<lparr>buf_sector = n, data_sector = Some n, is_dirty = False,
               data_bytes = content S (volume bv) n, ref_count = 1\<rparr>"
  obtain v' where v': "data_initialize V (volume bv) ((new_buffered_sector n (ssize S))\<lparr>ref_count := 1\<rparr>)
      = (Ok (), ?b', v')" "good S v'" "content S v' = content S (volume bv)"
    using data_initialize_new [OF g range] by blast
  let ?bv' = "bv\<lparr>lent := lent bv @ [?b'], volume := v'\<rparr>"
  have sec: "sector V bv n = (Ok n, ?bv')"
    using no room initialize_ref_last [OF no(1) _ v'(1), of "cached bv"] counts [OF g]
    by (simp add: sector_def acquire_sector_def new_buffered_sector_def)
  have vn: "view S bv n = content S (volume bv) n" using n by (intro view_no_buffer) auto
  have rest: "view S bv m = content S (volume bv) m" if "m \<notin> buf_sector ` set (buffers ?bv')" for m
    using that view_no_buffer [of m bv S] by auto
  have d: "distinct (map buf_sector (cached bv))" using ok by (simp add: cache_ok_def)
  have "cache_ok S (add_mset n H) ?bv'" and "view S ?bv' = view S bv"
    by (rule lend_ok [OF ok n(1), where b' = ?b'];
        use d n vn v' rest range content_length [OF g range] in
          \<open>auto simp: buffer_ok_def simp del: set_append\<close>)+
  then show ?thesis using that [OF sec] v'(3) vn by (simp add: writes_back_def)
qed

text \<open>
  Taking a reference never fails in range, does not change what the volume contains, and leaves
  the sector itself written back.
\<close>

lemma sector_ok:
  assumes "cache_ok S H bv" and "n < nsec S"
  obtains bv' where "sector V bv n = (Ok n, bv')" and "cache_ok S (add_mset n H) bv'"
    and "writes_back S bv bv'" and "content S (volume bv') n = view S bv n"
proof (cases "at_sector n (lent bv)")
  case (Some i)
  with assms that show ?thesis by (blast intro: sector_lent)
next
  case no: None
  show ?thesis
  proof (cases "at_sector n (cached bv)")
    case (Some i)
    with assms no that show ?thesis by (blast intro: sector_from_cache)
  next
    case None
    with assms no that show ?thesis
      by (cases "EXPECTED_CACHE_SIZE \<le> length (cached bv)") (blast intro: sector_recycled sector_new)+
  qed
qed

end

text \<open>The operations on references do not need the volume.\<close>

lemma ref_bytes_ok:
  assumes "cache_ok S H bv" and "n \<in># H"
  shows "ref_bytes bv n = view S bv n"
proof -
  obtain i where i: "at_sector n (lent bv) = Some i" "i < length (lent bv)"
    "buf_sector (lent bv ! i) = n" "lent bv ! i \<in> set (lent bv)" by (rule at_lent [OF assms])
  then show ?thesis
    using assms(1) view_buffer [of bv "lent bv ! i" S] by (simp add: ref_bytes_def cache_ok_def)
qed

lemma set_ref_bytes_ok:
  assumes ok: "cache_ok S H bv" and n: "n \<in># H" and len: "length bs = ssize S"
  shows "cache_ok S H (mark_as_dirty (set_ref_bytes bv n bs) n)"
    and "view S (mark_as_dirty (set_ref_bytes bv n bs) n) = (view S bv)(n := bs)"
proof -
  obtain i where i: "at_sector n (lent bv) = Some i" "i < length (lent bv)"
    "buf_sector (lent bv ! i) = n" "lent bv ! i \<in> set (lent bv)" by (rule at_lent [OF ok n])
  let ?b = "(lent bv ! i)\<lparr>data_bytes := bs, is_dirty := True\<rparr>"
  let ?bv = "bv\<lparr>lent := (lent bv)[i := ?b]\<rparr>"
  have eq: "mark_as_dirty (set_ref_bytes bv n bs) n = ?bv"
    using i by (simp add: set_ref_bytes_def mark_as_dirty_def position_update)
  have "buffer_ok S (volume bv) ?b" "ref_count ?b = count H n"
    using ok i len by (auto simp: cache_ok_def buffer_ok_def)
  then show "cache_ok S H (mark_as_dirty (set_ref_bytes bv n bs) n)"
    and "view S (mark_as_dirty (set_ref_bytes bv n bs) n) = (view S bv)(n := bs)"
    using update_lent_ok [OF ok i(1), of ?bv ?b H] i n ok unfolding eq by (simp_all add: cache_ok_def)
qed

lemma clone_ref_ok:
  assumes ok: "cache_ok S H bv" and n: "n \<in># H"
  shows "cache_ok S (add_mset n H) (clone_ref bv n)" and "view S (clone_ref bv n) = view S bv"
proof -
  obtain i where i: "at_sector n (lent bv) = Some i" "i < length (lent bv)"
    "buf_sector (lent bv ! i) = n" "lent bv ! i \<in> set (lent bv)" by (rule at_lent [OF ok n])
  let ?b = "(lent bv ! i)\<lparr>ref_count := ref_count (lent bv ! i) + 1\<rparr>"
  let ?bv = "bv\<lparr>lent := (lent bv)[i := ?b]\<rparr>"
  have eq: "clone_ref bv n = ?bv" using i by (simp add: clone_ref_def)
  have "buffer_ok S (volume bv) ?b" "ref_count ?b = count (add_mset n H) n"
    and "view S bv n = data_bytes ?b"
    using ok i view_buffer [of bv "lent bv ! i" S] by (auto simp: cache_ok_def buffer_ok_def)
  then show "cache_ok S (add_mset n H) (clone_ref bv n)" and "view S (clone_ref bv n) = view S bv"
    using update_lent_ok [OF ok i(1), of ?bv ?b "add_mset n H"] i ok unfolding eq
    by (simp_all add: cache_ok_def fun_upd_idem)
qed

lemma return_ref_ok:
  assumes ok: "cache_ok S (add_mset n H) bv" and H: "n \<notin># H"
    and at: "at_sector n (lent bv) = Some i"
    and bv': "bv' = bv\<lparr>lent := swap_remove i (lent bv),
                        cached := (lent bv ! i)\<lparr>ref_count := 0\<rparr> # cached bv\<rparr>"
  shows "cache_ok S H bv'" and "view S bv' = view S bv"
proof -
  let ?b = "lent bv ! i"
  let ?l = "swap_remove i (lent bv)"
  have i: "i < length (lent bv)" "buf_sector ?b = n" using position_SomeD [OF at] by simp_all
  have m: "mset (lent bv) = add_mset ?b (mset ?l)" using mset_swap_remove [OF i(1)] by simp
  then have sets: "set (lent bv) = insert ?b (set ?l)" by (metis set_mset_add_mset_insert set_mset_mset)
  have d: "distinct (map buf_sector (buffers bv))" using ok by (simp add: cache_ok_def)
  have "mset (map buf_sector (buffers bv')) = mset (map buf_sector (buffers bv))"
    by (simp add: bv' m)
  then have d': "distinct (map buf_sector (buffers bv'))"
    using d by (metis mset_eq_imp_distinct_iff)
  have other: "buf_sector b \<noteq> n" if "b \<in> set ?l" for b
    using d' i(2) imageI [OF that, of buf_sector] by (auto simp: bv')
  show "cache_ok S H bv'"
    unfolding cache_ok_def
  proof (intro conjI ballI allI impI)
    show "good S (volume bv')" using ok by (simp add: cache_ok_def bv')
    show "buffer_ok S (volume bv') b" if "b \<in> set (buffers bv')" for b
      using that ok sets by (auto simp: cache_ok_def buffer_ok_def bv')
    show "ref_count b = count H (buf_sector b)" if "b \<in> set (lent bv')" for b
      using that ok sets other by (auto simp: cache_ok_def bv')
    show "buf_sector b \<in># H" if "b \<in> set (lent bv')" for b
      using that ok sets other by (auto simp: cache_ok_def bv')
    show "x \<in> buf_sector ` set (lent bv')" if "x \<in># H" for x
    proof -
      have "x \<in> buf_sector ` set (lent bv)" using ok that by (auto simp: cache_ok_def)
      moreover have "x \<noteq> n" using that H by auto
      ultimately show ?thesis using sets i(2) by (auto simp: bv')
    qed
  qed (rule d')
  show "view S bv' = view S bv"
  proof (rule view_eqI [OF d d'])
    show "view S bv (buf_sector b) = data_bytes b" if "b \<in> set (buffers bv')" for b
    proof (cases "b \<in> set ?l \<or> b \<in> set (cached bv)")
      case True
      then show ?thesis using view_buffer [OF d, of b S] sets by auto
    next
      case False
      with that have "b = ?b\<lparr>ref_count := 0\<rparr>" by (auto simp: bv')
      then show ?thesis using view_buffer [OF d, of ?b S] i by simp
    qed
    show "view S bv m = content S (volume bv') m" if "m \<notin> buf_sector ` set (buffers bv')" for m
      using that sets i(2) view_no_buffer [of m bv S] by (auto simp: bv')
  qed
qed

lemma drop_ref_ok:
  assumes ok: "cache_ok S (add_mset n H) bv"
  shows "cache_ok S H (drop_ref bv n)" and "writes_back S bv (drop_ref bv n)"
proof -
  obtain i where i: "at_sector n (lent bv) = Some i" "i < length (lent bv)"
    "buf_sector (lent bv ! i) = n" "lent bv ! i \<in> set (lent bv)"
    using at_lent [OF ok, of n] by auto
  let ?b = "lent bv ! i"
  have refs: "ref_count ?b = Suc (count H n)" using ok i by (auto simp: cache_ok_def)
  have "cache_ok S H (drop_ref bv n) \<and> view S (drop_ref bv n) = view S bv"
  proof (cases "n \<in># H")
    case False
    then have "ref_count ?b = 1" using refs by (simp add: not_in_iff)
    then show ?thesis
      using return_ref_ok [OF ok False i(1) refl] i by (simp add: drop_ref_def)
  next
    case True
    let ?b1 = "?b\<lparr>ref_count := ref_count ?b - 1\<rparr>"
    let ?bv = "bv\<lparr>lent := (lent bv)[i := ?b1]\<rparr>"
    have "ref_count ?b \<noteq> 1" using True refs by (simp add: count_eq_zero_iff)
    then have eq: "drop_ref bv n = ?bv" using i by (simp add: drop_ref_def Let_def)
    have "buffer_ok S (volume bv) ?b1" "view S bv n = data_bytes ?b1"
      using ok i view_buffer [of bv ?b S] by (auto simp: cache_ok_def buffer_ok_def)
    then show ?thesis
      using update_lent_ok [OF ok i(1), of ?bv ?b1 H] i ok True refs unfolding eq
      by (simp add: cache_ok_def fun_upd_idem)
  qed
  moreover have "volume (drop_ref bv n) = volume bv"
    by (simp add: drop_ref_def Let_def split: option.split)
  ultimately show "cache_ok S H (drop_ref bv n)" and "writes_back S bv (drop_ref bv n)"
    by (simp_all add: writes_back_def)
qed

section \<open>Committing\<close>

context volume_trait
begin

lemma ref_commit_ok:
  assumes ok: "cache_ok S H bv" and n: "n \<in># H"
  obtains bv' where "ref_commit V bv n = (Ok (), bv')" and "cache_ok S H bv'"
    and "writes_back S bv bv'" and "content S (volume bv') n = view S bv n"
proof -
  obtain i where i: "at_sector n (lent bv) = Some i" "i < length (lent bv)"
    "buf_sector (lent bv ! i) = n" "lent bv ! i \<in> set (lent bv)" by (rule at_lent [OF assms])
  let ?b = "lent bv ! i"
  have g: "good S (volume bv)" and bok: "buffer_ok S (volume bv) ?b" and vb: "view S bv n = data_bytes ?b"
    and refs: "ref_count ?b = count H n"
    using ok i view_buffer [of bv ?b S] by (auto simp: cache_ok_def)
  obtain v' where v': "data_commit V (volume bv) ?b = (Ok (), ?b\<lparr>is_dirty := False\<rparr>, v')" "good S v'"
    "content S v' = (content S (volume bv))(n := data_bytes ?b)"
    using bok i(3) by (auto simp: buffer_ok_def intro: data_commit_ok [OF g])
  let ?bv' = "bv\<lparr>lent := (lent bv)[i := ?b\<lparr>is_dirty := False\<rparr>], volume := v'\<rparr>"
  note upd = update_lent_ok [OF ok i(1), of ?bv' "?b\<lparr>is_dirty := False\<rparr>" H]
  have "cache_ok S H ?bv'" and "view S ?bv' = (view S bv)(n := data_bytes ?b)"
    using upd v'(2,3) i(3) bok n refs by (simp_all add: buffer_ok_def)
  then show ?thesis
    using that [of ?bv'] v' i(1) vb by (simp add: ref_commit_def writes_back_def fun_upd_idem)
qed

lemma commit_sectors_ok:
  assumes "cache_ok S H bv" and "\<forall>n \<in> set ns. n < nsec S"
  shows "\<exists>bv'. commit_sectors V bv ns = (Ok (), bv') \<and> cache_ok S H bv' \<and> writes_back S bv bv'
    \<and> (\<forall>n \<in> set ns. content S (volume bv') n = view S bv n)"
  using assms
proof (induction ns arbitrary: bv)
  case Nil
  then show ?case by (simp add: writes_back_def)
next
  case (Cons n ns)
  have "n < nsec S" using Cons.prems(2) by simp
  obtain bv1 where 1: "sector V bv n = (Ok n, bv1)" "cache_ok S (add_mset n H) bv1"
    "writes_back S bv bv1" "content S (volume bv1) n = view S bv n"
    by (rule sector_ok [OF Cons.prems(1) \<open>n < nsec S\<close>])
  obtain bv2 where 2: "ref_commit V bv1 n = (Ok (), bv2)" "cache_ok S (add_mset n H) bv2"
    "writes_back S bv1 bv2" "content S (volume bv2) n = view S bv1 n"
    using ref_commit_ok [OF 1(2), of n] by auto
  note 3 = drop_ref_ok [OF 2(2)]
  obtain bv4 where 4: "commit_sectors V (drop_ref bv2 n) ns = (Ok (), bv4)" "cache_ok S H bv4"
    "writes_back S (drop_ref bv2 n) bv4"
    "\<forall>m \<in> set ns. content S (volume bv4) m = view S (drop_ref bv2 n) m"
    using Cons.IH [OF 3(1)] Cons.prems(2) by auto
  have wb: "writes_back S bv (drop_ref bv2 n)"
    using 1(3) 2(3) 3(2) by (blast intro: writes_back_trans)
  then have views: "view S (drop_ref bv2 n) = view S bv" by (simp add: writes_back_def)
  have "content S (volume (drop_ref bv2 n)) n = view S bv n"
    using 1(3) 2(3,4) 3(2) unfolding writes_back_def by metis
  then have "content S (volume bv4) n = view S bv n"
    using 4(3) views unfolding writes_back_def by metis
  then show ?case
    using 1(1) 2(1) 4 views writes_back_trans [OF wb 4(3)] by simp
qed

lemma unbuffered_content:
  assumes "cache_ok S {#} bv" and "m \<notin> set (map buf_sector (cached bv))"
  shows "content S (volume bv) m = view S bv m"
proof -
  have "lent bv = []" using assms(1) by (cases "lent bv") (auto simp: cache_ok_def)
  then show ?thesis using assms(2) view_no_buffer [of m bv S] by simp
qed

lemma commit_ok:
  assumes "cache_ok S H bv"
  obtains bv' where "commit V bv = (Ok (), bv')" and "cache_ok S H bv'" and "view S bv' = view S bv"
    and "H = {#} \<Longrightarrow> content S (volume bv') = view S bv"
proof -
  have "\<forall>n \<in> set (map buf_sector (cached bv)). n < nsec S"
    using assms by (auto simp: cache_ok_def buffer_ok_def)
  from commit_sectors_ok [OF assms this] obtain bv' where bv': "commit V bv = (Ok (), bv')"
    "cache_ok S H bv'" "writes_back S bv bv'"
    "\<forall>n \<in> set (map buf_sector (cached bv)). content S (volume bv') n = view S bv n"
    by (auto simp: commit_def)
  moreover have "content S (volume bv') = view S bv" if "H = {#}"
    using bv'(3,4) unbuffered_content [of bv] assms that unfolding writes_back_def by (metis ext)
  ultimately show ?thesis using that by (simp add: writes_back_def)
qed

lemma new_buffered_volume_ok:
  assumes "good S v"
  shows "cache_ok S {#} (new_buffered_volume v)" and "view S (new_buffered_volume v) = content S v"
  using assms by (auto simp: new_buffered_volume_def cache_ok_def view_def)

end

section \<open>The cache as a state machine\<close>

text \<open>
  Every way to use a \<open>BufferedVolume\<close>: references are taken, cloned and dropped, sectors are
  written through references, and the volume is committed. \<open>H\<close> are the references in use and \<open>a\<close>
  the contents a volume without cache would have.
\<close>

inductive cache_run ::
    "'v volume_ops \<Rightarrow> 'v volume_spec \<Rightarrow> 'v buffered_volume \<Rightarrow> nat multiset \<Rightarrow> (nat \<Rightarrow> bytes) \<Rightarrow> bool"
  for V S where
  start: "good S v \<Longrightarrow> cache_run V S (new_buffered_volume v) {#} (content S v)"
| get: "cache_run V S bv H a \<Longrightarrow> n < nsec S \<Longrightarrow> sector V bv n = (Ok r, bv') \<Longrightarrow>
    cache_run V S bv' (add_mset n H) a"
| put: "cache_run V S bv H a \<Longrightarrow> n \<in># H \<Longrightarrow> length bs = ssize S \<Longrightarrow>
    cache_run V S (mark_as_dirty (set_ref_bytes bv n bs) n) H (a(n := bs))"
| clone: "cache_run V S bv H a \<Longrightarrow> n \<in># H \<Longrightarrow> cache_run V S (clone_ref bv n) (add_mset n H) a"
| drop: "cache_run V S bv (add_mset n H) a \<Longrightarrow> cache_run V S (drop_ref bv n) H a"
| commit: "cache_run V S bv H a \<Longrightarrow> commit V bv = (Ok (), bv') \<Longrightarrow> cache_run V S bv' H a"

context volume_trait
begin

lemma cache_run_ok:
  assumes "cache_run V S bv H a"
  shows "cache_ok S H bv \<and> view S bv = a"
  using assms
proof induction
  case (start v)
  then show ?case using new_buffered_volume_ok by blast
next
  case (get bv H a n r bv')
  then show ?case by (auto simp: writes_back_def elim!: sector_ok [of H bv n])
next
  case (put bv H a n bs)
  then show ?case using set_ref_bytes_ok by blast
next
  case (clone bv H a n)
  then show ?case using clone_ref_ok by blast
next
  case (drop bv n H a)
  then show ?case using drop_ref_ok [of S n H bv] by (auto simp: writes_back_def)
next
  case (commit bv H a bv')
  then show ?case by (metis Pair_inject commit_ok)
qed

end

section \<open>Properties\<close>

text \<open>A volume in memory, for evaluation: a list of sectors of one size.\<close>

definition ram_ops :: "nat \<Rightarrow> bytes list volume_ops" where
  "ram_ops sz =
     \<lparr>vol_sector_count = length,
      vol_sector_size = (\<lambda>v. sz),
      vol_read = (\<lambda>v n buf. if n < length v then (Ok (), v ! n, v)
                    else (Err \<lparr>err_sector = n, err_kind = OutOfRange\<rparr>, buf, v)),
      vol_write = (\<lambda>v n bs. if n < length v then (Ok (), v[n := bs])
                    else (Err \<lparr>err_sector = n, err_kind = OutOfRange\<rparr>, v))\<rparr>"

definition ram_spec :: "nat \<Rightarrow> nat \<Rightarrow> bytes list volume_spec" where
  "ram_spec k sz =
     \<lparr>good = (\<lambda>v. length v = k \<and> (\<forall>s \<in> set v. length s = sz)), content = (\<lambda>v n. if n < k then v ! n else []),
      nsec = k, ssize = sz\<rparr>"

lemma ram_volume_trait: "volume_trait (ram_ops sz) (ram_spec k sz)"
  by unfold_locales
    (auto simp: ram_ops_def ram_spec_def fun_eq_iff dest: set_update_subset_insert [THEN subsetD])



text \<open>Write sector 0, then touch the sectors 1 to 7: sector 0 is the least recently used one, still dirty.\<close>

definition touch_sector :: "nat \<Rightarrow> bytes list buffered_volume \<Rightarrow> bytes list buffered_volume" where
  "touch_sector n bv = drop_ref (snd (sector (ram_ops 1) bv n)) n"

definition dirty_lru :: "bytes list buffered_volume" where
  "dirty_lru =
     (let bv = snd (sector (ram_ops 1) (new_buffered_volume (replicate 9 [0])) 0);
          bv' = drop_ref (mark_as_dirty (set_ref_bytes bv 0 [7]) 0) 0
      in fold touch_sector [1..<8] bv')"


end
