(* ===== verification/Fat_Low_Level.thy ===== *)
theory Fat_Low_Level
  imports Boot_Sector Fat_Entry Sector_Volume
begin

text \<open>
  The FAT and the clusters, \<open>fs/fat/low_level.rs\<close>, on top of the sector cache. The state is the
  buffered volume; the operations of the volume \<open>V\<close> and the boot sector \<open>bs\<close>, which a mounted
  file system never changes, are arguments. \<open>BufferedFat\<close> and \<open>BufferedCluster\<close> remember the
  reference to the sector they used last: dropping it is part of every operation that replaces it,
  and of the end of the object's life.
\<close>

section \<open>Errors and mounting\<close>

text \<open>\<open>fat::Error\<close>, with the conversions the \<open>?\<close> operator uses.\<close>

datatype fs_error =
    VolumeErr volume_error
  | BootSectorErr boot_sector_error
  | Full
  | DirectoryNotEmpty
  | FileAlreadyExists
  | InvalidFileName

text \<open>\<open>unwrap\<close> and assertions: a missing value is a panic.\<close>

fun or_panic :: "'a option \<Rightarrow> (fs_error, 'a) outcome" where
  "or_panic (Some x) = Ok x"
| "or_panic None = Panic"

record 'v fat_root =
  root_volume :: "'v buffered_volume"
  root_bs :: boot_sector

definition new_root :: "'v volume_ops \<Rightarrow> 'v \<Rightarrow> (fs_error, 'v fat_root) outcome" where
  "new_root V v =
     (let sz = vol_sector_size V v in
      case vol_read V v 0 (replicate sz 0) of
        (res, buf, v') \<Rightarrow>
          try_then (map_err VolumeErr res) (\<lambda>_.
          try_then (map_err BootSectorErr (boot_sector_try_from buf)) (\<lambda>bs.
            if bs_sector_size bs \<noteq> sz then Err (BootSectorErr (Broken ''BytsPerSec (mismatch)''))
            else try_then (or_panic (total_sector_count bs)) (\<lambda>total.
              if vol_sector_count V v' < total then Err (BootSectorErr (Broken ''TotSec (mismatch)''))
              else Ok \<lparr>root_volume = new_buffered_volume v', root_bs = bs\<rparr>))))"

definition root_commit ::
    "'v volume_ops \<Rightarrow> 'v buffered_volume \<Rightarrow> (fs_error, unit) outcome \<times> 'v buffered_volume" where
  "root_commit V bv = (case commit V bv of (res, bv') \<Rightarrow> (map_err VolumeErr res, bv'))"

section \<open>The reference used last\<close>

type_synonym 'v ref_state = "nat option \<times> 'v buffered_volume"

text \<open>
  \<open>if !matches!(self.last, Some(ref r) if r.sector() == sector) { self.last = Some(volume.sector(sector)?); }\<close>:
  the old reference is dropped when the new one takes its place.
\<close>

fun drop_last :: "'v ref_state \<Rightarrow> 'v buffered_volume" where
  "drop_last (None, bv) = bv"
| "drop_last (Some r, bv) = drop_ref bv r"

fun switch_ref :: "'v volume_ops \<Rightarrow> nat \<Rightarrow> 'v ref_state \<Rightarrow> (fs_error, nat) outcome \<times> 'v ref_state" where
  "switch_ref V n (last_ref, bv) =
     (if last_ref = Some n then (Ok n, (last_ref, bv))
      else (case sector V bv n of
              (Ok r, bv') \<Rightarrow> (Ok r, (Some r, drop_last (last_ref, bv')))
            | (Err e, bv') \<Rightarrow> (Err (VolumeErr e), (last_ref, bv'))
            | (Panic, bv') \<Rightarrow> (Panic, (last_ref, bv'))
            | (Hang, bv') \<Rightarrow> (Hang, (last_ref, bv'))))"

section \<open>BufferedFat\<close>

text \<open>\<open>entry\<close>: the sector of a cluster's entry, and the offset of the entry.\<close>

definition fat_entry_ref ::
    "'v volume_ops \<Rightarrow> boot_sector \<Rightarrow> nat \<Rightarrow> 'v ref_state \<Rightarrow> (fs_error, nat \<times> nat) outcome \<times> 'v ref_state" where
  "fat_entry_ref V bs cluster st =
     try_st (or_panic (fat_entry_location bs cluster), st) (\<lambda>(sec, offset) st.
     try_st (switch_ref V sec st) (\<lambda>r st. (Ok (r, offset), st)))"

definition fat_read ::
    "'v volume_ops \<Rightarrow> boot_sector \<Rightarrow> nat \<Rightarrow> 'v ref_state \<Rightarrow> (fs_error, fat_entry) outcome \<times> 'v ref_state" where
  "fat_read V bs cluster st =
     try_st (fat_entry_ref V bs cluster st) (\<lambda>(r, offset) (last_ref, bv).
       (if in_range offset 4 (ref_bytes bv r)
        then Ok (fat_entry_from_u32 (from_le_bytes (array 4 offset (ref_bytes bv r)))) else Panic,
        (last_ref, bv)))"

definition fat_write ::
    "'v volume_ops \<Rightarrow> boot_sector \<Rightarrow> nat \<Rightarrow> fat_entry \<Rightarrow> 'v ref_state \<Rightarrow> (fs_error, unit) outcome \<times> 'v ref_state" where
  "fat_write V bs cluster e st =
     try_st (fat_entry_ref V bs cluster st) (\<lambda>(r, offset) (last_ref, bv).
       (if in_range offset 4 (ref_bytes bv r)
        then (let bytes = copy_from_array offset (to_le_bytes 4 (fat_entry_into_u32 e)) (ref_bytes bv r)
              in (Ok (), (last_ref, mark_as_dirty (set_ref_bytes bv r bytes) r)))
        else (Panic, (last_ref, bv))))"

text \<open>
  \<open>allocate\<close>: the loop over \<open>FatEntries\<close>, which starts at cluster 2 and ends at the first cluster
  number that is not available, or where an entry cannot be read.
\<close>

function fat_search ::
    "'v volume_ops \<Rightarrow> boot_sector \<Rightarrow> nat \<Rightarrow> 'v ref_state \<Rightarrow> (fs_error, nat) outcome \<times> 'v ref_state" where
  "fat_search V bs c st =
     (case is_cluster_available bs c of
        None \<Rightarrow> (Panic, st)
      | Some False \<Rightarrow> (Err Full, st)
      | Some True \<Rightarrow>
          (case fat_read V bs c st of
             (Ok e, st') \<Rightarrow>
               if e = FatUnused
               then try_st (fat_write V bs c UsedEoc st') (\<lambda>_ st. (Ok c, st))
               else fat_search V bs (c + 1) st'
           | (Err _, st') \<Rightarrow> (Err Full, st')
           | (Panic, st') \<Rightarrow> (Panic, st')
           | (Hang, st') \<Rightarrow> (Hang, st')))"
  by pat_completeness auto
termination
  by (relation "measure (\<lambda>(V, bs, c, st). case cluster_count bs of None \<Rightarrow> 0 | Some n \<Rightarrow> n + 2 - c)")
    (auto simp: is_cluster_available_def split: if_splits option.splits)

declare fat_search.simps [simp del]

definition fat_allocate ::
    "'v volume_ops \<Rightarrow> boot_sector \<Rightarrow> 'v ref_state \<Rightarrow> (fs_error, nat) outcome \<times> 'v ref_state" where
  "fat_allocate V bs st = fat_search V bs 2 st"

text \<open>\<open>release\<close>: the \<open>while let\<close> loop along the chain; one unit of fuel per cluster.\<close>

fun fat_release ::
    "nat \<Rightarrow> 'v volume_ops \<Rightarrow> boot_sector \<Rightarrow> nat option \<Rightarrow> 'v ref_state \<Rightarrow> (fs_error, unit) outcome \<times> 'v ref_state" where
  "fat_release fuel V bs None st = (Ok (), st)"
| "fat_release 0 V bs (Some c) st = (Hang, st)"
| "fat_release (Suc fuel) V bs (Some c) st =
     try_st (fat_read V bs c st) (\<lambda>e st.
       case e of
         UsedChained next_c \<Rightarrow>
           try_st (fat_write V bs c FatUnused st) (\<lambda>_ st. fat_release fuel V bs (Some next_c) st)
       | UsedEoc \<Rightarrow> try_st (fat_write V bs c FatUnused st) (\<lambda>_ st. fat_release fuel V bs None st)
       | _ \<Rightarrow> (Ok (), st))"

text \<open>
  \<open>self.root.fat()\<close> makes a \<open>BufferedFat\<close> with no reference; as a temporary it is dropped at the end
  of the statement.
\<close>

definition with_fat ::
    "('v ref_state \<Rightarrow> (fs_error, 'a) outcome \<times> 'v ref_state) \<Rightarrow> 'v buffered_volume
      \<Rightarrow> (fs_error, 'a) outcome \<times> 'v buffered_volume" where
  "with_fat f bv = (case f (None, bv) of (res, st) \<Rightarrow> (res, drop_last st))"

section \<open>BufferedCluster\<close>

record buffered_cluster =
  bc_cluster :: nat
  first_sector :: nat
  sector_count :: nat
  bc_sector_size :: nat
  bc_last :: "nat option"

definition root_cluster :: "boot_sector \<Rightarrow> nat \<Rightarrow> (fs_error, buffered_cluster) outcome" where
  "root_cluster bs c =
     try_then (or_panic (cluster_location bs c)) (\<lambda>s.
       Ok \<lparr>bc_cluster = c, first_sector = s, sector_count = cluster_size bs,
           bc_sector_size = bs_sector_size bs, bc_last = None\<rparr>)"

definition bc_size :: "buffered_cluster \<Rightarrow> nat" where
  "bc_size c = bc_sector_size c * sector_count c"

type_synonym 'v cluster_state = "buffered_cluster \<times> 'v buffered_volume"

fun cluster_sector_ref ::
    "'v volume_ops \<Rightarrow> nat \<Rightarrow> 'v cluster_state \<Rightarrow> (fs_error, nat) outcome \<times> 'v cluster_state" where
  "cluster_sector_ref V index (c, bv) =
     (if index < sector_count c
      then (case switch_ref V (first_sector c + index) (bc_last c, bv) of
              (res, (last_ref, bv')) \<Rightarrow> (res, (c\<lparr>bc_last := last_ref\<rparr>, bv')))
      else (Panic, (c, bv)))"

text \<open>
  \<open>sector_range\<close>: the sectors a byte range touches, with the part of each. The assertion
  \<open>start <= end && end <= self.size()\<close> and the division are checked.
\<close>

definition sector_part :: "nat \<Rightarrow> nat \<Rightarrow> nat \<Rightarrow> nat \<Rightarrow> (nat \<times> nat \<times> nat) option" where
  "sector_part sz start end_pos sec =
     (let ss = start div sz; es = end_pos div sz;
          i = (if sec = ss then start mod sz else 0);
          j = (if sec = es then end_pos mod sz else sz)
      in if i < j then Some (sec, i, j) else None)"

definition sector_range :: "buffered_cluster \<Rightarrow> nat \<Rightarrow> nat \<Rightarrow> (nat \<times> nat \<times> nat) list option" where
  "sector_range c start end_pos =
     (let sz = bc_sector_size c in
      if start \<le> end_pos \<and> end_pos \<le> bc_size c \<and> sz \<noteq> 0
      then Some (List.map_filter (sector_part sz start end_pos) [start div sz..<end_pos div sz + 1])
      else None)"

text \<open>
  The loops of \<open>read\<close> and \<open>write\<close>. \<open>read\<close> fills \<open>buf\<close> from the front and yields it; slicing a
  buffer that is too short is a panic.
\<close>

fun read_parts ::
    "'v volume_ops \<Rightarrow> (nat \<times> nat \<times> nat) list \<Rightarrow> bytes \<Rightarrow> 'v cluster_state
      \<Rightarrow> (fs_error, bytes) outcome \<times> 'v cluster_state" where
  "read_parts V [] buf st = (Ok buf, st)"
| "read_parts V ((sec, i, j) # ps) buf st =
     try_st (cluster_sector_ref V sec st) (\<lambda>r (c, bv).
       if j - i \<le> length buf \<and> in_range i (j - i) (ref_bytes bv r)
       then try_st (read_parts V ps (drop (j - i) buf) (c, bv))
              (\<lambda>rest st. (Ok (array (j - i) i (ref_bytes bv r) @ rest), st))
       else (Panic, (c, bv)))"

fun write_parts ::
    "'v volume_ops \<Rightarrow> (nat \<times> nat \<times> nat) list \<Rightarrow> bytes \<Rightarrow> 'v cluster_state
      \<Rightarrow> (fs_error, unit) outcome \<times> 'v cluster_state" where
  "write_parts V [] buf st = (Ok (), st)"
| "write_parts V ((sec, i, j) # ps) buf st =
     try_st (cluster_sector_ref V sec st) (\<lambda>r (c, bv).
       if j - i \<le> length buf \<and> in_range i (j - i) (ref_bytes bv r)
       then (let bytes = copy_from_array i (take (j - i) buf) (ref_bytes bv r)
             in write_parts V ps (drop (j - i) buf) (c, mark_as_dirty (set_ref_bytes bv r bytes) r))
       else (Panic, (c, bv)))"

definition cluster_read ::
    "'v volume_ops \<Rightarrow> nat \<Rightarrow> bytes \<Rightarrow> 'v cluster_state \<Rightarrow> (fs_error, bytes) outcome \<times> 'v cluster_state" where
  "cluster_read V offset buf st =
     try_st (or_panic (sector_range (fst st) offset (offset + length buf)), st)
       (\<lambda>ps st. read_parts V ps buf st)"

definition cluster_write ::
    "'v volume_ops \<Rightarrow> nat \<Rightarrow> bytes \<Rightarrow> 'v cluster_state \<Rightarrow> (fs_error, unit) outcome \<times> 'v cluster_state" where
  "cluster_write V offset buf st =
     try_st (or_panic (sector_range (fst st) offset (offset + length buf)), st)
       (\<lambda>ps st. write_parts V ps buf st)"

text \<open>The end of a \<open>BufferedCluster\<close>'s life, and its clone.\<close>

fun drop_cluster :: "'v cluster_state \<Rightarrow> 'v buffered_volume" where
  "drop_cluster (c, bv) = drop_last (bc_last c, bv)"

section \<open>ChainedCluster\<close>

definition chained_read ::
    "'v volume_ops \<Rightarrow> boot_sector \<Rightarrow> nat \<Rightarrow> 'v buffered_volume \<Rightarrow> (fs_error, nat option) outcome \<times> 'v buffered_volume" where
  "chained_read V bs src bv =
     try_st (with_fat (fat_read V bs src) bv) (\<lambda>e bv. (Ok (chain e), bv))"

definition chained_get ::
    "'v volume_ops \<Rightarrow> boot_sector \<Rightarrow> nat \<Rightarrow> 'v buffered_volume
      \<Rightarrow> (fs_error, buffered_cluster option) outcome \<times> 'v buffered_volume" where
  "chained_get V bs src bv =
     try_st (chained_read V bs src bv) (\<lambda>c bv.
       (case c of None \<Rightarrow> Ok None | Some c \<Rightarrow> try_then (root_cluster bs c) (\<lambda>bc. Ok (Some bc)), bv))"

definition chained_prepare ::
    "'v volume_ops \<Rightarrow> boot_sector \<Rightarrow> nat \<Rightarrow> 'v buffered_volume
      \<Rightarrow> (fs_error, buffered_cluster) outcome \<times> 'v buffered_volume" where
  "chained_prepare V bs src bv =
     try_st (chained_read V bs src bv) (\<lambda>c bv.
       case c of
         Some c \<Rightarrow> (root_cluster bs c, bv)
       | None \<Rightarrow>
           try_st (with_fat (fat_allocate V bs) bv) (\<lambda>c bv.
           try_st (with_fat (fat_write V bs src (UsedChained c)) bv) (\<lambda>_ bv.
             (root_cluster bs c, bv))))"

definition chained_release ::
    "nat \<Rightarrow> 'v volume_ops \<Rightarrow> boot_sector \<Rightarrow> nat \<Rightarrow> 'v buffered_volume \<Rightarrow> (fs_error, unit) outcome \<times> 'v buffered_volume" where
  "chained_release fuel V bs src bv =
     try_st (chained_read V bs src bv) (\<lambda>c bv.
       case c of
         None \<Rightarrow> (Ok (), bv)
       | Some c \<Rightarrow>
           try_st (with_fat (fat_write V bs src FatUnused) bv) (\<lambda>_ bv.
             with_fat (fat_release fuel V bs (Some c)) bv))"

section \<open>The abstract view of the FAT\<close>

text \<open>
  A view \<open>w\<close> gives every sector its bytes (\<open>view\<close> of \<open>Sector_Volume\<close>). The entry of a cluster in a
  view, and the view with an entry replaced.
\<close>

definition fat_of :: "boot_sector \<Rightarrow> (nat \<Rightarrow> bytes) \<Rightarrow> nat \<Rightarrow> fat_entry" where
  "fat_of bs w c = fat_entry_from_u32 (from_le_bytes (array 4 (fat_offset bs c) (w (fat_sector bs c))))"

definition fat_put :: "boot_sector \<Rightarrow> nat \<Rightarrow> fat_entry \<Rightarrow> (nat \<Rightarrow> bytes) \<Rightarrow> nat \<Rightarrow> bytes" where
  "fat_put bs c e w =
     w(fat_sector bs c :=
         copy_from_array (fat_offset bs c) (to_le_bytes 4 (fat_entry_into_u32 e)) (w (fat_sector bs c)))"

text \<open>The sectors of the volume have the size the boot sector says.\<close>

definition sectors_ok :: "boot_sector \<Rightarrow> (nat \<Rightarrow> bytes) \<Rightarrow> bool" where
  "sectors_ok bs w \<longleftrightarrow> (\<forall>n < unat (bpb_tot_sec_32 bs). length (w n) = bs_sector_size bs)"

definition held :: "nat option \<Rightarrow> nat multiset" where
  "held last_ref = (case last_ref of None \<Rightarrow> {#} | Some r \<Rightarrow> {#r#})"

lemma held_simps [simp]: "held None = {#}" "held (Some r) = {#r#}"
  by (simp_all add: held_def)

lemma fat_sector_in_volume:
  assumes "geometry_ok bs" and "available bs c"
  shows "fat_sector bs c < unat (bpb_tot_sec_32 bs)"
  using fat_sector_bounds(2) [OF assms] assms(1) by (simp add: geometry_ok_def)

lemma fat_entry_bytes_in_range:
  assumes "geometry_ok bs" and "available bs c" and "sectors_ok bs w"
  shows "fat_offset bs c + 4 \<le> length (w (fat_sector bs c))"
  using fat_sector_in_volume [OF assms(1,2)] fat_offset_in_sector [of bs c] assms(1,3)
  by (simp add: geometry_ok_def sectors_ok_def)

text \<open>The lookup and update laws of the FAT.\<close>

lemma fat_of_put:
  assumes "geometry_ok bs" and "available bs c" and "available bs d" and "sectors_ok bs w"
    and "fat_entry_wf e"
  shows "fat_of bs (fat_put bs c e w) d = (if d = c then e else fat_of bs w d)"
proof -
  have wf: "boot_sector_wf bs" using assms(1) by (simp add: geometry_ok_def)
  note c = fat_entry_bytes_in_range [OF assms(1,2,4)]
  note d = fat_entry_bytes_in_range [OF assms(1,3,4)]
  show ?thesis
  proof (cases "d = c")
    case True
    then show ?thesis using c assms(5) by (simp add: fat_of_def fat_put_def fat_entry_from_into)
  next
    case ne: False
    show ?thesis
    proof (cases "fat_sector bs d = fat_sector bs c")
      case True
      obtain i j where ij: "fat_offset bs c = 4 * i" "fat_offset bs d = 4 * j"
        using fat_offset_aligned [OF wf] by (metis dvdE)
      have "4 * j + 4 \<le> 4 * i \<or> 4 * i + 4 \<le> 4 * j"
        using fat_location_inj [OF wf, of d c] True ne ij by (cases i j rule: linorder_cases) auto
      with ne True c d ij show ?thesis
        by (simp add: fat_of_def fat_put_def array_copy_other)
    next
      case False
      with ne show ?thesis by (simp add: fat_of_def fat_put_def)
    qed
  qed
qed

lemma fat_put_sectors:
  assumes "geometry_ok bs" and "available bs c" and "sectors_ok bs w"
  shows "sectors_ok bs (fat_put bs c e w)"
proof -
  let ?s = "fat_sector bs c"
  have "length (fat_put bs c e w ?s) = length (w ?s)"
    using fat_entry_bytes_in_range [OF assms] by (simp add: fat_put_def)
  then show ?thesis using assms(3) by (auto simp: sectors_ok_def fat_put_def)
qed

lemma fat_put_data:
  assumes "geometry_ok bs" and "available bs c" and "data_start bs \<le> n"
  shows "fat_put bs c e w n = w n"
  using fat_sector_bounds(2) [OF assms(1,2)] assms(3) by (simp add: fat_put_def)

section \<open>Reading and writing the FAT\<close>

text \<open>A file system with consistent geometry on a volume that keeps its contract.\<close>

locale fat_volume = volume_trait V S
  for V :: "'v volume_ops" and S :: "'v volume_spec" +
  fixes bs :: boot_sector
  assumes geometry: "geometry_ok bs"
    and sector_sizes: "ssize S = bs_sector_size bs"
    and volume_size: "unat (bpb_tot_sec_32 bs) \<le> nsec S"
begin

lemma view_sectors_ok:
  assumes "cache_ok S H bv"
  shows "sectors_ok bs (view S bv)"
  unfolding sectors_ok_def
proof (intro allI impI)
  fix n assume "n < unat (bpb_tot_sec_32 bs)"
  then have n: "n < nsec S" using volume_size by simp
  show "length (view S bv n) = bs_sector_size bs"
  proof (cases "n \<in> buf_sector ` set (buffers bv)")
    case True
    then obtain b where "b \<in> set (buffers bv)" "n = buf_sector b" by blast
    then show ?thesis
      using assms view_buffer [of bv b S] by (auto simp: cache_ok_def buffer_ok_def sector_sizes)
  next
    case False
    then show ?thesis
      using assms n content_length view_no_buffer [OF False, of S] by (simp add: cache_ok_def sector_sizes)
  qed
qed

lemma switch_ref_ok:
  assumes "cache_ok S (held r + H) bv" and "n < unat (bpb_tot_sec_32 bs)"
  obtains bv' where "switch_ref V n (r, bv) = (Ok n, (Some n, bv'))" and "cache_ok S (add_mset n H) bv'"
    and "view S bv' = view S bv"
proof (cases "r = Some n")
  case True
  with assms that show ?thesis by simp
next
  case False
  have "n < nsec S" using assms(2) volume_size by simp
  then obtain bv1 where bv1: "sector V bv n = (Ok n, bv1)" "cache_ok S (add_mset n (held r + H)) bv1"
    "writes_back S bv bv1" by (rule sector_ok [OF assms(1)])
  show ?thesis
  proof (cases r)
    case None
    with bv1 False that [of bv1] show ?thesis by (simp add: writes_back_def)
  next
    case (Some old)
    with bv1(2) have "cache_ok S (add_mset old (add_mset n H)) bv1" by (simp add: add_mset_commute)
    from drop_ref_ok [OF this] bv1 False Some that [of "drop_ref bv1 old"] show ?thesis
      by (simp add: writes_back_def)
  qed
qed

lemma fat_entry_ref_ok:
  assumes "cache_ok S (held r + H) bv" and "available bs c"
  obtains bv' where "fat_entry_ref V bs c (r, bv) = (Ok (fat_sector bs c, fat_offset bs c), (Some (fat_sector bs c), bv'))"
    and "cache_ok S (add_mset (fat_sector bs c) H) bv'" and "view S bv' = view S bv"
proof -
  obtain bv' where "switch_ref V (fat_sector bs c) (r, bv) = (Ok (fat_sector bs c), (Some (fat_sector bs c), bv'))"
    "cache_ok S (add_mset (fat_sector bs c) H) bv'" "view S bv' = view S bv"
    by (rule switch_ref_ok [OF assms(1) fat_sector_in_volume [OF geometry assms(2)]])
  moreover have "fat_entry_location bs c = Some (fat_sector bs c, fat_offset bs c)"
    by (simp add: fat_entry_location_eq [OF geometry assms(2)] fat_sector_def fat_offset_def)
  ultimately show ?thesis using that by (simp add: fat_entry_ref_def)
qed

text \<open>Reading an entry yields the entry of the view; the state stays the same but for the cache.\<close>

lemma fat_read_ok:
  assumes "cache_ok S (held r + H) bv" and "available bs c"
  obtains r' bv' where "fat_read V bs c (r, bv) = (Ok (fat_of bs (view S bv) c), (r', bv'))"
    and "cache_ok S (held r' + H) bv'" and "view S bv' = view S bv"
proof -
  let ?s = "fat_sector bs c"
  obtain bv' where bv': "fat_entry_ref V bs c (r, bv) = (Ok (?s, fat_offset bs c), (Some ?s, bv'))"
    "cache_ok S (add_mset ?s H) bv'" "view S bv' = view S bv" by (rule fat_entry_ref_ok [OF assms])
  have "ref_bytes bv' ?s = view S bv ?s"
    using ref_bytes_ok [OF bv'(2), of ?s] bv'(3) by simp
  then show ?thesis
    using bv' that [of "Some ?s" bv'] fat_entry_bytes_in_range [OF geometry assms(2) view_sectors_ok [OF assms(1)]]
    by (simp add: fat_read_def in_range_def fat_of_def)
qed

lemma fat_write_ok:
  assumes "cache_ok S (held r + H) bv" and "available bs c"
  obtains r' bv' where "fat_write V bs c e (r, bv) = (Ok (), (r', bv'))"
    and "cache_ok S (held r' + H) bv'" and "view S bv' = fat_put bs c e (view S bv)"
proof -
  let ?s = "fat_sector bs c"
  obtain bv' where bv': "fat_entry_ref V bs c (r, bv) = (Ok (?s, fat_offset bs c), (Some ?s, bv'))"
    "cache_ok S (add_mset ?s H) bv'" "view S bv' = view S bv" by (rule fat_entry_ref_ok [OF assms])
  let ?b = "copy_from_array (fat_offset bs c) (to_le_bytes 4 (fat_entry_into_u32 e)) (view S bv ?s)"
  have bytes: "ref_bytes bv' ?s = view S bv ?s"
    using ref_bytes_ok [OF bv'(2), of ?s] bv'(3) by simp
  note len = fat_entry_bytes_in_range [OF geometry assms(2) view_sectors_ok [OF assms(1)]]
  have "length (view S bv ?s) = ssize S"
    using view_sectors_ok [OF assms(1)] fat_sector_in_volume [OF geometry assms(2)]
    by (simp add: sectors_ok_def sector_sizes)
  then have "length ?b = ssize S" using len by simp
  from set_ref_bytes_ok [OF bv'(2) _ this] bv' bytes len that [of "Some ?s"] show ?thesis
    by (simp add: fat_write_def in_range_def Let_def fat_put_def)
qed

end

section \<open>Cluster chains\<close>

text \<open>\<open>cs\<close> is the chain that starts at \<open>c\<close>: each entry names the next cluster, the last is the end of the chain.\<close>

fun cluster_chain :: "(nat \<Rightarrow> fat_entry) \<Rightarrow> nat \<Rightarrow> nat list \<Rightarrow> bool" where
  "cluster_chain f c [] \<longleftrightarrow> False"
| "cluster_chain f c [x] \<longleftrightarrow> x = c \<and> f c = UsedEoc"
| "cluster_chain f c (x # y # ys) \<longleftrightarrow> x = c \<and> f c = UsedChained y \<and> cluster_chain f y (y # ys)"

lemma cluster_chain_hd: "cluster_chain f c cs \<Longrightarrow> \<exists>xs. cs = c # xs"
  by (cases cs rule: remdups_adj.cases) auto

lemma cluster_chain_last: "cluster_chain f c cs \<Longrightarrow> f (last cs) = UsedEoc"
  by (induction f c cs rule: cluster_chain.induct) auto

lemma cluster_chain_used: "cluster_chain f c cs \<Longrightarrow> x \<in> set cs \<Longrightarrow> f x \<noteq> FatUnused"
  by (induction f c cs rule: cluster_chain.induct) auto

lemma cluster_chain_unique: "cluster_chain f c xs \<Longrightarrow> cluster_chain f c ys \<Longrightarrow> xs = ys"
proof (induction f c xs arbitrary: ys rule: cluster_chain.induct)
  case (2 f c x)
  then show ?case by (cases ys rule: remdups_adj.cases) auto
next
  case (3 f c x y xs)
  then show ?case by (cases ys rule: remdups_adj.cases) auto
qed simp

lemma cluster_chain_drop:
  "cluster_chain f c cs \<Longrightarrow> i < length cs \<Longrightarrow> cluster_chain f (cs ! i) (drop i cs)"
proof (induction f c cs arbitrary: i rule: cluster_chain.induct)
  case (3 f c x y xs)
  then show ?case by (cases i) auto
qed auto

text \<open>A chain that ends does not come back to a cluster.\<close>

lemma cluster_chain_distinct: "cluster_chain f c cs \<Longrightarrow> distinct cs"
proof -
  assume chain: "cluster_chain f c cs"
  have "i = j" if "i < length cs" "j < length cs" "cs ! i = cs ! j" for i j
  proof -
    have "drop i cs = drop j cs"
      using cluster_chain_unique cluster_chain_drop [OF chain] that by metis
    then show ?thesis using that by (metis diff_diff_cancel length_drop less_imp_le)
  qed
  then show ?thesis by (auto simp: distinct_conv_nth)
qed

lemma cluster_chain_cong:
  assumes "cluster_chain f c cs" and "\<And>x. x \<in> set cs \<Longrightarrow> g x = f x"
  shows "cluster_chain g c cs"
  using assms by (induction f c cs rule: cluster_chain.induct) auto

lemma cluster_chain_extend:
  assumes "cluster_chain f c cs" and "d \<notin> set cs"
  shows "cluster_chain (f(d := UsedEoc, last cs := UsedChained d)) c (cs @ [d])"
  using assms
proof (induction f c cs rule: cluster_chain.induct)
  case (3 f c x y xs)
  then have "x \<noteq> last (y # xs)" "x \<noteq> d"
    using cluster_chain_distinct [of f c "x # y # xs"] last_in_set [of "y # xs"] by auto
  with 3 show ?case by auto
qed auto

text \<open>All clusters of a list marked as unused, in order.\<close>

definition release_all :: "boot_sector \<Rightarrow> nat list \<Rightarrow> (nat \<Rightarrow> bytes) \<Rightarrow> nat \<Rightarrow> bytes" where
  "release_all bs cs w = fold (\<lambda>c. fat_put bs c FatUnused) cs w"

lemma release_all_sectors:
  "geometry_ok bs \<Longrightarrow> \<forall>c \<in> set cs. available bs c \<Longrightarrow> sectors_ok bs w \<Longrightarrow> sectors_ok bs (release_all bs cs w)"
  by (induction cs arbitrary: w) (auto simp: release_all_def fat_put_sectors)

lemma fat_of_release_all:
  assumes "geometry_ok bs" and "\<forall>c \<in> set cs. available bs c" and "sectors_ok bs w" and "available bs d"
  shows "fat_of bs (release_all bs cs w) d = (if d \<in> set cs then FatUnused else fat_of bs w d)"
  using assms(2,3)
  by (induction cs arbitrary: w) (auto simp: release_all_def fat_of_put fat_put_sectors assms(1,4))

text \<open>What \<open>allocate\<close> promises, from a first candidate on: the first unused cluster, now marked as used.\<close>

definition alloc_result ::
    "boot_sector \<Rightarrow> nat \<Rightarrow> (nat \<Rightarrow> bytes) \<Rightarrow> (fs_error, nat) outcome \<Rightarrow> (nat \<Rightarrow> bytes) \<Rightarrow> bool" where
  "alloc_result bs c w res w' \<longleftrightarrow>
     (case res of
        Ok d \<Rightarrow> c \<le> d \<and> available bs d \<and> fat_of bs w d = FatUnused
                \<and> (\<forall>e. c \<le> e \<and> e < d \<longrightarrow> fat_of bs w e \<noteq> FatUnused) \<and> w' = fat_put bs d UsedEoc w
      | Err e \<Rightarrow> e = Full \<and> (\<forall>d. c \<le> d \<and> available bs d \<longrightarrow> fat_of bs w d \<noteq> FatUnused) \<and> w' = w
      | Panic \<Rightarrow> False
      | Hang \<Rightarrow> False)"

context fat_volume
begin

lemma drop_last_ok:
  assumes "cache_ok S (held r + H) bv"
  shows "cache_ok S H (drop_last (r, bv))" and "view S (drop_last (r, bv)) = view S bv"
  using assms drop_ref_ok [of S _ H bv] by (cases r; simp add: writes_back_def)+

lemma fat_search_ok:
  assumes "cache_ok S (held r + H) bv" and "2 \<le> c"
  shows "\<exists>res r' bv'. fat_search V bs c (r, bv) = (res, (r', bv')) \<and> cache_ok S (held r' + H) bv'
    \<and> alloc_result bs c (view S bv) res (view S bv')"
  using assms
proof (induction "clusters bs + 2 - c" arbitrary: c r bv)
  case 0
  then have "\<not> available bs c" by (auto simp: available_def)
  moreover from this "0" have "\<not> available bs d" if "c \<le> d" for d using that by (auto simp: available_def)
  ultimately show ?case
    using 0 is_cluster_available_eq [OF geometry, of c]
    by (auto simp: fat_search.simps [of V bs c] alloc_result_def)
next
  case (Suc k)
  then have av: "available bs c" by (auto simp: available_def)
  then have avail: "is_cluster_available bs c = Some True"
    using is_cluster_available_eq [OF geometry, of c] by simp
  obtain r1 bv1 where 1: "fat_read V bs c (r, bv) = (Ok (fat_of bs (view S bv) c), (r1, bv1))"
    "cache_ok S (held r1 + H) bv1" "view S bv1 = view S bv" by (rule fat_read_ok [OF Suc.prems(1) av])
  show ?case
  proof (cases "fat_of bs (view S bv) c = FatUnused")
    case True
    obtain r2 bv2 where "fat_write V bs c UsedEoc (r1, bv1) = (Ok (), (r2, bv2))"
      "cache_ok S (held r2 + H) bv2" "view S bv2 = fat_put bs c UsedEoc (view S bv1)"
      by (rule fat_write_ok [OF 1(2) av])
    with True 1 avail av show ?thesis by (auto simp: fat_search.simps [of V bs c] alloc_result_def)
  next
    case False
    have "k = clusters bs + 2 - (c + 1)" using Suc.hyps(2) by simp
    from Suc.hyps(1) [OF this 1(2)] Suc.prems(2) obtain res r2 bv2 where 2:
      "fat_search V bs (c + 1) (r1, bv1) = (res, (r2, bv2))" "cache_ok S (held r2 + H) bv2"
      "alloc_result bs (c + 1) (view S bv1) res (view S bv2)" by auto
    have from_c: "c \<le> e \<longleftrightarrow> e = c \<or> c + 1 \<le> e" for e by auto
    have "alloc_result bs c (view S bv) res (view S bv2)"
      using 2(3) 1(3) False unfolding alloc_result_def
      by (auto split: outcome.splits simp: from_c)
    with 1 2 False avail show ?thesis by (simp add: fat_search.simps [of V bs c])
  qed
qed

text \<open>Releasing a chain frees its clusters; as many units of fuel as it has clusters are enough.\<close>

lemma fat_release_ok:
  assumes "cache_ok S (held r + H) bv" and "cluster_chain (fat_of bs (view S bv)) c cs"
    and "\<forall>x \<in> set cs. available bs x" and "length cs \<le> fuel"
  shows "\<exists>r' bv'. fat_release fuel V bs (Some c) (r, bv) = (Ok (), (r', bv')) \<and> cache_ok S (held r' + H) bv'
    \<and> view S bv' = release_all bs cs (view S bv)"
  using assms
proof (induction cs arbitrary: fuel c r bv)
  case (Cons x xs)
  then have x: "x = c" "available bs c" using cluster_chain_hd [OF Cons.prems(2)] by auto
  obtain k where k: "fuel = Suc k" using Cons.prems(4) by (cases fuel) auto
  obtain r1 bv1 where 1: "fat_read V bs c (r, bv) = (Ok (fat_of bs (view S bv) c), (r1, bv1))"
    "cache_ok S (held r1 + H) bv1" "view S bv1 = view S bv" by (rule fat_read_ok [OF Cons.prems(1) x(2)])
  obtain r2 bv2 where 2: "fat_write V bs c FatUnused (r1, bv1) = (Ok (), (r2, bv2))"
    "cache_ok S (held r2 + H) bv2" "view S bv2 = fat_put bs c FatUnused (view S bv1)"
    by (rule fat_write_ok [OF 1(2) x(2)])
  show ?case
  proof (cases xs)
    case Nil
    with 1 2 k x Cons.prems(2) show ?thesis by (simp add: release_all_def)
  next
    case (Cons y ys)
    have chain: "cluster_chain (fat_of bs (view S bv)) y xs" "fat_of bs (view S bv) c = UsedChained y"
      using Cons.prems(2) Cons by simp_all
    have "c \<notin> set xs" using cluster_chain_distinct [OF Cons.prems(2)] x by simp
    then have "cluster_chain (fat_of bs (view S bv2)) y xs"
      using Cons.prems(3) x(2) view_sectors_ok [OF Cons.prems(1)] 1(3) 2(3)
      by (intro cluster_chain_cong [OF chain(1)]) (auto simp: fat_of_put [OF geometry])
    from Cons.IH [OF 2(2) this, of k] Cons.prems(3,4) k obtain r3 bv3 where
      "fat_release k V bs (Some y) (r2, bv2) = (Ok (), (r3, bv3))" "cache_ok S (held r3 + H) bv3"
      "view S bv3 = release_all bs xs (view S bv2)" by auto
    with 1 2 k x chain show ?thesis by (simp add: release_all_def)
  qed
qed simp

text \<open>The number of available clusters bounds the length of a chain.\<close>

lemma chain_length:
  assumes "cluster_chain f c cs" and "\<forall>x \<in> set cs. available bs x"
  shows "length cs \<le> clusters bs"
proof -
  have "set cs \<subseteq> {2..<clusters bs + 2}" using assms(2) by (auto simp: available_def)
  from card_mono [OF _ this] show ?thesis
    using distinct_card [OF cluster_chain_distinct [OF assms(1)]] by simp
qed

subsection \<open>The operations with a temporary \<open>BufferedFat\<close>\<close>

lemma with_fat_read_ok:
  assumes "cache_ok S H bv" and "available bs c"
  obtains bv' where "with_fat (fat_read V bs c) bv = (Ok (fat_of bs (view S bv) c), bv')"
    and "cache_ok S H bv'" and "view S bv' = view S bv"
proof -
  obtain r bv1 where "fat_read V bs c (None, bv) = (Ok (fat_of bs (view S bv) c), (r, bv1))"
    "cache_ok S (held r + H) bv1" "view S bv1 = view S bv"
    using fat_read_ok [of None H bv c] assms by auto
  then show ?thesis using that [of "drop_last (r, bv1)"] drop_last_ok [of r H bv1] by (simp add: with_fat_def)
qed

lemma with_fat_write_ok:
  assumes "cache_ok S H bv" and "available bs c"
  obtains bv' where "with_fat (fat_write V bs c e) bv = (Ok (), bv')"
    and "cache_ok S H bv'" and "view S bv' = fat_put bs c e (view S bv)"
proof -
  obtain r bv1 where "fat_write V bs c e (None, bv) = (Ok (), (r, bv1))"
    "cache_ok S (held r + H) bv1" "view S bv1 = fat_put bs c e (view S bv)"
    using fat_write_ok [of None H bv c] assms by auto
  then show ?thesis using that [of "drop_last (r, bv1)"] drop_last_ok [of r H bv1] by (simp add: with_fat_def)
qed

lemma with_fat_allocate_ok:
  assumes "cache_ok S H bv"
  obtains res bv' where "with_fat (fat_allocate V bs) bv = (res, bv')" and "cache_ok S H bv'"
    and "alloc_result bs 2 (view S bv) res (view S bv')"
proof -
  obtain res r bv1 where "fat_allocate V bs (None, bv) = (res, (r, bv1))"
    "cache_ok S (held r + H) bv1" "alloc_result bs 2 (view S bv) res (view S bv1)"
    using fat_search_ok [of None H bv 2] assms by (auto simp: fat_allocate_def)
  then show ?thesis using that [of res "drop_last (r, bv1)"] drop_last_ok [of r H bv1] by (simp add: with_fat_def)
qed

lemma with_fat_release_ok:
  assumes "cache_ok S H bv" and "cluster_chain (fat_of bs (view S bv)) c cs"
    and "\<forall>x \<in> set cs. available bs x" and "clusters bs \<le> fuel"
  obtains bv' where "with_fat (fat_release fuel V bs (Some c)) bv = (Ok (), bv')" and "cache_ok S H bv'"
    and "view S bv' = release_all bs cs (view S bv)"
proof -
  have "length cs \<le> fuel" using chain_length [OF assms(2,3)] assms(4) by simp
  then obtain r bv1 where "fat_release fuel V bs (Some c) (None, bv) = (Ok (), (r, bv1))"
    "cache_ok S (held r + H) bv1" "view S bv1 = release_all bs cs (view S bv)"
    using fat_release_ok [of None H bv c cs fuel] assms by auto
  then show ?thesis using that [of "drop_last (r, bv1)"] drop_last_ok [of r H bv1] by (simp add: with_fat_def)
qed

end

section \<open>The data of a cluster\<close>

text \<open>The bytes of a cluster in a view, and the view with the bytes of a cluster replaced.\<close>

definition cluster_data :: "boot_sector \<Rightarrow> (nat \<Rightarrow> bytes) \<Rightarrow> nat \<Rightarrow> bytes" where
  "cluster_data bs w c = concat (map (\<lambda>k. w (cluster_sector bs c + k)) [0..<cluster_size bs])"

definition cluster_put :: "boot_sector \<Rightarrow> nat \<Rightarrow> bytes \<Rightarrow> (nat \<Rightarrow> bytes) \<Rightarrow> nat \<Rightarrow> bytes" where
  "cluster_put bs c bytes w n =
     (if cluster_sector bs c \<le> n \<and> n < cluster_sector bs c + cluster_size bs
      then array (bs_sector_size bs) ((n - cluster_sector bs c) * bs_sector_size bs) bytes
      else w n)"

abbreviation cluster_bytes :: "boot_sector \<Rightarrow> nat" where
  "cluster_bytes bs \<equiv> cluster_size bs * bs_sector_size bs"

lemma cluster_blocks:
  assumes "geometry_ok bs" and "available bs c" and "sectors_ok bs w"
  shows "\<forall>x \<in> set (map (\<lambda>k. w (cluster_sector bs c + k)) [0..<cluster_size bs]). length x = bs_sector_size bs"
  using cluster_sector_bounds(2) [OF assms(1,2)] assms(3) by (auto simp: sectors_ok_def)

lemma length_cluster_data:
  assumes "geometry_ok bs" and "available bs c" and "sectors_ok bs w"
  shows "length (cluster_data bs w c) = cluster_bytes bs"
  using length_concat_same [OF cluster_blocks [OF assms]] by (simp add: cluster_data_def)

lemma cluster_data_part:
  assumes "geometry_ok bs" and "available bs c" and "sectors_ok bs w"
    and "k < cluster_size bs" and "i + n \<le> bs_sector_size bs"
  shows "array n (k * bs_sector_size bs + i) (cluster_data bs w c) = array n i (w (cluster_sector bs c + k))"
  using array_concat [OF cluster_blocks [OF assms(1-3)], of k] assms(4,5) by (simp add: cluster_data_def)

lemma cluster_data_cong:
  "(\<And>k. k < cluster_size bs \<Longrightarrow> w (cluster_sector bs c + k) = w' (cluster_sector bs c + k)) \<Longrightarrow>
    cluster_data bs w c = cluster_data bs w' c"
  unfolding cluster_data_def by (intro arg_cong [where f = concat] map_cong) auto

text \<open>Writing a part of one sector is writing a part of the cluster.\<close>

lemma cluster_data_write:
  assumes "geometry_ok bs" and "available bs c" and "sectors_ok bs w"
    and "k < cluster_size bs" and "i + length ys \<le> bs_sector_size bs"
  shows "cluster_data bs (w(cluster_sector bs c + k := copy_from_array i ys (w (cluster_sector bs c + k)))) c
    = copy_from_array (k * bs_sector_size bs + i) ys (cluster_data bs w c)"
proof -
  let ?s = "cluster_sector bs c"
  let ?xss = "map (\<lambda>k. w (?s + k)) [0..<cluster_size bs]"
  have "map (\<lambda>j. (w(?s + k := copy_from_array i ys (w (?s + k)))) (?s + j)) [0..<cluster_size bs]
      = ?xss[k := copy_from_array i ys (?xss ! k)]"
    using assms(4) by (intro nth_equalityI) (auto simp: nth_list_update)
  then show ?thesis
    using copy_concat [OF cluster_blocks [OF assms(1-3)], of k i ys] assms(4,5)
    by (simp add: cluster_data_def)
qed

lemma concat_arrays: "concat (map (\<lambda>k. array sz (k * sz) xs) [0..<n]) = take (n * sz) xs"
proof (induction n)
  case (Suc n)
  have "take (n * sz + sz) xs = take (n * sz) xs @ take sz (drop (n * sz) xs)" by (rule take_add)
  with Suc show ?case by (simp add: array_def add.commute)
qed simp

lemma cluster_put_data:
  assumes "geometry_ok bs" and "length bytes = cluster_bytes bs"
  shows "cluster_data bs (cluster_put bs c bytes w) c = bytes"
proof -
  let ?sz = "bs_sector_size bs"
  have "cluster_data bs (cluster_put bs c bytes w) c
      = concat (map (\<lambda>k. array ?sz (k * ?sz) bytes) [0..<cluster_size bs])"
    unfolding cluster_data_def by (intro arg_cong [where f = concat] map_cong) (auto simp: cluster_put_def)
  also have "\<dots> = take (cluster_size bs * ?sz) bytes"
    by (rule concat_arrays)
  finally show ?thesis using assms(2) by simp
qed

lemma cluster_put_self:
  assumes "geometry_ok bs" and "available bs c" and "sectors_ok bs w"
  shows "cluster_put bs c (cluster_data bs w c) w = w"
proof
  fix n
  let ?s = "cluster_sector bs c" and ?sz = "bs_sector_size bs"
  show "cluster_put bs c (cluster_data bs w c) w n = w n"
  proof (cases "?s \<le> n \<and> n < ?s + cluster_size bs")
    case True
    then have "n < unat (bpb_tot_sec_32 bs)" using cluster_sector_bounds(2) [OF assms(1,2)] by simp
    then have "array ?sz 0 (w n) = w n" using assms(3) by (simp add: sectors_ok_def array_def)
    moreover have "n - ?s < cluster_size bs" using True by linarith
    ultimately show ?thesis
      using True cluster_data_part [OF assms, of "n - ?s" 0 ?sz]
      by (simp add: cluster_put_def)
  qed (auto simp: cluster_put_def)
qed

lemma cluster_put_twice: "cluster_put bs c b (cluster_put bs c a w) = cluster_put bs c b w"
  by (simp add: cluster_put_def fun_eq_iff)

text \<open>A write to one sector of a cluster, as a write to the cluster.\<close>

lemma sector_write_is_cluster_put:
  assumes "geometry_ok bs" and "available bs c" and "sectors_ok bs w"
    and "k < cluster_size bs" and "i + length ys \<le> bs_sector_size bs"
  shows "w(cluster_sector bs c + k := copy_from_array i ys (w (cluster_sector bs c + k)))
    = cluster_put bs c (copy_from_array (k * bs_sector_size bs + i) ys (cluster_data bs w c)) w"
    (is "?w' = _")
proof -
  let ?s = "cluster_sector bs c"
  have "?s + k < unat (bpb_tot_sec_32 bs)" using cluster_sector_bounds(2) [OF assms(1,2)] assms(4) by simp
  then have "sectors_ok bs ?w'" using assms(3,5) by (auto simp: sectors_ok_def)
  from cluster_put_self [OF assms(1,2) this] have "?w' = cluster_put bs c (cluster_data bs ?w' c) ?w'" ..
  also have "\<dots> = cluster_put bs c (cluster_data bs ?w' c) w"
    using assms(4) by (auto simp: cluster_put_def fun_eq_iff)
  finally show ?thesis unfolding cluster_data_write [OF assms] .
qed

lemma cluster_put_sectors:
  assumes "geometry_ok bs" and "available bs c" and "sectors_ok bs w" and "length bytes = cluster_bytes bs"
  shows "sectors_ok bs (cluster_put bs c bytes w)"
  unfolding sectors_ok_def
proof (intro allI impI)
  fix n assume n: "n < unat (bpb_tot_sec_32 bs)"
  let ?s = "cluster_sector bs c" and ?sz = "bs_sector_size bs"
  show "length (cluster_put bs c bytes w n) = ?sz"
  proof (cases "?s \<le> n \<and> n < ?s + cluster_size bs")
    case True
    then have "n - ?s < cluster_size bs" by linarith
    from block_end [OF this, of ?sz] have "(n - ?s) * ?sz + ?sz \<le> length bytes" using assms(4) by simp
    with True show ?thesis by (simp add: cluster_put_def)
  next
    case False
    with assms(3) n show ?thesis by (auto simp: sectors_ok_def cluster_put_def)
  qed
qed

text \<open>Writing a cluster leaves the FAT and the other clusters alone.\<close>

lemma fat_of_cluster_put:
  assumes "geometry_ok bs" and "available bs c" and "available bs d"
  shows "fat_of bs (cluster_put bs c bytes w) d = fat_of bs w d"
  using fat_sector_bounds(2) [OF assms(1,3)] cluster_sector_bounds(1) [OF assms(1,2)]
  by (simp add: fat_of_def cluster_put_def)

lemma cluster_data_put_other:
  assumes "available bs c" and "available bs d" and "c \<noteq> d"
  shows "cluster_data bs (cluster_put bs c bytes w) d = cluster_data bs w d"
proof (rule cluster_data_cong)
  fix k assume "k < cluster_size bs"
  then show "cluster_put bs c bytes w (cluster_sector bs d + k) = w (cluster_sector bs d + k)"
    using cluster_sectors_disjoint [OF assms(1,2)] cluster_sectors_disjoint [OF assms(2,1)] assms(3)
    by (cases c d rule: linorder_cases) (auto simp: cluster_put_def)
qed

lemma cluster_data_fat_put:
  assumes "geometry_ok bs" and "available bs c" and "available bs d"
  shows "cluster_data bs (fat_put bs c e w) d = cluster_data bs w d"
  using cluster_sector_bounds(1) [OF assms(1,3)]
  by (intro cluster_data_cong fat_put_data [OF assms(1,2)]) simp

lemma cluster_data_release_all:
  assumes "geometry_ok bs" and "\<forall>c \<in> set cs. available bs c" and "available bs d"
  shows "cluster_data bs (release_all bs cs w) d = cluster_data bs w d"
  using assms(2)
  by (induction cs arbitrary: w) (simp_all add: release_all_def cluster_data_fat_put [OF assms(1) _ assms(3)])

section \<open>Byte ranges of a cluster\<close>

text \<open>
  \<open>covers sz n s e ps\<close>: the parts \<open>ps\<close> of sectors of size \<open>sz\<close>, with numbers below \<open>n\<close>, are the bytes
  from \<open>s\<close> up to \<open>e\<close>, in order and without gap or overlap.
\<close>

fun covers :: "nat \<Rightarrow> nat \<Rightarrow> nat \<Rightarrow> nat \<Rightarrow> (nat \<times> nat \<times> nat) list \<Rightarrow> bool" where
  "covers sz n s e [] \<longleftrightarrow> s = e"
| "covers sz n s e ((k, i, j) # ps) \<longleftrightarrow>
     s = k * sz + i \<and> k < n \<and> i < j \<and> j \<le> sz \<and> covers sz n (k * sz + j) e ps"

lemma covers_le: "covers sz n s e ps \<Longrightarrow> s \<le> e"
  by (induction sz n s e ps rule: covers.induct) auto

lemma covers_tail:
  assumes "ss < k" and "k \<le> es" and "es = e div sz" and "ss = s div sz" and "e \<le> n * sz" and "0 < sz"
  shows "covers sz n (k * sz) e (List.map_filter (sector_part sz s e) [k..<es + 1])"
  using assms(1,2)
proof (induction "es - k" arbitrary: k)
  case 0
  then have k: "k = es" by simp
  have e: "e = es * sz + e mod sz" using assms(3) by simp
  have "es < n" if "0 < e mod sz"
  proof -
    have "es * sz < n * sz" using that e assms(5) by linarith
    then show ?thesis using mult_less_cancel2 by blast
  qed
  with k 0 e assms show ?case
    by (auto simp: List.map_filter_simps sector_part_def Let_def less_imp_le)
next
  case (Suc m)
  then have k: "k < es" by simp
  have "k < n"
  proof -
    have "k * sz < es * sz" using k assms(6) by simp
    also have "es * sz \<le> e" using assms(3) by simp
    finally have "k * sz < n * sz" using assms(5) by linarith
    then show ?thesis using mult_less_cancel2 by blast
  qed
  moreover have "[k..<es + 1] = k # [Suc k..<es + 1]" using k by (simp add: upt_conv_Cons)
  moreover have "covers sz n (Suc k * sz) e (List.map_filter (sector_part sz s e) [Suc k..<es + 1])"
    using Suc.hyps(1) [of "Suc k"] Suc.hyps(2) Suc.prems k by simp
  ultimately show ?case
    using Suc.prems k assms by (simp add: List.map_filter_simps sector_part_def Let_def add.commute)
qed

lemma sector_range_covers:
  assumes "s \<le> e" and "e \<le> n * sz" and "0 < sz"
  shows "covers sz n s e (List.map_filter (sector_part sz s e) [s div sz..<e div sz + 1])"
proof (cases "s div sz = e div sz")
  case True
  have s: "s = e div sz * sz + s mod sz" using True by (metis div_mult_mod_eq)
  have e: "e = e div sz * sz + e mod sz" by simp
  have "e div sz < n" if "0 < e mod sz"
  proof -
    have "e div sz * sz < n * sz" using that e assms(2) by linarith
    then show ?thesis using mult_less_cancel2 by blast
  qed
  moreover have "s mod sz \<le> e mod sz" using s e assms(1) by linarith
  ultimately show ?thesis
    using True s e assms(3) by (auto simp: List.map_filter_simps sector_part_def Let_def less_imp_le)
next
  case False
  then have lt: "s div sz < e div sz" using div_le_mono [OF assms(1), of sz] by simp
  have "s div sz < n"
  proof -
    have "s div sz * sz < e div sz * sz" using lt assms(3) by simp
    also have "e div sz * sz \<le> e" by simp
    finally have "s div sz * sz < n * sz" using assms(2) by linarith
    then show ?thesis using mult_less_cancel2 by blast
  qed
  moreover have "[s div sz..<e div sz + 1] = s div sz # [Suc (s div sz)..<e div sz + 1]"
    using lt by (simp add: upt_conv_Cons)
  moreover have "covers sz n (Suc (s div sz) * sz) e
      (List.map_filter (sector_part sz s e) [Suc (s div sz)..<e div sz + 1])"
    by (rule covers_tail [OF _ _ refl refl assms(2,3)]) (use lt in simp_all)
  ultimately show ?thesis
    using lt assms(3) by (simp add: List.map_filter_simps sector_part_def Let_def add.commute)
qed

text \<open>A \<open>BufferedCluster\<close> of the file system, for cluster \<open>c\<close>.\<close>

definition cluster_handle :: "boot_sector \<Rightarrow> nat \<Rightarrow> buffered_cluster \<Rightarrow> bool" where
  "cluster_handle bs c bc \<longleftrightarrow>
     available bs c \<and> bc_cluster bc = c \<and> first_sector bc = cluster_sector bs c
     \<and> sector_count bc = cluster_size bs \<and> bc_sector_size bc = bs_sector_size bs"

lemma root_cluster_eq:
  assumes "geometry_ok bs" and "available bs c"
  shows "root_cluster bs c = Ok \<lparr>bc_cluster = c, first_sector = cluster_sector bs c, sector_count = cluster_size bs,
    bc_sector_size = bs_sector_size bs, bc_last = None\<rparr>"
  using cluster_location_eq [OF assms] by (simp add: root_cluster_def cluster_sector_def)

lemma sector_range_eq:
  assumes "geometry_ok bs" and "cluster_handle bs c bc" and "s \<le> e" and "e \<le> cluster_bytes bs"
  obtains ps where "sector_range bc s e = Some ps" and "covers (bs_sector_size bs) (cluster_size bs) s e ps"
  using sector_range_covers [OF assms(3), of "cluster_size bs" "bs_sector_size bs"] assms
    boot_sector_wf_sizes(1) [of bs] that
  by (simp add: sector_range_def cluster_handle_def bc_size_def Let_def mult.commute geometry_ok_def)

context fat_volume
begin

declare switch_ref.simps [simp del]

lemma cluster_sector_ref_ok:
  assumes "cache_ok S (held (bc_last bc) + H) bv" and "cluster_handle bs c bc" and "k < cluster_size bs"
  obtains bv' where "cluster_sector_ref V k (bc, bv)
      = (Ok (cluster_sector bs c + k), (bc\<lparr>bc_last := Some (cluster_sector bs c + k)\<rparr>, bv'))"
    and "cache_ok S (add_mset (cluster_sector bs c + k) H) bv'" and "view S bv' = view S bv"
proof -
  have "available bs c" using assms(2) by (simp add: cluster_handle_def)
  then have "cluster_sector bs c + k < unat (bpb_tot_sec_32 bs)"
    using cluster_sector_bounds(2) [OF geometry] assms(3) by fastforce
  from switch_ref_ok [OF assms(1) this] obtain bv' where
    "switch_ref V (cluster_sector bs c + k) (bc_last bc, bv)
       = (Ok (cluster_sector bs c + k), (Some (cluster_sector bs c + k), bv'))"
    "cache_ok S (add_mset (cluster_sector bs c + k) H) bv'" "view S bv' = view S bv" by blast
  with assms(2,3) that show ?thesis by (simp add: cluster_handle_def)
qed

declare cluster_sector_ref.simps [simp del]

text \<open>Reading the parts of a range yields the bytes of the range.\<close>

lemma read_parts_ok:
  assumes "cache_ok S (held (bc_last bc) + H) bv" and "cluster_handle bs c bc"
    and "covers (bs_sector_size bs) (cluster_size bs) s e ps" and "length buf = e - s"
    and "e \<le> cluster_bytes bs"
  shows "\<exists>bc' bv'. read_parts V ps buf (bc, bv) = (Ok (array (e - s) s (cluster_data bs (view S bv) c)), (bc', bv'))
    \<and> cache_ok S (held (bc_last bc') + H) bv' \<and> cluster_handle bs c bc' \<and> view S bv' = view S bv"
  using assms
proof (induction ps arbitrary: s buf bc bv)
  case Nil
  then show ?case by (simp add: array_def)
next
  case (Cons p ps)
  obtain k i j where p: "p = (k, i, j)" by (cases p)
  let ?sz = "bs_sector_size bs" and ?n = "cluster_sector bs c + k"
  let ?d = "cluster_data bs (view S bv) c"
  note cov = Cons.prems(3) [unfolded p covers.simps]
  have av: "available bs c" using Cons.prems(2) by (simp add: cluster_handle_def)
  note sec = view_sectors_ok [OF Cons.prems(1)]
  obtain bv1 where 1: "cluster_sector_ref V k (bc, bv) = (Ok ?n, (bc\<lparr>bc_last := Some ?n\<rparr>, bv1))"
    "cache_ok S (add_mset ?n H) bv1" "view S bv1 = view S bv"
    using cluster_sector_ref_ok [OF Cons.prems(1,2)] cov by blast
  have bytes: "ref_bytes bv1 ?n = view S bv ?n" using ref_bytes_ok [OF 1(2), of ?n] 1(3) by simp
  have len: "length (view S bv ?n) = ?sz"
    using sec cluster_sector_bounds(2) [OF geometry av] cov by (auto simp: sectors_ok_def)
  have e: "k * ?sz + j \<le> e" using cov covers_le by blast
  have part: "array (j - i) i (view S bv ?n) = array (j - i) s ?d"
    using cluster_data_part [OF geometry av sec, of k i "j - i"] cov by simp
  have ok1: "cache_ok S (held (bc_last (bc\<lparr>bc_last := Some ?n\<rparr>)) + H) bv1" using 1(2) by simp
  have handle1: "cluster_handle bs c (bc\<lparr>bc_last := Some ?n\<rparr>)"
    using Cons.prems(2) by (simp add: cluster_handle_def)
  have cov1: "covers ?sz (cluster_size bs) (k * ?sz + j) e ps" using cov by simp
  have "length (drop (j - i) buf) = e - (k * ?sz + j)" using Cons.prems(4) cov e by simp
  from Cons.IH [OF ok1 handle1 cov1 this Cons.prems(5)] obtain bc' bv' where 2:
    "read_parts V ps (drop (j - i) buf) (bc\<lparr>bc_last := Some ?n\<rparr>, bv1)
      = (Ok (array (e - (k * ?sz + j)) (k * ?sz + j) ?d), (bc', bv'))"
    "cache_ok S (held (bc_last bc') + H) bv'" "cluster_handle bs c bc'" "view S bv' = view S bv"
    unfolding 1(3) by blast
  have pos: "s + (j - i) = k * ?sz + j" "j - i + (e - (k * ?sz + j)) = e - s" using cov e by auto
  have "array (j - i) s ?d @ array (e - (k * ?sz + j)) (k * ?sz + j) ?d = array (e - s) s ?d"
    using array_append [of s "j - i" "e - (k * ?sz + j)" ?d] pos cov e Cons.prems(5)
      length_cluster_data [OF geometry av sec] by simp
  then show ?case
    using 1 2 p part bytes len cov e Cons.prems(4) by (simp add: in_range_def)
qed

text \<open>Writing them overwrites the range.\<close>

lemma write_parts_ok:
  assumes "cache_ok S (held (bc_last bc) + H) bv" and "cluster_handle bs c bc"
    and "covers (bs_sector_size bs) (cluster_size bs) s e ps" and "length buf = e - s"
    and "e \<le> cluster_bytes bs"
  shows "\<exists>bc' bv'. write_parts V ps buf (bc, bv) = (Ok (), (bc', bv'))
    \<and> cache_ok S (held (bc_last bc') + H) bv' \<and> cluster_handle bs c bc'
    \<and> view S bv' = cluster_put bs c (copy_from_array s buf (cluster_data bs (view S bv) c)) (view S bv)"
  using assms
proof (induction ps arbitrary: s buf bc bv)
  case Nil
  then have "cluster_put bs c (copy_from_array s buf (cluster_data bs (view S bv) c)) (view S bv) = view S bv"
    using cluster_put_self [OF geometry _ view_sectors_ok [OF Nil.prems(1)], of c]
    by (simp add: copy_from_array_def cluster_handle_def)
  with Nil show ?case by simp
next
  case (Cons p ps)
  obtain k i j where p: "p = (k, i, j)" by (cases p)
  let ?sz = "bs_sector_size bs" and ?n = "cluster_sector bs c + k" and ?w = "view S bv"
  let ?d = "cluster_data bs ?w c" and ?t = "take (j - i) buf"
  note cov = Cons.prems(3) [unfolded p covers.simps]
  have av: "available bs c" using Cons.prems(2) by (simp add: cluster_handle_def)
  note sec = view_sectors_ok [OF Cons.prems(1)]
  have e: "k * ?sz + j \<le> e" using cov covers_le by blast
  have t: "length ?t = j - i" using Cons.prems(4) cov e by simp
  obtain bv1 where 1: "cluster_sector_ref V k (bc, bv) = (Ok ?n, (bc\<lparr>bc_last := Some ?n\<rparr>, bv1))"
    "cache_ok S (add_mset ?n H) bv1" "view S bv1 = ?w"
    using cluster_sector_ref_ok [OF Cons.prems(1,2)] cov by blast
  have bytes: "ref_bytes bv1 ?n = ?w ?n" using ref_bytes_ok [OF 1(2), of ?n] 1(3) by simp
  have len: "length (?w ?n) = ?sz"
    using sec cluster_sector_bounds(2) [OF geometry av] cov by (auto simp: sectors_ok_def)
  let ?bv2 = "mark_as_dirty (set_ref_bytes bv1 ?n (copy_from_array i ?t (?w ?n))) ?n"
  have "length (copy_from_array i ?t (?w ?n)) = ssize S" using t len cov by (simp add: sector_sizes)
  from set_ref_bytes_ok [OF 1(2) _ this] have ok2: "cache_ok S (add_mset ?n H) ?bv2"
    and "view S ?bv2 = ?w(?n := copy_from_array i ?t (?w ?n))" using 1(3) by simp_all
  moreover have "i + length ?t \<le> ?sz" using t cov by simp
  ultimately have v2: "view S ?bv2 = cluster_put bs c (copy_from_array s ?t ?d) ?w"
    using sector_write_is_cluster_put [OF geometry av sec, of k i ?t] cov by simp
  have fits: "s + length ?t \<le> length ?d" "length ?d = cluster_bytes bs"
    using t cov e Cons.prems(5) length_cluster_data [OF geometry av sec] by auto
  then have d2: "cluster_data bs (view S ?bv2) c = copy_from_array s ?t ?d"
    unfolding v2 by (intro cluster_put_data [OF geometry]) simp
  have ok2': "cache_ok S (held (bc_last (bc\<lparr>bc_last := Some ?n\<rparr>)) + H) ?bv2" using ok2 by simp
  have handle2: "cluster_handle bs c (bc\<lparr>bc_last := Some ?n\<rparr>)"
    using Cons.prems(2) by (simp add: cluster_handle_def)
  have cov2: "covers ?sz (cluster_size bs) (k * ?sz + j) e ps" using cov by simp
  have rest: "length (drop (j - i) buf) = e - (k * ?sz + j)" using Cons.prems(4) cov e by simp
  from Cons.IH [OF ok2' handle2 cov2 rest Cons.prems(5)] obtain bc' bv' where 3:
    "write_parts V ps (drop (j - i) buf) (bc\<lparr>bc_last := Some ?n\<rparr>, ?bv2) = (Ok (), (bc', bv'))"
    "cache_ok S (held (bc_last bc') + H) bv'" "cluster_handle bs c bc'"
    "view S bv' = cluster_put bs c (copy_from_array (k * ?sz + j) (drop (j - i) buf)
        (copy_from_array s ?t ?d)) (view S ?bv2)"
    unfolding d2 by blast
  have "s + length ?t = k * ?sz + j" using t cov by auto
  then have "copy_from_array (k * ?sz + j) (drop (j - i) buf) (copy_from_array s ?t ?d) = copy_from_array s buf ?d"
    using copy_copy_append [of s ?t "drop (j - i) buf" ?d] rest fits e Cons.prems(5) by simp
  with 3(4) have "view S bv' = cluster_put bs c (copy_from_array s buf ?d) ?w"
    unfolding v2 by (simp add: cluster_put_twice)
  with 1 3 p bytes len cov t Cons.prems(4) show ?case by (simp add: in_range_def Let_def)
qed

lemma cluster_read_ok:
  assumes "cache_ok S (held (bc_last bc) + H) bv" and "cluster_handle bs c bc"
    and "offset + length buf \<le> cluster_bytes bs"
  obtains bc' bv' where
    "cluster_read V offset buf (bc, bv) = (Ok (array (length buf) offset (cluster_data bs (view S bv) c)), (bc', bv'))"
    and "cache_ok S (held (bc_last bc') + H) bv'" and "cluster_handle bs c bc'" and "view S bv' = view S bv"
proof -
  obtain ps where ps: "sector_range bc offset (offset + length buf) = Some ps"
    "covers (bs_sector_size bs) (cluster_size bs) offset (offset + length buf) ps"
    by (rule sector_range_eq [OF geometry assms(2) le_add1 assms(3)])
  from read_parts_ok [OF assms(1,2) ps(2) _ assms(3)] ps(1) that show ?thesis
    by (auto simp: cluster_read_def)
qed

lemma cluster_write_ok:
  assumes "cache_ok S (held (bc_last bc) + H) bv" and "cluster_handle bs c bc"
    and "offset + length buf \<le> cluster_bytes bs"
  obtains bc' bv' where "cluster_write V offset buf (bc, bv) = (Ok (), (bc', bv'))"
    and "cache_ok S (held (bc_last bc') + H) bv'" and "cluster_handle bs c bc'"
    and "view S bv' = cluster_put bs c (copy_from_array offset buf (cluster_data bs (view S bv) c)) (view S bv)"
proof -
  obtain ps where ps: "sector_range bc offset (offset + length buf) = Some ps"
    "covers (bs_sector_size bs) (cluster_size bs) offset (offset + length buf) ps"
    by (rule sector_range_eq [OF geometry assms(2) le_add1 assms(3)])
  from write_parts_ok [OF assms(1,2) ps(2) _ assms(3)] ps(1) that show ?thesis
    by (auto simp: cluster_write_def)
qed

lemma root_cluster_ok:
  assumes "available bs c"
  obtains bc where "root_cluster bs c = Ok bc" and "cluster_handle bs c bc" and "bc_last bc = None"
  by (rule that [OF root_cluster_eq [OF geometry assms]]) (simp_all add: cluster_handle_def assms)

subsection \<open>\<open>ChainedCluster\<close>\<close>

lemma chained_read_ok:
  assumes "cache_ok S H bv" and "available bs src"
  obtains bv' where "chained_read V bs src bv = (Ok (chain (fat_of bs (view S bv) src)), bv')"
    and "cache_ok S H bv'" and "view S bv' = view S bv"
proof -
  obtain bv1 where "with_fat (fat_read V bs src) bv = (Ok (fat_of bs (view S bv) src), bv1)"
    "cache_ok S H bv1" "view S bv1 = view S bv" by (rule with_fat_read_ok [OF assms])
  with that show ?thesis by (simp add: chained_read_def)
qed

lemma chained_get_next:
  assumes "cache_ok S H bv" and "available bs src" and "fat_of bs (view S bv) src = UsedChained d"
    and "available bs d"
  obtains bc bv' where "chained_get V bs src bv = (Ok (Some bc), bv')" and "cluster_handle bs d bc"
    and "bc_last bc = None" and "cache_ok S H bv'" and "view S bv' = view S bv"
proof -
  obtain bv' where "chained_read V bs src bv = (Ok (Some d), bv')" "cache_ok S H bv'" "view S bv' = view S bv"
    using chained_read_ok [OF assms(1,2)] unfolding assms(3) by (metis chain.simps(1))
  moreover obtain bc where "root_cluster bs d = Ok bc" "cluster_handle bs d bc" "bc_last bc = None"
    by (rule root_cluster_ok [OF assms(4)])
  ultimately show ?thesis using that by (simp add: chained_get_def)
qed

lemma chained_get_end:
  assumes "cache_ok S H bv" and "available bs src" and "chain (fat_of bs (view S bv) src) = None"
  obtains bv' where "chained_get V bs src bv = (Ok None, bv')" and "cache_ok S H bv'" and "view S bv' = view S bv"
proof -
  obtain bv1 where "chained_read V bs src bv = (Ok None, bv1)" "cache_ok S H bv1" "view S bv1 = view S bv"
    using chained_read_ok [OF assms(1,2)] unfolding assms(3) by metis
  with that show ?thesis by (simp add: chained_get_def)
qed

lemma chained_prepare_next:
  assumes "cache_ok S H bv" and "available bs src" and "fat_of bs (view S bv) src = UsedChained d"
    and "available bs d"
  obtains bc bv' where "chained_prepare V bs src bv = (Ok bc, bv')" and "cluster_handle bs d bc"
    and "bc_last bc = None" and "cache_ok S H bv'" and "view S bv' = view S bv"
proof -
  obtain bv' where "chained_read V bs src bv = (Ok (Some d), bv')" "cache_ok S H bv'" "view S bv' = view S bv"
    using chained_read_ok [OF assms(1,2)] unfolding assms(3) by (metis chain.simps(1))
  moreover obtain bc where "root_cluster bs d = Ok bc" "cluster_handle bs d bc" "bc_last bc = None"
    by (rule root_cluster_ok [OF assms(4)])
  ultimately show ?thesis using that by (simp add: chained_prepare_def)
qed

text \<open>At the end of a chain \<open>prepare\<close> appends the first unused cluster, or there is none.\<close>

lemma chained_prepare_end:
  assumes "cache_ok S H bv" and "available bs src" and "chain (fat_of bs (view S bv) src) = None"
  obtains (new) d bc bv' where "chained_prepare V bs src bv = (Ok bc, bv')" and "cluster_handle bs d bc"
      and "bc_last bc = None" and "cache_ok S H bv'" and "available bs d"
      and "fat_of bs (view S bv) d = FatUnused"
      and "view S bv' = fat_put bs src (UsedChained d) (fat_put bs d UsedEoc (view S bv))"
  | (full) bv' where "chained_prepare V bs src bv = (Err Full, bv')" and "cache_ok S H bv'"
      and "view S bv' = view S bv" and "\<forall>d. available bs d \<longrightarrow> fat_of bs (view S bv) d \<noteq> FatUnused"
proof -
  obtain bv1 where 1: "chained_read V bs src bv = (Ok None, bv1)" "cache_ok S H bv1" "view S bv1 = view S bv"
    using chained_read_ok [OF assms(1,2)] unfolding assms(3) by metis
  obtain res bv2 where 2: "with_fat (fat_allocate V bs) bv1 = (res, bv2)" "cache_ok S H bv2"
    "alloc_result bs 2 (view S bv) res (view S bv2)" using with_fat_allocate_ok [OF 1(2)] unfolding 1(3) by metis
  show ?thesis
  proof (cases res)
    case (Ok d)
    with 2(3) have d: "available bs d" "fat_of bs (view S bv) d = FatUnused"
      "view S bv2 = fat_put bs d UsedEoc (view S bv)" by (simp_all add: alloc_result_def)
    obtain bv3 where "with_fat (fat_write V bs src (UsedChained d)) bv2 = (Ok (), bv3)" "cache_ok S H bv3"
      "view S bv3 = fat_put bs src (UsedChained d) (view S bv2)" by (rule with_fat_write_ok [OF 2(2) assms(2)])
    moreover obtain bc where "root_cluster bs d = Ok bc" "cluster_handle bs d bc" "bc_last bc = None"
      by (rule root_cluster_ok [OF d(1)])
    ultimately show ?thesis using 1 2 Ok d new by (simp add: chained_prepare_def)
  next
    case (Err e)
    with 1 2 full [of bv2] show ?thesis
      by (auto simp: chained_prepare_def alloc_result_def available_def)
  qed (use 2 in \<open>simp_all add: alloc_result_def\<close>)
qed

text \<open>
  \<open>ChainedCluster::release\<close> cuts a chain behind a cluster: the clusters behind it are freed, and so
  is the cluster itself.
\<close>

lemma chained_release_ok:
  assumes "cache_ok S H bv" and "available bs src" and "fat_of bs (view S bv) src = UsedChained d"
    and "cluster_chain (fat_of bs (view S bv)) d cs" and "\<forall>x \<in> set cs. available bs x" and "src \<notin> set cs"
    and "clusters bs \<le> fuel"
  obtains bv' where "chained_release fuel V bs src bv = (Ok (), bv')" and "cache_ok S H bv'"
    and "view S bv' = release_all bs (src # cs) (view S bv)"
proof -
  obtain bv1 where 1: "chained_read V bs src bv = (Ok (Some d), bv1)" "cache_ok S H bv1" "view S bv1 = view S bv"
    using chained_read_ok [OF assms(1,2)] unfolding assms(3) by (metis chain.simps(1))
  obtain bv2 where 2: "with_fat (fat_write V bs src FatUnused) bv1 = (Ok (), bv2)" "cache_ok S H bv2"
    "view S bv2 = fat_put bs src FatUnused (view S bv1)" by (rule with_fat_write_ok [OF 1(2) assms(2)])
  have "cluster_chain (fat_of bs (view S bv2)) d cs"
    using assms(2,5,6) view_sectors_ok [OF assms(1)] 1(3) 2(3)
    by (intro cluster_chain_cong [OF assms(4)]) (auto simp: fat_of_put [OF geometry])
  from with_fat_release_ok [OF 2(2) this assms(5,7)] obtain bv3 where
    "with_fat (fat_release fuel V bs (Some d)) bv2 = (Ok (), bv3)" "cache_ok S H bv3"
    "view S bv3 = release_all bs cs (view S bv2)" by blast
  with 1 2 that show ?thesis by (simp add: chained_release_def release_all_def)
qed

end

section \<open>Properties\<close>

text \<open>The sample boot sector's geometry on a volume in memory of 64 sectors, all zero.\<close>

definition sample_bs :: boot_sector where
  "sample_bs = boot_sector_fields sample_boot_sector"

definition blank_disk :: "bytes list" where
  "blank_disk = replicate 64 (replicate 512 0)"

lemma sample_fat_volume: "fat_volume (ram_ops 512) (ram_spec 64 512) sample_bs"
  by (intro fat_volume.intro fat_volume_axioms.intro ram_volume_trait)
    (simp_all add: sample_bs_def sample_boot_sector_geometry sample_boot_sector_fields ram_spec_def
      bs_sector_size_def)

definition disk_ok :: "bytes list \<Rightarrow> bool" where
  "disk_ok d \<longleftrightarrow> length d = 64 \<and> (\<forall>s \<in> set d. length s = 512)"

lemma sample_cache_ok:
  assumes "disk_ok d"
  shows "cache_ok (ram_spec 64 512) {#} (new_buffered_volume d)"
    and "view (ram_spec 64 512) (new_buffered_volume d) = (\<lambda>n. if n < 64 then d ! n else [])"
proof -
  have "good (ram_spec 64 512) d" using assms by (simp add: ram_spec_def disk_ok_def)
  from volume_trait.new_buffered_volume_ok [OF ram_volume_trait this]
  show "cache_ok (ram_spec 64 512) {#} (new_buffered_volume d)"
    "view (ram_spec 64 512) (new_buffered_volume d) = (\<lambda>n. if n < 64 then d ! n else [])"
    by (simp_all add: ram_spec_def)
qed

text \<open>A disk with the chain of the clusters 2 and 3.\<close>

definition chain_disk :: "bytes list" where
  "chain_disk =
     blank_disk[32 := replicate 8 0 @ [3, 0, 0, 0, 0xff, 0xff, 0xff, 0x0f] @ replicate 496 0]"

lemma disk_ok_update:
  assumes "disk_ok d" and "length s = 512"
  shows "disk_ok (d[i := s])"
proof -
  have "set (d[i := s]) \<subseteq> insert s (set d)" by (rule set_update_subset_insert)
  with assms show ?thesis unfolding disk_ok_def by auto
qed

lemma sample_disks: "disk_ok blank_disk" "disk_ok chain_disk"
proof -
  show "disk_ok blank_disk" by (simp add: disk_ok_def blank_disk_def)
  then show "disk_ok chain_disk" unfolding chain_disk_def by (rule disk_ok_update) simp
qed

lemma sample_available: "available sample_bs c \<longleftrightarrow> 2 \<le> c \<and> c \<le> 32"
  by (auto simp: sample_bs_def available_def clusters_def data_start_def fat_area_start_def
      cluster_size_def sample_boot_sector_fields)

lemma sample_fat:
  assumes "available sample_bs c" and "disk_ok d"
  shows "fat_of sample_bs (view (ram_spec 64 512) (new_buffered_volume d)) c
    = fat_entry_from_u32 (from_le_bytes (array 4 (c * 4) (d ! 32)))"
proof -
  have c: "c \<le> 32" using assms(1) by (simp add: sample_available)
  have "fat_sector sample_bs c = 32" "fat_offset sample_bs c = c * 4"
    using c by (simp_all add: fat_sector_def fat_offset_def sample_bs_def fat_area_start_def
        bs_sector_size_def sample_boot_sector_fields)
  then show ?thesis by (simp add: fat_of_def sample_cache_ok(2) [OF assms(2)])
qed

lemma sample_blank_fat:
  assumes "available sample_bs c"
  shows "fat_of sample_bs (view (ram_spec 64 512) (new_buffered_volume blank_disk)) c = FatUnused"
proof -
  have "c \<le> 32" using assms by (simp add: sample_available)
  then have "4 \<le> 512 - c * 4" by linarith
  then have "array 4 (c * 4) (replicate 512 (0 :: u8)) = replicate 4 0"
    by (simp add: array_def min_def)
  moreover have "fat_entry_from_u32 (from_le_bytes (replicate 4 0)) = FatUnused" by code_simp
  ultimately show ?thesis using sample_fat [OF assms sample_disks(1)] by (simp add: blank_disk_def)
qed

lemma sample_chain:
  "cluster_chain (fat_of sample_bs (view (ram_spec 64 512) (new_buffered_volume chain_disk))) 2 [2, 3]"
proof -
  let ?f = "fat_of sample_bs (view (ram_spec 64 512) (new_buffered_volume chain_disk))"
  have "chain_disk ! 32 = replicate 8 0 @ [3, 0, 0, 0, 0xff, 0xff, 0xff, 0x0f] @ replicate 496 0"
    unfolding chain_disk_def by (rule nth_list_update_eq) (simp add: blank_disk_def)
  then have "array 4 (2 * 4) (chain_disk ! 32) = [3, 0, 0, 0]"
    "array 4 (3 * 4) (chain_disk ! 32) = [0xff, 0xff, 0xff, 0x0f]"
    by (simp_all add: array_def)
  moreover have "fat_entry_from_u32 (from_le_bytes [3, 0, 0, 0]) = UsedChained 3"
    "fat_entry_from_u32 (from_le_bytes [0xff, 0xff, 0xff, 0x0f]) = UsedEoc"
    by (simp_all add: from_le_bytes_def fat_entry_from_u32_nat)
  moreover have "available sample_bs 2" "available sample_bs 3" by (simp_all add: sample_available)
  ultimately have "?f 2 = UsedChained 3" "?f 3 = UsedEoc"
    by (simp_all only: sample_fat [OF _ sample_disks(2)])
  then show ?thesis by simp
qed

lemma sample_clusters: "clusters sample_bs = 31" "cluster_bytes sample_bs = 512"
  by (simp_all add: sample_bs_def clusters_def data_start_def fat_area_start_def cluster_size_def
      bs_sector_size_def sample_boot_sector_fields)

text \<open>The view before and after an allocation, entry by entry.\<close>

definition fat_alloc_spec ::
    "boot_sector \<Rightarrow> (nat \<Rightarrow> bytes) \<Rightarrow> (fs_error, nat) outcome \<Rightarrow> (nat \<Rightarrow> bytes) \<Rightarrow> bool" where
  "fat_alloc_spec bs w res w' \<longleftrightarrow>
     (case res of
        Ok d \<Rightarrow> available bs d \<and> fat_of bs w d = FatUnused
          \<and> (\<forall>c. available bs c \<and> c < d \<longrightarrow> fat_of bs w c \<noteq> FatUnused)
          \<and> (\<forall>c. available bs c \<longrightarrow> fat_of bs w' c = (if c = d then UsedEoc else fat_of bs w c))
          \<and> (\<forall>c. available bs c \<longrightarrow> cluster_data bs w' c = cluster_data bs w c)
      | Err e \<Rightarrow> e = Full \<and> w' = w \<and> (\<forall>c. available bs c \<longrightarrow> fat_of bs w c \<noteq> FatUnused)
      | Panic \<Rightarrow> False
      | Hang \<Rightarrow> False)"

lemma alloc_result_spec:
  assumes "geometry_ok bs" and "sectors_ok bs w" and "alloc_result bs 2 w res w'"
  shows "fat_alloc_spec bs w res w'"
proof (cases res)
  case (Ok d)
  then have d: "available bs d" "fat_of bs w d = FatUnused" "w' = fat_put bs d UsedEoc w"
    "\<forall>c. 2 \<le> c \<and> c < d \<longrightarrow> fat_of bs w c \<noteq> FatUnused"
    using assms(3) by (simp_all add: alloc_result_def)
  then show ?thesis
    using Ok fat_of_put [OF assms(1) d(1) _ assms(2), of _ UsedEoc] cluster_data_fat_put [OF assms(1) d(1)]
    by (simp add: fat_alloc_spec_def available_def)
next
  case (Err e)
  with assms(3) show ?thesis by (simp add: alloc_result_def fat_alloc_spec_def available_def)
qed (use assms(3) in \<open>simp_all add: alloc_result_def\<close>)

text \<open>
  C14: allocating a cluster takes the first unused entry of the FAT and marks it as the end of a chain,
  changing no other entry and no data; it reports \<open>Full\<close> only when no cluster is unused.
\<close>

theorem fat_allocate_first_unused:
  assumes "fat_volume V S bs" and "cache_ok S H bv"
  shows "\<exists>res bv'. with_fat (fat_allocate V bs) bv = (res, bv') \<and> cache_ok S H bv'
    \<and> fat_alloc_spec bs (view S bv) res (view S bv')"
proof -
  obtain res bv' where "with_fat (fat_allocate V bs) bv = (res, bv')" "cache_ok S H bv'"
    "alloc_result bs 2 (view S bv) res (view S bv')"
    by (rule fat_volume.with_fat_allocate_ok [OF assms])
  with alloc_result_spec [OF fat_volume.geometry [OF assms(1)] fat_volume.view_sectors_ok [OF assms]]
  show ?thesis by blast
qed

theorem fat_allocate_first_unused_witness:
  "\<exists>bv'. with_fat (fat_allocate (ram_ops 512) sample_bs) (new_buffered_volume blank_disk) = (Ok 2, bv')
     \<and> fat_of sample_bs (view (ram_spec 64 512) bv') 2 = UsedEoc"
proof -
  let ?w = "view (ram_spec 64 512) (new_buffered_volume blank_disk)"
  have two: "available sample_bs 2" "\<And>c. available sample_bs c \<Longrightarrow> 2 \<le> c"
    by (simp_all add: sample_available)
  note unused = sample_blank_fat
  obtain res bv' where r:
    "with_fat (fat_allocate (ram_ops 512) sample_bs) (new_buffered_volume blank_disk) = (res, bv')"
    "fat_alloc_spec sample_bs ?w res (view (ram_spec 64 512) bv')"
    using fat_allocate_first_unused [OF sample_fat_volume sample_cache_ok(1) [OF sample_disks(1)]] by blast
  show ?thesis
  proof (cases res)
    case (Ok d)
    with r(2) have "available sample_bs d" "\<not> 2 < d" using unused two by (auto simp: fat_alloc_spec_def)
    with two(2) have "d = 2" by force
    with Ok r two show ?thesis by (simp add: fat_alloc_spec_def)
  next
    case (Err e)
    with r(2) two(1) unused show ?thesis by (simp add: fat_alloc_spec_def)
  qed (use r(2) in \<open>simp_all add: fat_alloc_spec_def\<close>)
qed

text \<open>
  C15: releasing the chain of a file ends after at most one step per cluster and marks all of its
  clusters as unused, leaving the other entries and all data alone.
\<close>

theorem fat_release_frees_chain:
  assumes "fat_volume V S bs" and "cache_ok S H bv"
    and "cluster_chain (fat_of bs (view S bv)) c cs" and "\<forall>x \<in> set cs. available bs x"
    and "clusters bs \<le> fuel"
  shows "\<exists>bv'. with_fat (fat_release fuel V bs (Some c)) bv = (Ok (), bv') \<and> cache_ok S H bv'
    \<and> (\<forall>d. available bs d \<longrightarrow>
         fat_of bs (view S bv') d = (if d \<in> set cs then FatUnused else fat_of bs (view S bv) d)
         \<and> cluster_data bs (view S bv') d = cluster_data bs (view S bv) d)"
proof -
  note g = fat_volume.geometry [OF assms(1)]
  note sec = fat_volume.view_sectors_ok [OF assms(1,2)]
  obtain bv' where bv': "with_fat (fat_release fuel V bs (Some c)) bv = (Ok (), bv')" "cache_ok S H bv'"
    "view S bv' = release_all bs cs (view S bv)"
    by (rule fat_volume.with_fat_release_ok [OF assms])
  then show ?thesis
    using fat_of_release_all [OF g assms(4) sec] cluster_data_release_all [OF g assms(4)] by auto
qed

theorem fat_release_frees_chain_witness:
  "\<exists>bv'. with_fat (fat_release 31 (ram_ops 512) sample_bs (Some 2)) (new_buffered_volume chain_disk) = (Ok (), bv')
     \<and> fat_of sample_bs (view (ram_spec 64 512) bv') 2 = FatUnused
     \<and> fat_of sample_bs (view (ram_spec 64 512) bv') 3 = FatUnused"
  using fat_release_frees_chain [OF sample_fat_volume sample_cache_ok(1) [OF sample_disks(2)] sample_chain, of 31]
  by (auto simp: sample_available sample_clusters)

text \<open>
  C8: the bytes of a cluster behave as one flat array, whatever sectors a range crosses: reading back
  what was written at an offset yields it, and a write changes neither the rest of the cluster nor any
  other cluster nor the FAT.
\<close>

theorem cluster_write_read:
  assumes "fat_volume V S bs" and "cache_ok S (held (bc_last bc) + H) bv" and "cluster_handle bs c bc"
    and "offset + length buf \<le> cluster_bytes bs"
  shows "\<exists>bc1 bv1 bc2 bv2. cluster_write V offset buf (bc, bv) = (Ok (), (bc1, bv1))
    \<and> cluster_data bs (view S bv1) c = copy_from_array offset buf (cluster_data bs (view S bv) c)
    \<and> (\<forall>d. available bs d \<longrightarrow> fat_of bs (view S bv1) d = fat_of bs (view S bv) d
         \<and> (d \<noteq> c \<longrightarrow> cluster_data bs (view S bv1) d = cluster_data bs (view S bv) d))
    \<and> cluster_read V offset (replicate (length buf) 0) (bc1, bv1) = (Ok buf, (bc2, bv2))
    \<and> view S bv2 = view S bv1"
proof -
  note g = fat_volume.geometry [OF assms(1)]
  note sec = fat_volume.view_sectors_ok [OF assms(1,2)]
  have av: "available bs c" using assms(3) by (simp add: cluster_handle_def)
  let ?d = "copy_from_array offset buf (cluster_data bs (view S bv) c)"
  have len: "length (cluster_data bs (view S bv) c) = cluster_bytes bs" by (rule length_cluster_data [OF g av sec])
  obtain bc1 bv1 where 1: "cluster_write V offset buf (bc, bv) = (Ok (), (bc1, bv1))"
    "cache_ok S (held (bc_last bc1) + H) bv1" "cluster_handle bs c bc1"
    "view S bv1 = cluster_put bs c ?d (view S bv)"
    by (rule fat_volume.cluster_write_ok [OF assms])
  have d1: "cluster_data bs (view S bv1) c = ?d"
    unfolding 1(4) using assms(4) len by (intro cluster_put_data [OF g]) simp
  have "offset + length (replicate (length buf) (0 :: u8)) \<le> cluster_bytes bs" using assms(4) by simp
  from fat_volume.cluster_read_ok [OF assms(1) 1(2,3) this] obtain bc2 bv2 where
    "cluster_read V offset (replicate (length buf) 0) (bc1, bv1)
      = (Ok (array (length (replicate (length buf) (0 :: u8))) offset (cluster_data bs (view S bv1) c)), (bc2, bv2))"
    "view S bv2 = view S bv1" by blast
  then show ?thesis
    using 1 d1 len assms(4) fat_of_cluster_put [OF g av] cluster_data_put_other [OF av] by auto
qed

theorem cluster_write_read_witness:
  "\<exists>bc bc1 bv1 bc2 bv2. root_cluster sample_bs 2 = Ok bc
     \<and> cluster_write (ram_ops 512) 510 [7, 8] (bc, new_buffered_volume blank_disk) = (Ok (), (bc1, bv1))
     \<and> cluster_read (ram_ops 512) 510 [0, 0] (bc1, bv1) = (Ok [7, 8], (bc2, bv2))"
proof -
  have "available sample_bs 2" by (simp add: sample_available)
  from fat_volume.root_cluster_ok [OF sample_fat_volume this] obtain bc where
    bc: "root_cluster sample_bs 2 = Ok bc" "cluster_handle sample_bs 2 bc" "bc_last bc = None" by blast
  then have "cache_ok (ram_spec 64 512) (held (bc_last bc) + {#}) (new_buffered_volume blank_disk)"
    using sample_cache_ok(1) [OF sample_disks(1)] by simp
  from cluster_write_read [OF sample_fat_volume this bc(2), of 510 "[7, 8]"] bc(1) show ?thesis
    by (auto simp: sample_clusters numeral_2_eq_2)
qed



text \<open>
  C34: \<open>ChainedCluster::release\<close> on a cluster inside a chain frees the clusters behind it, and also the
  cluster itself, which the chain still contains: its entry becomes unused instead of the end of the
  chain, so that the chain is broken and the next allocation can hand the cluster out again.
\<close>

theorem chained_release_frees_source:
  assumes "fat_volume V S bs" and "cache_ok S H bv"
    and "cluster_chain (fat_of bs (view S bv)) c (xs @ src # cs)" and "cs \<noteq> []"
    and "\<forall>x \<in> set (xs @ src # cs). available bs x" and "clusters bs \<le> fuel"
  shows "\<exists>bv'. chained_release fuel V bs src bv = (Ok (), bv')
    \<and> (\<forall>d. available bs d \<longrightarrow>
         fat_of bs (view S bv') d = (if d = src \<or> d \<in> set cs then FatUnused else fat_of bs (view S bv) d))
    \<and> \<not> cluster_chain (fat_of bs (view S bv')) c (xs @ [src])"
proof -
  note g = fat_volume.geometry [OF assms(1)]
  note sec = fat_volume.view_sectors_ok [OF assms(1,2)]
  let ?f = "fat_of bs (view S bv)"
  obtain d ds where cs: "cs = d # ds" using assms(4) by (cases cs) auto
  have "cluster_chain ?f src (src # cs)"
    using cluster_chain_drop [OF assms(3), of "length xs"] by simp
  then have next_c: "?f src = UsedChained d" "cluster_chain ?f d cs" by (simp_all add: cs)
  have "distinct (xs @ src # cs)" by (rule cluster_chain_distinct [OF assms(3)])
  then have notin: "src \<notin> set cs" by simp
  have av: "available bs src" "\<forall>x \<in> set cs. available bs x" using assms(5) by auto
  obtain bv' where bv': "chained_release fuel V bs src bv = (Ok (), bv')"
    "view S bv' = release_all bs (src # cs) (view S bv)"
    by (rule fat_volume.chained_release_ok [OF assms(1,2) av(1) next_c(1,2) av(2) notin assms(6)])
  have f': "fat_of bs (view S bv') x = (if x = src \<or> x \<in> set cs then FatUnused else ?f x)"
    if "available bs x" for x
    using fat_of_release_all [OF g _ sec that, of "src # cs"] av bv'(2) by simp
  then have "\<not> cluster_chain (fat_of bs (view S bv')) c (xs @ [src])"
    using cluster_chain_last [of "fat_of bs (view S bv')" c "xs @ [src]"] av(1) by auto
  with bv' f' show ?thesis by blast
qed

theorem chained_release_frees_source_witness:
  "\<exists>bv'. chained_release 31 (ram_ops 512) sample_bs 2 (new_buffered_volume chain_disk) = (Ok (), bv')
     \<and> fat_of sample_bs (view (ram_spec 64 512) bv') 2 = FatUnused"
  using chained_release_frees_source [OF sample_fat_volume sample_cache_ok(1) [OF sample_disks(2)],
      of 2 "[]" 2 "[3]" 31] sample_chain
  by (auto simp: sample_available sample_clusters)

end
