(* ===== verification/Dir_Entry.thy ===== *)
theory Dir_Entry
  imports Unicode Fat_Low_Level
begin

text \<open>
  Directory entries, \<open>fs/fat/dir_entry.rs\<close>: the 32-byte records of a directory, short file names
  (8.3, with the lower-case flags of \<open>nt_res\<close>), and long file names, which are split over a
  sequence of entries in front of the short one and put together again by \<open>LfnReader\<close>.
\<close>

section \<open>Data\<close>

record sfn_entry =
  sfn_bytes :: bytes
  sfn_attr :: u8
  nt_res :: u8
  crt_time_tenth :: u8
  crt_time :: u16
  crt_date :: u16
  lst_acc_date :: u16
  fst_clus_hi :: u16
  wrt_time :: u16
  wrt_date :: u16
  fst_clus_lo :: u16
  sfn_file_size :: u32

record lfn_entry =
  lfn_ord :: u8
  name1 :: bytes
  lfn_attr :: u8
  lfn_ty :: u8
  lfn_chksum :: u8
  name2 :: bytes
  lfn_fst_clus_lo :: u16
  name3 :: bytes

datatype dir_entry = UnusedTerminal | DirUnused | Lfn lfn_entry | Sfn sfn_entry

definition DIR_ENTRY_SIZE :: nat where
  "DIR_ENTRY_SIZE = 32"

definition has_flag :: "u8 \<Rightarrow> u8 \<Rightarrow> bool" where
  "has_flag flag b \<longleftrightarrow> b AND flag = flag"

definition is_lfn_attr :: "u8 \<Rightarrow> bool" where
  "is_lfn_attr attr \<longleftrightarrow> attr AND 0x3f = 0x0f"

section \<open>Bytes\<close>

definition sfn_try_from :: "bytes \<Rightarrow> sfn_entry option" where
  "sfn_try_from buf =
     (if is_lfn_attr (buf ! 11) then None
      else Some \<lparr>sfn_bytes = array 11 0 buf, sfn_attr = buf ! 11, nt_res = buf ! 12,
        crt_time_tenth = buf ! 13, crt_time = from_le_bytes (array 2 14 buf),
        crt_date = from_le_bytes (array 2 16 buf), lst_acc_date = from_le_bytes (array 2 18 buf),
        fst_clus_hi = from_le_bytes (array 2 20 buf), wrt_time = from_le_bytes (array 2 22 buf),
        wrt_date = from_le_bytes (array 2 24 buf), fst_clus_lo = from_le_bytes (array 2 26 buf),
        sfn_file_size = from_le_bytes (array 4 28 buf)\<rparr>)"

text \<open>The buffer is filled front to back, so its bytes are the fields one after the other.\<close>

definition sfn_into :: "sfn_entry \<Rightarrow> bytes" where
  "sfn_into e =
     sfn_bytes e @ [sfn_attr e, nt_res e, crt_time_tenth e] @ to_le_bytes 2 (crt_time e)
     @ to_le_bytes 2 (crt_date e) @ to_le_bytes 2 (lst_acc_date e) @ to_le_bytes 2 (fst_clus_hi e)
     @ to_le_bytes 2 (wrt_time e) @ to_le_bytes 2 (wrt_date e) @ to_le_bytes 2 (fst_clus_lo e)
     @ to_le_bytes 4 (sfn_file_size e)"

definition lfn_try_from :: "bytes \<Rightarrow> lfn_entry option" where
  "lfn_try_from buf =
     (if is_lfn_attr (buf ! 11)
      then Some \<lparr>lfn_ord = buf ! 0, name1 = array 10 1 buf, lfn_attr = buf ! 11, lfn_ty = buf ! 12,
        lfn_chksum = buf ! 13, name2 = array 12 14 buf, lfn_fst_clus_lo = from_le_bytes (array 2 26 buf),
        name3 = array 4 28 buf\<rparr>
      else None)"

text \<open>The bytes 26 and 27 (\<open>_fst_clus_lo\<close>) stay zero.\<close>

definition lfn_into :: "lfn_entry \<Rightarrow> bytes" where
  "lfn_into e =
     [lfn_ord e] @ name1 e @ [lfn_attr e, lfn_ty e, lfn_chksum e] @ name2 e @ [0, 0] @ name3 e"

text \<open>\<open>expect\<close> cannot fail here: the attribute was checked before.\<close>

definition dir_entry_from :: "bytes \<Rightarrow> (fs_error, dir_entry) outcome" where
  "dir_entry_from buf =
     (if buf ! 0 = 0xe5 then Ok DirUnused
      else if buf ! 0 = 0 then Ok UnusedTerminal
      else if is_lfn_attr (buf ! 11) then try_then (or_panic (lfn_try_from buf)) (\<lambda>e. Ok (Lfn e))
      else try_then (or_panic (sfn_try_from buf)) (\<lambda>e. Ok (Sfn e)))"

fun dir_entry_into :: "dir_entry \<Rightarrow> bytes" where
  "dir_entry_into UnusedTerminal = replicate 32 0"
| "dir_entry_into DirUnused = 0xe5 # replicate 31 0"
| "dir_entry_into (Lfn e) = lfn_into e"
| "dir_entry_into (Sfn e) = sfn_into e"

section \<open>Short file names\<close>

definition new_sfn :: sfn_entry where
  "new_sfn =
     \<lparr>sfn_bytes = replicate 11 32, sfn_attr = 0, nt_res = 0, crt_time_tenth = 0, crt_time = 0,
      crt_date = 0, lst_acc_date = 0, fst_clus_hi = 0, wrt_time = 0, wrt_date = 0, fst_clus_lo = 0,
      sfn_file_size = 0\<rparr>"

definition set_is_directory :: "bool \<Rightarrow> sfn_entry \<Rightarrow> sfn_entry" where
  "set_is_directory d e = e\<lparr>sfn_attr := (if d then sfn_attr e OR 0x10 else sfn_attr e AND NOT 0x10)\<rparr>"

definition sfn_cluster :: "sfn_entry \<Rightarrow> nat option" where
  "sfn_cluster e =
     (let index = unat (fst_clus_lo e) OR push_bit 16 (unat (fst_clus_hi e))
      in if index \<noteq> 0 then Some index else None)"

text \<open>\<open>as u16\<close> keeps the low 16 bits.\<close>

definition set_cluster :: "nat option \<Rightarrow> sfn_entry \<Rightarrow> sfn_entry" where
  "set_cluster c e =
     (case c of
        Some i \<Rightarrow> e\<lparr>fst_clus_lo := word_of_nat i, fst_clus_hi := word_of_nat (drop_bit 16 i)\<rparr>
      | None \<Rightarrow> e\<lparr>fst_clus_lo := 0, fst_clus_hi := 0\<rparr>)"

definition sfn_current :: "nat option \<Rightarrow> sfn_entry" where
  "sfn_current c = set_cluster c (set_is_directory True (new_sfn\<lparr>sfn_bytes := 46 # replicate 10 32\<rparr>))"

definition sfn_parent :: "nat option \<Rightarrow> sfn_entry" where
  "sfn_parent c = set_cluster c (set_is_directory True (new_sfn\<lparr>sfn_bytes := 46 # 46 # replicate 9 32\<rparr>))"

text \<open>The closure \<open>put\<close> of \<open>name\<close>: characters up to a space, and whether one of them was replaced.\<close>

fun put_name :: "bytes \<Rightarrow> bool \<Rightarrow> bool \<times> rstring" where
  "put_name [] is_lower = (False, [])"
| "put_name (b # bs) is_lower =
     (let c = unat b; (irr, s) = put_name bs is_lower in
      if c = 32 then (False, [])
      else if 65 \<le> c \<and> c \<le> 90 \<and> is_lower then (irr, (c + 32) # s)
      else if 33 \<le> c \<and> c \<le> 126 then (irr, c # s)
      else (True, REPLACEMENT # s))"

definition sfn_name :: "sfn_entry \<Rightarrow> bool \<times> rstring" where
  "sfn_name e =
     (let (irr1, base) = put_name (array 8 0 (sfn_bytes e)) (has_flag 0x08 (nt_res e));
          dot = (if sfn_bytes e ! 8 \<noteq> 32 then snd (put_name [46] False) else []);
          (irr2, ext) = put_name (array 3 8 (sfn_bytes e)) (has_flag 0x10 (nt_res e))
      in (irr1 \<or> irr2, base @ dot @ ext))"

definition is_sfn_compatible_char :: "rchar \<Rightarrow> bool" where
  "is_sfn_compatible_char c \<longleftrightarrow>
     (48 \<le> c \<and> c \<le> 57) \<or> (65 \<le> c \<and> c \<le> 90) \<or> (97 \<le> c \<and> c \<le> 122)
     \<or> c \<in> set (str_of ''!#$%&'' @ [39] @ str_of ''()-@^_`{}~'')"

text \<open>The base and the extension, where their lengths allow a short name.\<close>

definition split_name :: "rstring \<Rightarrow> (rstring \<times> rstring) option" where
  "split_name s =
     (case position (\<lambda>c. c = 46) s of
        Some i \<Rightarrow>
          let base = take i s; ext = drop (i + 1) s in
          if 1 \<le> str_len base \<and> str_len base \<le> 8 \<and> 1 \<le> str_len ext \<and> str_len ext \<le> 3
          then Some (base, ext) else None
      | None \<Rightarrow> if 1 \<le> str_len s \<and> str_len s \<le> 8 then Some (s, []) else None)"

definition sfn_chars :: "rstring \<Rightarrow> bytes" where
  "sfn_chars s = map (\<lambda>c. word_of_nat (to_ascii_uppercase c)) s"

definition with_flag :: "u8 \<Rightarrow> bool \<Rightarrow> u8 \<Rightarrow> u8" where
  "with_flag flag on b = (if on then b OR flag else b AND NOT flag)"

definition set_name :: "rstring \<Rightarrow> sfn_entry \<Rightarrow> bool \<times> sfn_entry" where
  "set_name s e =
     (case split_name s of
        None \<Rightarrow> (False, e)
      | Some (base, ext) \<Rightarrow>
          let base_lower = list_ex is_ascii_lowercase base; base_upper = list_ex is_ascii_uppercase base;
              ext_lower = list_ex is_ascii_lowercase ext; ext_upper = list_ex is_ascii_uppercase ext
          in if \<not> list_all is_sfn_compatible_char base \<or> \<not> list_all is_sfn_compatible_char ext
                \<or> (base_lower \<and> base_upper) \<or> (ext_lower \<and> ext_upper)
             then (False, e)
             else (True, e\<lparr>sfn_bytes := sfn_chars base @ replicate (8 - str_len base) 32
                                       @ sfn_chars ext @ replicate (3 - str_len ext) 32,
                           nt_res := with_flag 0x10 ext_lower (with_flag 0x08 base_lower (nt_res e))\<rparr>))"

definition set_or_generate_name :: "rstring \<Rightarrow> sfn_entry \<Rightarrow> bool \<times> sfn_entry" where
  "set_or_generate_name s e =
     (case set_name s e of
        (True, e') \<Rightarrow> (True, e')
      | (False, e') \<Rightarrow>
          (False, e'\<lparr>sfn_bytes := take 11 (sfn_chars (filter is_sfn_compatible_char s) @ replicate 11 32)\<rparr>))"

text \<open>The wrapping sums of the checksum.\<close>

definition sfn_checksum :: "sfn_entry \<Rightarrow> u8" where
  "sfn_checksum e = fold (\<lambda>c sum. drop_bit 1 sum + push_bit 7 sum + c) (sfn_bytes e) 0"

definition is_read_only :: "sfn_entry \<Rightarrow> bool" where
  "is_read_only e = has_flag 0x01 (sfn_attr e)"

definition is_hidden :: "sfn_entry \<Rightarrow> bool" where
  "is_hidden e = has_flag 0x02 (sfn_attr e)"

definition is_system :: "sfn_entry \<Rightarrow> bool" where
  "is_system e = has_flag 0x04 (sfn_attr e)"

definition is_volume_id :: "sfn_entry \<Rightarrow> bool" where
  "is_volume_id e = has_flag 0x08 (sfn_attr e)"

definition is_directory :: "sfn_entry \<Rightarrow> bool" where
  "is_directory e = has_flag 0x10 (sfn_attr e)"

definition archive :: "sfn_entry \<Rightarrow> bool" where
  "archive e = has_flag 0x20 (sfn_attr e)"

definition mark_archive :: "sfn_entry \<Rightarrow> sfn_entry" where
  "mark_archive e = e\<lparr>sfn_attr := sfn_attr e OR 0x20\<rparr>"

definition file_size :: "sfn_entry \<Rightarrow> nat" where
  "file_size e = unat (sfn_file_size e)"

definition set_file_size :: "nat \<Rightarrow> sfn_entry \<Rightarrow> (fs_error, sfn_entry) outcome" where
  "set_file_size n e = (if n \<le> 2 ^ 32 - 1 then Ok (e\<lparr>sfn_file_size := word_of_nat n\<rparr>) else Panic)"

section \<open>Long file names\<close>

definition new_lfn :: "nat \<Rightarrow> bool \<Rightarrow> u8 \<Rightarrow> (fs_error, lfn_entry) outcome" where
  "new_lfn order is_last chksum =
     (if 1 \<le> order \<and> order \<le> 20
      then Ok \<lparr>lfn_ord = word_of_nat order OR (if is_last then 0x40 else 0), name1 = replicate 10 0,
               lfn_attr = 0x0f, lfn_ty = 0, lfn_chksum = chksum, name2 = replicate 12 0,
               lfn_fst_clus_lo = 0, name3 = replicate 4 0\<rparr>
      else Panic)"

definition le_units :: "u16 list \<Rightarrow> bytes" where
  "le_units us = concat (map (to_le_bytes 2) us)"

text \<open>13 UTF-16 units, spread over three fields of 5, 6 and 2 units.\<close>

definition write_name_parts :: "u16 list \<Rightarrow> lfn_entry \<Rightarrow> (fs_error, lfn_entry) outcome" where
  "write_name_parts us e =
     (if length us = 13
      then Ok (e\<lparr>name1 := le_units (take 5 us), name2 := le_units (array 6 5 us), name3 := le_units (drop 11 us)\<rparr>)
      else Panic)"

definition read_name_parts :: "lfn_entry \<Rightarrow> u16 list" where
  "read_name_parts e =
     map (\<lambda>i. from_le_bytes (if i \<le> 4 then array 2 (i * 2) (name1 e)
                              else if i \<le> 10 then array 2 ((i - 5) * 2) (name2 e)
                              else array 2 ((i - 11) * 2) (name3 e))) [0..<13]"

definition lfn_order :: "lfn_entry \<Rightarrow> nat" where
  "lfn_order e = unat (lfn_ord e AND NOT 0x40)"

definition is_last_entry :: "lfn_entry \<Rightarrow> bool" where
  "is_last_entry e \<longleftrightarrow> has_flag 0x40 (lfn_ord e) \<and> 1 \<le> lfn_order e \<and> lfn_order e \<le> 20"

definition is_lfn_compatible_char :: "rchar \<Rightarrow> bool" where
  "is_lfn_compatible_char c \<longleftrightarrow> c \<notin> set ([92] @ str_of ''/:*?'' @ [34] @ str_of ''<>|'')"

definition lfn_padded :: "u16 list \<Rightarrow> u16 list" where
  "lfn_padded us =
     (let padding = (13 - length us mod 13) mod 13
      in us @ map (\<lambda>i. if i = 0 then 0x0000 else 0xffff) [0..<padding])"

text \<open>The loop \<open>for i in 0..num_lfn\<close>: the entries in descending order, the first one marked.\<close>

fun lfn_entries :: "nat \<Rightarrow> u16 list \<Rightarrow> u8 \<Rightarrow> nat list \<Rightarrow> (fs_error, dir_entry list) outcome" where
  "lfn_entries num_lfn buf checksum [] = Ok []"
| "lfn_entries num_lfn buf checksum (i # is) =
     (let order = num_lfn - i in
      try_then (new_lfn order (i = 0) checksum) (\<lambda>e.
      try_then (write_name_parts (array 13 ((order - 1) * 13) buf) e) (\<lambda>e.
      try_then (lfn_entries num_lfn buf checksum is) (\<lambda>es. Ok (Lfn e # es)))))"

definition lfn_sequence :: "rstring \<Rightarrow> sfn_entry \<Rightarrow> (fs_error, dir_entry list option) outcome" where
  "lfn_sequence s sfn =
     (case set_or_generate_name s sfn of
        (True, sfn') \<Rightarrow> Ok (Some [Sfn sfn'])
      | (False, sfn') \<Rightarrow>
          if list_all is_lfn_compatible_char s then
            (let units = encode_utf16 s in
             if 255 < length units then Ok None
             else let buf = lfn_padded units; num_lfn = length buf div 13 in
                  try_then (lfn_entries num_lfn buf (sfn_checksum sfn') [0..<num_lfn])
                    (\<lambda>es. Ok (Some (es @ [Sfn sfn']))))
          else Ok None)"

subsection \<open>Reading them\<close>

datatype lfn_reader = LfnInit | LfnSequence u8 nat "u16 list"

datatype read_lfn_result =
    Meta dir_entry
  | Complete rstring sfn_entry
  | Incomplete
  | LfnBroken lfn_reader dir_entry

text \<open>Padding is stripped: units \<open>0xffff\<close> from the end, then one unit \<open>0x0000\<close>.\<close>

definition strip_padding :: "u16 list \<Rightarrow> u16 list" where
  "strip_padding us =
     (let vs = rev (dropWhile (\<lambda>u. u = 0xffff) (rev us))
      in if vs \<noteq> [] \<and> last vs = 0 then butlast vs else vs)"

text \<open>
  \<open>lfn.read_name_parts(&mut buf[(order - 1) * 13..order * 13])\<close>; \<open>order - 1\<close> underflows for order 0.
\<close>

definition read_parts_into :: "lfn_entry \<Rightarrow> nat \<Rightarrow> u16 list \<Rightarrow> (fs_error, u16 list) outcome" where
  "read_parts_into e order buf =
     (if order = 0 \<or> \<not> in_range ((order - 1) * 13) 13 buf then Panic
      else Ok (copy_from_array ((order - 1) * 13) (read_name_parts e) buf))"

text \<open>\<open>read\<close>: the result and the reader's new state, which is \<open>Init\<close> unless the code stores another.\<close>

definition lfn_read :: "lfn_reader \<Rightarrow> dir_entry \<Rightarrow> (fs_error, read_lfn_result \<times> lfn_reader) outcome" where
  "lfn_read reader e =
     (case (reader, e) of
        (LfnInit, Lfn lfn) \<Rightarrow>
          if is_last_entry lfn
          then try_then (read_parts_into lfn (lfn_order lfn) (replicate (lfn_order lfn * 13) 0)) (\<lambda>buf.
                 Ok (Incomplete, LfnSequence (lfn_chksum lfn) (lfn_order lfn - 1) buf))
          else Ok (LfnBroken LfnInit e, LfnInit)
      | (LfnInit, Sfn sfn) \<Rightarrow>
          if \<not> is_volume_id sfn then Ok (Complete (snd (sfn_name sfn)) sfn, LfnInit)
          else Ok (Meta e, LfnInit)
      | (LfnInit, _) \<Rightarrow> Ok (Meta e, LfnInit)
      | (LfnSequence checksum order buf, Lfn lfn) \<Rightarrow>
          if order = lfn_order lfn \<and> checksum = lfn_chksum lfn
          then try_then (read_parts_into lfn order buf) (\<lambda>buf'.
                 Ok (Incomplete, LfnSequence checksum (order - 1) buf'))
          else Ok (LfnBroken reader e, LfnInit)
      | (LfnSequence checksum order buf, Sfn sfn) \<Rightarrow>
          if order = 0 \<and> checksum = sfn_checksum sfn
          then Ok (Complete (from_utf16_lossy (strip_padding buf)) sfn, LfnInit)
          else Ok (LfnBroken reader e, LfnInit)
      | (LfnSequence checksum order buf, _) \<Rightarrow> Ok (LfnBroken reader e, LfnInit))"

section \<open>Byte round trips\<close>

fun dir_entry_wf :: "dir_entry \<Rightarrow> bool" where
  "dir_entry_wf UnusedTerminal \<longleftrightarrow> True"
| "dir_entry_wf DirUnused \<longleftrightarrow> True"
| "dir_entry_wf (Sfn e) \<longleftrightarrow>
     length (sfn_bytes e) = 11 \<and> sfn_bytes e ! 0 \<notin> {0, 0xe5} \<and> \<not> is_lfn_attr (sfn_attr e)"
| "dir_entry_wf (Lfn e) \<longleftrightarrow>
     length (name1 e) = 10 \<and> length (name2 e) = 12 \<and> length (name3 e) = 4 \<and> lfn_fst_clus_lo e = 0
     \<and> lfn_ord e \<notin> {0, 0xe5} \<and> is_lfn_attr (lfn_attr e)"

lemma sfn_from_into:
  assumes "length (sfn_bytes e) = 11" and "\<not> is_lfn_attr (sfn_attr e)"
  shows "sfn_try_from (sfn_into e) = Some e"
  using assms by (simp add: sfn_try_from_def sfn_into_def array_def nth_append)

lemma lfn_from_into:
  assumes "length (name1 e) = 10" "length (name2 e) = 12" "length (name3 e) = 4" "lfn_fst_clus_lo e = 0"
    and "is_lfn_attr (lfn_attr e)"
  shows "lfn_try_from (lfn_into e) = Some e"
  using assms by (simp add: lfn_try_from_def lfn_into_def array_def nth_append from_le_bytes_def)

lemma dir_entry_from_into:
  assumes "dir_entry_wf e"
  shows "dir_entry_from (dir_entry_into e) = Ok e"
proof (cases e)
  case (Lfn x)
  with assms lfn_from_into [of x] show ?thesis
    by (simp add: dir_entry_from_def lfn_into_def nth_append)
next
  case (Sfn x)
  with assms sfn_from_into [of x] show ?thesis
    by (simp add: dir_entry_from_def sfn_into_def nth_append)
qed (simp_all add: dir_entry_from_def)

lemma length_dir_entry_into: "dir_entry_wf e \<Longrightarrow> length (dir_entry_into e) = 32"
  by (cases e) (simp_all add: sfn_into_def lfn_into_def)

lemma sfn_cluster_set:
  assumes "0 < c" and "c < 2 ^ 32"
  shows "sfn_cluster (set_cluster (Some c) e) = Some c"
proof -
  have "unat (word_of_nat c :: u16) = take_bit 16 c" by (simp add: unat_of_nat take_bit_eq_mod)
  moreover have "unat (word_of_nat (drop_bit 16 c) :: u16) = drop_bit 16 c"
    using assms(2) by (simp add: unat_of_nat drop_bit_eq_div less_mult_imp_div_less)
  moreover have "take_bit 16 c OR push_bit 16 (drop_bit 16 c) = c"
  proof (rule bit_eqI)
    fix n show "bit (take_bit 16 c OR push_bit 16 (drop_bit 16 c)) n = bit c n"
      by (cases "n < 16") (simp_all add: bit_simps)
  qed
  ultimately show ?thesis using assms(1) by (simp add: sfn_cluster_def set_cluster_def Let_def)
qed

lemma sfn_cluster_set_None [simp]: "sfn_cluster (set_cluster None e) = None"
  by (simp add: sfn_cluster_def set_cluster_def)

section \<open>Short names\<close>

lemma str_len_ascii: "\<forall>c \<in> set s. c < 128 \<Longrightarrow> str_len s = length s"
  by (induction s) (simp_all add: str_len_def utf8_len_def)

lemma sfn_compatible_ascii: "is_sfn_compatible_char c \<Longrightarrow> 33 \<le> c \<and> c \<le> 126"
  by (auto simp: is_sfn_compatible_char_def str_of_def)

text \<open>The byte stored for a compatible character is printable: neither a space nor an entry's status mark.\<close>

lemma sfn_char_byte:
  assumes "is_sfn_compatible_char c"
  shows "unat (word_of_nat (to_ascii_uppercase c) :: u8) = to_ascii_uppercase c"
    and "33 \<le> to_ascii_uppercase c" and "to_ascii_uppercase c \<le> 126"
proof -
  show "33 \<le> to_ascii_uppercase c" "to_ascii_uppercase c \<le> 126"
    using sfn_compatible_ascii [OF assms] by (auto simp: to_ascii_uppercase_def is_ascii_lowercase_def)
  then show "unat (word_of_nat (to_ascii_uppercase c) :: u8) = to_ascii_uppercase c"
    by (simp add: unat_of_nat)
qed

lemma sfn_char_not_mark:
  assumes "is_sfn_compatible_char c"
  shows "(word_of_nat (to_ascii_uppercase c) :: u8) \<notin> {0, 32, 0xe5}"
proof
  assume "(word_of_nat (to_ascii_uppercase c) :: u8) \<in> {0, 32, 0xe5}"
  then have "unat (word_of_nat (to_ascii_uppercase c) :: u8) \<in> {0, 32, 0xe5}" by auto
  with sfn_char_byte [OF assms] show False by simp
qed

lemma put_name_append_spaces: "put_name (xs @ replicate n 32) low = put_name xs low"
  by (induction xs) (cases n; simp add: Let_def split: prod.splits)+

lemma put_sfn_chars:
  assumes "\<forall>c \<in> set s. is_sfn_compatible_char c"
    and "\<forall>c \<in> set s. if low then \<not> is_ascii_uppercase c else \<not> is_ascii_lowercase c"
  shows "put_name (sfn_chars s) low = (False, s)"
  using assms
proof (induction s)
  case (Cons c s)
  have c: "is_sfn_compatible_char c" using Cons.prems(1) by simp
  with sfn_compatible_ascii sfn_char_byte(1) have "33 \<le> c" "c \<le> 126"
    "unat (word_of_nat (to_ascii_uppercase c) :: u8) = to_ascii_uppercase c" by auto
  then show ?case
    using Cons by (auto simp: sfn_chars_def to_ascii_uppercase_def is_ascii_lowercase_def
        is_ascii_uppercase_def Let_def split: if_splits)
qed (simp add: sfn_chars_def)

text \<open>Flags are single bits.\<close>

lemma has_flag_bit: "k < 8 \<Longrightarrow> has_flag (push_bit k 1) b \<longleftrightarrow> bit b k"
  unfolding has_flag_def bit_eq_iff by (auto simp: bit_simps)

lemma bit_with_flag:
  "k < 8 \<Longrightarrow> n < 8 \<Longrightarrow> bit (with_flag (push_bit k 1) on b) n \<longleftrightarrow> (if n = k then on else bit b n)"
  by (auto simp: with_flag_def bit_simps)

lemma flag_numerals:
  "(0x08 :: u8) = push_bit 3 1" "(0x10 :: u8) = push_bit 4 1"
  "(0x20 :: u8) = push_bit 5 1" "(0x40 :: u8) = push_bit 6 1"
  by simp_all

lemma case_flags:
  "has_flag 0x08 (with_flag 0x10 x (with_flag 0x08 y b)) \<longleftrightarrow> y"
  "has_flag 0x10 (with_flag 0x10 x b) \<longleftrightarrow> x"
  unfolding flag_numerals by (subst has_flag_bit, simp, simp only: bit_with_flag, simp)+

lemma split_name_join:
  assumes "split_name s = Some (base, ext)"
  shows "s = base @ (if ext = [] then [] else 46 # ext)"
    and "1 \<le> str_len base" and "str_len base \<le> 8" and "str_len ext \<le> 3"
proof -
  have "s = base @ (if ext = [] then [] else 46 # ext) \<and> 1 \<le> str_len base \<and> str_len base \<le> 8 \<and> str_len ext \<le> 3"
  proof (cases "position (\<lambda>c. c = 46) s")
    case None
    with assms show ?thesis by (auto simp: split_name_def str_len_def split: if_splits)
  next
    case (Some i)
    then have "i < length s" "s ! i = 46" using position_SomeD by fastforce+
    then have join: "s = take i s @ 46 # drop (Suc i) s" by (metis id_take_nth_drop)
    have be: "base = take i s" "ext = drop (Suc i) s" "1 \<le> str_len base" "str_len base \<le> 8"
      "1 \<le> str_len ext" "str_len ext \<le> 3"
      using assms Some by (auto simp: split_name_def Let_def split: if_splits)
    then have "ext \<noteq> []" by (auto simp: str_len_def)
    with be join show ?thesis by simp
  qed
  then show "s = base @ (if ext = [] then [] else 46 # ext)" "1 \<le> str_len base" "str_len base \<le> 8" "str_len ext \<le> 3"
    by blast+
qed

text \<open>A name that fits the short form is stored so that it is read back as it was.\<close>

lemma set_name_SomeD:
  assumes "set_name s e = (True, e')"
  obtains base ext where "split_name s = Some (base, ext)"
    and "\<forall>c \<in> set base. is_sfn_compatible_char c" and "\<forall>c \<in> set ext. is_sfn_compatible_char c"
    and "\<not> (list_ex is_ascii_lowercase base \<and> list_ex is_ascii_uppercase base)"
    and "\<not> (list_ex is_ascii_lowercase ext \<and> list_ex is_ascii_uppercase ext)"
    and "e' = e\<lparr>sfn_bytes := (sfn_chars base @ replicate (8 - str_len base) 32)
                 @ (sfn_chars ext @ replicate (3 - str_len ext) 32),
               nt_res := with_flag 0x10 (list_ex is_ascii_lowercase ext)
                 (with_flag 0x08 (list_ex is_ascii_lowercase base) (nt_res e))\<rparr>"
  using assms by (auto simp: set_name_def Let_def list_all_iff split: option.splits if_splits)

lemma put_sfn_part:
  assumes "\<forall>c \<in> set s. is_sfn_compatible_char c"
    and "\<not> (list_ex is_ascii_lowercase s \<and> list_ex is_ascii_uppercase s)"
  shows "put_name (sfn_chars s @ replicate n 32) (list_ex is_ascii_lowercase s) = (False, s)"
  unfolding put_name_append_spaces
  by (rule put_sfn_chars) (use assms in \<open>auto simp: list_ex_iff\<close>)

lemma sfn_chars_first:
  assumes "\<forall>c \<in> set s. is_sfn_compatible_char c" and "s \<noteq> []"
  shows "(sfn_chars s @ xs) ! 0 \<notin> {0, 32, 0xe5}"
proof -
  obtain c cs where s: "s = c # cs" using assms(2) by (cases s) auto
  then have "is_sfn_compatible_char c" using assms(1) by simp
  from sfn_char_not_mark [OF this] show ?thesis by (simp add: s sfn_chars_def)
qed

lemma set_name_roundtrip:
  assumes "set_name s e = (True, e')"
  shows "sfn_name e' = (False, s)" and "length (sfn_bytes e') = 11" and "sfn_bytes e' ! 0 \<notin> {0, 0xe5}"
    and "sfn_attr e' = sfn_attr e"
proof -
  obtain base ext where sp: "split_name s = Some (base, ext)"
    and ok: "\<forall>c \<in> set base. is_sfn_compatible_char c" "\<forall>c \<in> set ext. is_sfn_compatible_char c"
      "\<not> (list_ex is_ascii_lowercase base \<and> list_ex is_ascii_uppercase base)"
      "\<not> (list_ex is_ascii_lowercase ext \<and> list_ex is_ascii_uppercase ext)"
    and e': "e' = e\<lparr>sfn_bytes := (sfn_chars base @ replicate (8 - str_len base) 32)
                 @ (sfn_chars ext @ replicate (3 - str_len ext) 32),
               nt_res := with_flag 0x10 (list_ex is_ascii_lowercase ext)
                 (with_flag 0x08 (list_ex is_ascii_lowercase base) (nt_res e))\<rparr>"
    by (rule set_name_SomeD [OF assms])
  note join = split_name_join [OF sp]
  have len: "str_len base = length base" "str_len ext = length ext"
    using ok(1,2) sfn_compatible_ascii by (intro str_len_ascii, fastforce)+
  let ?b = "sfn_chars base @ replicate (8 - str_len base) 32" and ?x = "sfn_chars ext @ replicate (3 - str_len ext) 32"
  have lens: "length ?b = 8" "length ?x = 3" using join(3,4) len by (simp_all add: sfn_chars_def)
  have bytes: "sfn_bytes e' = ?b @ ?x" by (simp add: e')
  have parts: "array 8 0 (?b @ ?x) = ?b" "array 3 8 (?b @ ?x) = ?x" "(?b @ ?x) ! 8 = ?x ! 0" "(?b @ ?x) ! 0 = ?b ! 0"
    using lens by (simp_all only: array_def drop_0 take_append drop_append nth_append) simp_all
  have flags: "has_flag 0x08 (nt_res e') = list_ex is_ascii_lowercase base"
    "has_flag 0x10 (nt_res e') = list_ex is_ascii_lowercase ext"
    by (simp_all add: e' case_flags)
  have dot: "?x ! 0 \<noteq> 32 \<longleftrightarrow> ext \<noteq> []"
    using sfn_chars_first [OF ok(2), of "replicate (3 - str_len ext) 32"] len
    by (cases "ext = []") (auto simp: sfn_chars_def)
  have "sfn_name e' = (False, base @ (if ext = [] then [] else [46]) @ ext)"
    unfolding sfn_name_def bytes parts flags put_sfn_part [OF ok(1,3)] put_sfn_part [OF ok(2,4)] dot
    by simp
  then show "sfn_name e' = (False, s)" using join(1) by simp
  show "length (sfn_bytes e') = 11" using lens by (simp add: bytes)
  show "sfn_attr e' = sfn_attr e" by (simp add: e')
  have "base \<noteq> []" using join(2) by (auto simp: str_len_def)
  then show "sfn_bytes e' ! 0 \<notin> {0, 0xe5}"
    unfolding bytes parts using sfn_chars_first [OF ok(1)] by blast
qed

section \<open>Long names\<close>

lemma unit_at:
  assumes "k < length us"
  shows "from_le_bytes (array 2 (k * 2) (le_units us)) = us ! k"
proof -
  have "\<forall>x \<in> set (map (to_le_bytes 2) us). length x = 2" by auto
  from array_concat [OF this, of k 0 2] assms show ?thesis
    by (simp add: le_units_def) (simp add: array_def)
qed

lemma read_write_parts:
  assumes "write_name_parts us e = Ok e'"
  shows "read_name_parts e' = us" and "lfn_ord e' = lfn_ord e" and "lfn_chksum e' = lfn_chksum e"
proof -
  have us: "length us = 13" and e': "e' = e\<lparr>name1 := le_units (take 5 us), name2 := le_units (array 6 5 us), name3 := le_units (drop 11 us)\<rparr>"
    using assms by (auto simp: write_name_parts_def split: if_splits)
  then show "lfn_ord e' = lfn_ord e" "lfn_chksum e' = lfn_chksum e" by simp_all
  show "read_name_parts e' = us"
  proof (rule nth_equalityI)
    fix i assume "i < length (read_name_parts e')"
    then have "i < 13" by (simp add: read_name_parts_def)
    then consider "i \<le> 4" | "5 \<le> i" "i \<le> 10" | "11 \<le> i" "i < 13" by linarith
    then show "read_name_parts e' ! i = us ! i"
      using us by cases (auto simp: read_name_parts_def e' unit_at nth_array)
  qed (simp add: read_name_parts_def us)
qed

lemma lfn_ords: "list_all (\<lambda>n. unat ((word_of_nat n OR 0x40 :: u8) AND NOT 0x40) = n
    \<and> unat ((word_of_nat n :: u8) AND NOT 0x40) = n \<and> has_flag 0x40 (word_of_nat n OR 0x40)) [1..<21]"
  by (simp add: upt_rec has_flag_def)

lemma new_lfn_order:
  assumes "new_lfn order l cs = Ok e"
  shows "lfn_order e = order" and "lfn_chksum e = cs" and "l \<Longrightarrow> is_last_entry e" and "1 \<le> order" and "order \<le> 20"
proof -
  have o: "1 \<le> order" "order \<le> 20"
    and e: "lfn_ord e = word_of_nat order OR (if l then 0x40 else 0)" "lfn_chksum e = cs"
    using assms by (auto simp: new_lfn_def split: if_splits)
  from o have "order \<in> set [1..<21]" by simp
  with lfn_ords e show "lfn_order e = order" "lfn_chksum e = cs" "l \<Longrightarrow> is_last_entry e"
    using o unfolding list_all_iff lfn_order_def is_last_entry_def by auto
  from o show "1 \<le> order" "order \<le> 20" by simp_all
qed

text \<open>What the directory iterator does with the entries of one file: it reads until a result is complete.\<close>

fun lfn_feed :: "lfn_reader \<Rightarrow> dir_entry list \<Rightarrow> (fs_error, read_lfn_result \<times> lfn_reader \<times> dir_entry list) outcome" where
  "lfn_feed r [] = Ok (Incomplete, r, [])"
| "lfn_feed r (e # es) =
     try_then (lfn_read r e) (\<lambda>(res, r'). if res = Incomplete then lfn_feed r' es else Ok (res, r', es))"

lemma lfn_entries_ConsD:
  assumes "lfn_entries num buf cs [i..<num] = Ok es" and "i < num" 
  obtains e es' where "es = Lfn e # es'" and "lfn_entries num buf cs [Suc i..<num] = Ok es'"
    and "read_name_parts e = array 13 ((num - i - 1) * 13) buf" and "lfn_order e = num - i" and "lfn_chksum e = cs"
    and "i = 0 \<longrightarrow> is_last_entry e"
proof -
  from assms(2) have "[i..<num] = i # [Suc i..<num]" by (simp add: upt_rec)
  with assms(1) obtain e0 e es' where es: "es = Lfn e # es'" "lfn_entries num buf cs [Suc i..<num] = Ok es'"
    and e0: "new_lfn (num - i) (i = 0) cs = Ok e0"
    and e: "write_name_parts (array 13 ((num - i - 1) * 13) buf) e0 = Ok e" by (auto simp: Let_def)
  from e0 have "lfn_order e0 = num - i" "lfn_chksum e0 = cs" "i = 0 \<Longrightarrow> is_last_entry e0" by (auto dest: new_lfn_order)
  moreover from read_write_parts [OF e] have "lfn_order e = lfn_order e0" "lfn_chksum e = lfn_chksum e0" "is_last_entry e = is_last_entry e0"
    by (simp_all add: lfn_order_def is_last_entry_def)
  ultimately show thesis using es read_write_parts(1) [OF e] by (intro that [of e es']) auto
qed

lemma copy_part_drop:
  assumes "length b = length buf" and "drop (k + n) b = drop (k + n) buf" and "k + n \<le> length buf"
  shows "drop k (copy_from_array k (array n k buf) b) = drop k buf"
proof -
  have "drop k buf = array n k buf @ drop (k + n) buf"
    by (simp add: array_def) (metis append_take_drop_id drop_drop add.commute)
  with assms show ?thesis by (simp add: copy_from_array_def)
qed

lemma lfn_feed_entries:
  assumes "lfn_entries num buf (sfn_checksum sfn) [i..<num] = Ok es" and "i \<le> num"
    and "length buf = num * 13" and "length b = num * 13" and "drop ((num - i) * 13) b = drop ((num - i) * 13) buf"
  shows "lfn_feed (LfnSequence (sfn_checksum sfn) (num - i) b) (es @ Sfn sfn # rest)
    = Ok (Complete (from_utf16_lossy (strip_padding buf)) sfn, LfnInit, rest)"
  using assms
proof (induction "num - i" arbitrary: i b es)
  case 0
  then show ?case by (simp add: lfn_read_def)
next
  case (Suc n)
  then have i: "i < num" and n: "num - i = Suc n" "num - Suc i = n" by simp_all
  obtain e es' where es: "es = Lfn e # es'"
    and rest: "lfn_entries num buf (sfn_checksum sfn) [Suc i..<num] = Ok es'"
    and e0: "read_name_parts e = array 13 ((num - i - 1) * 13) buf" "lfn_order e = num - i" "lfn_chksum e = sfn_checksum sfn"
    by (rule lfn_entries_ConsD [OF Suc.prems(1) i])
  then have e: "read_name_parts e = array 13 (n * 13) buf" "lfn_order e = Suc n" "lfn_chksum e = sfn_checksum sfn"
    using n by simp_all
  have "n * 13 + 13 \<le> num * 13" using n by simp
  then have len: "n * 13 + 13 \<le> length buf" using Suc.prems(3) by simp
  let ?b = "copy_from_array (n * 13) (array 13 (n * 13) buf) b"
  have "drop (n * 13) ?b = drop (n * 13) buf"
    using Suc.prems len n by (intro copy_part_drop) (simp_all add: add.commute)
  moreover have "length ?b = num * 13" using len Suc.prems(3,4) by simp
  ultimately have "lfn_feed (LfnSequence (sfn_checksum sfn) n ?b) (es' @ Sfn sfn # rest)
    = Ok (Complete (from_utf16_lossy (strip_padding buf)) sfn, LfnInit, rest)"
    using Suc.hyps(1) [of "Suc i" es' ?b] rest n i Suc.prems(3) by simp
  then show ?case
    using len Suc.prems(3,4) by (simp add: es lfn_read_def read_parts_into_def in_range_def e n)
qed

lemma length_lfn_padded: "length (lfn_padded us) = (length us + 12) div 13 * 13"
proof -
  define q k where "q = length us div 13" and "k = length us mod 13"
  have us: "length us = 13 * q + k" and k: "k < 13" by (simp_all add: q_def k_def)
  have "13 * q + k + (13 - k) mod 13 = (13 * q + k + 12) div 13 * 13"
  proof (cases "k = 0")
    case False
    then have "13 * q + k + 12 = 13 * Suc q + (k - 1)" "(k - 1) div 13 = 0" using k by simp_all
    then have "(13 * q + k + 12) div 13 = Suc q" by simp
    with False k show ?thesis by simp
  qed simp
  then show ?thesis using k by (simp add: lfn_padded_def Let_def us)
qed

lemma strip_padded:
  assumes "us = [] \<or> last us \<notin> {0, 0xffff}"
  shows "strip_padding (lfn_padded us) = us"
proof -
  let ?p = "(13 - length us mod 13) mod 13"
  show ?thesis
  proof (cases "?p = 0")
    case True
    with assms have "dropWhile (\<lambda>u. u = 0xffff) (rev us) = rev us"
      by (cases us rule: rev_cases) auto
    moreover from True have "lfn_padded us = us" unfolding lfn_padded_def Let_def by simp
    ultimately show ?thesis using assms by (auto simp: strip_padding_def)
  next
    case False
    then obtain n where n: "?p = Suc n" by (cases ?p) auto
    have "[0..<Suc n] = 0 # map Suc [0..<n]" by (simp add: map_Suc_upt upt_conv_Cons del: upt_Suc)
    then have "map (\<lambda>i. if i = 0 then 0x0000 else 0xffff :: u16) [0..<Suc n] = 0 # replicate n 0xffff"
      by (simp add: o_def map_replicate_const del: upt_Suc)
    then have "lfn_padded us = us @ 0 # replicate n 0xffff"
      unfolding lfn_padded_def Let_def n by simp
    moreover have "dropWhile (\<lambda>u. u = 0xffff) (replicate n 0xffff @ (0 :: u16) # rev us) = 0 # rev us"
      by (induction n) auto
    ultimately show ?thesis by (simp add: strip_padding_def)
  qed
qed

lemma last_encode_utf16:
  assumes "s \<noteq> []" and "last s \<notin> {0, 0xffff}" and "\<forall>c \<in> set s. is_scalar c"
  shows "last (encode_utf16 s) \<notin> {0, 0xffff} \<and> encode_utf16 s \<noteq> []"
proof -
  obtain t c where s: "s = t @ [c]" using assms(1) by (cases s rule: rev_cases) auto
  with assms have c: "c \<noteq> 0" "c \<noteq> 0xffff" "is_scalar c" by auto
  have "last (encode_utf16_char c) \<noteq> 0 \<and> last (encode_utf16_char c) \<noteq> 0xffff \<and> encode_utf16_char c \<noteq> []"
  proof (cases "c < 0x10000")
    case True
    then have u: "unat (word_of_nat c :: u16) = c" by (simp add: unat_of_nat)
    then have "(word_of_nat c :: u16) \<noteq> 0" "(word_of_nat c :: u16) \<noteq> 0xffff"
      using c by (auto dest: arg_cong [where f = unat])
    with True show ?thesis by (simp add: encode_utf16_char_def)
  next
    case False
    define r where "r = (c - 0x10000) mod 0x400"
    have "r < 0x400" by (simp add: r_def)
    then have u: "unat (word_of_nat (0xDC00 + r) :: u16) = 0xDC00 + r"
      by (simp add: unat_of_nat del: of_nat_add)
    have "(word_of_nat (0xDC00 + r) :: u16) \<noteq> 0" "(word_of_nat (0xDC00 + r) :: u16) \<noteq> 0xffff"
    proof -
      show "(word_of_nat (0xDC00 + r) :: u16) \<noteq> 0" using u by (metis add_is_0 unat_0 zero_neq_numeral)
      show "(word_of_nat (0xDC00 + r) :: u16) \<noteq> 0xffff"
      proof
        assume "(word_of_nat (0xDC00 + r) :: u16) = 0xffff"
        with u have "unat (0xffff :: u16) = 0xDC00 + r" by simp
        with \<open>r < 0x400\<close> show False by simp
      qed
    qed
    with False show ?thesis by (simp add: encode_utf16_char_def r_def [symmetric] del: of_nat_add)
  qed
  then show ?thesis by (simp add: s encode_utf16_def last_append)
qed

lemma set_or_generate_name_attr:
  "set_or_generate_name s e = (b, e') \<Longrightarrow> sfn_attr e' = sfn_attr e"
  by (auto simp: set_or_generate_name_def set_name_def Let_def split: prod.splits bool.splits option.splits if_splits)

lemma lfn_sequence_SomeD:
  assumes "lfn_sequence s sfn = Ok (Some es)"
  obtains sfn' where "set_or_generate_name s sfn = (True, sfn')" and "es = [Sfn sfn']"
  | sfn' es' where "set_or_generate_name s sfn = (False, sfn')" and "es = es' @ [Sfn sfn']"
      and "lfn_entries (length (lfn_padded (encode_utf16 s)) div 13) (lfn_padded (encode_utf16 s)) (sfn_checksum sfn')
        [0..<length (lfn_padded (encode_utf16 s)) div 13] = Ok es'"
  using assms by (auto simp: lfn_sequence_def Let_def split: prod.splits bool.splits if_splits)

lemma lfn_feed_sequence:
  assumes "lfn_entries num buf (sfn_checksum sfn) [0..<num] = Ok es" and "0 < num" and "length buf = num * 13"
  shows "lfn_feed LfnInit (es @ Sfn sfn # rest)
    = Ok (Complete (from_utf16_lossy (strip_padding buf)) sfn, LfnInit, rest)"
proof -
  obtain e es' where es: "es = Lfn e # es'"
    and tail: "lfn_entries num buf (sfn_checksum sfn) [Suc 0..<num] = Ok es'"
    and e: "read_name_parts e = array 13 ((num - 0 - 1) * 13) buf" "lfn_order e = num - 0" "lfn_chksum e = sfn_checksum sfn"
    and last: "0 = (0 :: nat) \<longrightarrow> is_last_entry e"
    by (rule lfn_entries_ConsD [OF assms(1,2)])
  let ?b = "copy_from_array ((num - 1) * 13) (array 13 ((num - 1) * 13) buf) (replicate (num * 13) 0)"
  have n: "(num - 1) * 13 + 13 = num * 13" using assms(2) by (cases num) simp_all
  have "drop ((num - 1) * 13) ?b = drop ((num - 1) * 13) buf"
    by (rule copy_part_drop) (use n assms(3) in \<open>simp_all\<close>)
  moreover have "length ?b = num * 13" using n assms(3) by simp
  ultimately have "lfn_feed (LfnSequence (sfn_checksum sfn) (num - 1) ?b) (es' @ Sfn sfn # rest)
    = Ok (Complete (from_utf16_lossy (strip_padding buf)) sfn, LfnInit, rest)"
    using lfn_feed_entries [of num buf sfn "Suc 0" es' ?b rest] tail assms(2,3) by simp
  then show ?thesis
    using assms(2) last n by (simp add: es lfn_read_def read_parts_into_def in_range_def e)
qed

lemma put_name_blank [simp]: "put_name (replicate n 32) l = (False, [])"
  using put_name_append_spaces [of "[]" n l] by simp

lemma sfn_name_blank: "sfn_bytes e = replicate 11 32 \<Longrightarrow> snd (sfn_name e) = []"
  by (simp add: sfn_name_def array_def)

lemma length_le_units [simp]: "length (le_units us) = 2 * length us"
  by (induction us) (simp_all add: le_units_def)

lemma lfn_entry_wf:
  assumes e0: "new_lfn n l cs = Ok e0" and e: "write_name_parts us e0 = Ok e"
  shows "dir_entry_wf (Lfn e)"
proof -
  have "length (name1 e) = 10" "length (name2 e) = 12" "length (name3 e) = 4" "lfn_fst_clus_lo e = 0" "lfn_attr e = 0x0f"
    using assms by (auto simp: new_lfn_def write_name_parts_def split: if_splits)
  moreover have "lfn_ord e \<notin> {0, 0xe5}"
  proof
    have "lfn_order e = n" using new_lfn_order(1) [OF e0] read_write_parts(2) [OF e] by (simp add: lfn_order_def)
    moreover assume "lfn_ord e \<in> {0, 0xe5}"
    ultimately have "n \<in> {0, 165}" by (auto simp: lfn_order_def)
    with new_lfn_order(4,5) [OF e0] show False by auto
  qed
  ultimately show ?thesis by (simp add: is_lfn_attr_def)
qed

lemma lfn_entries_wf:
  assumes "lfn_entries num buf cs is = Ok es"
  shows "\<forall>e \<in> set es. dir_entry_wf e"
  using assms by (induction "is" arbitrary: es) (auto simp: Let_def dest: lfn_entry_wf)

lemma volume_id_lfn_attr: "is_lfn_attr (sfn_attr e) \<Longrightarrow> is_volume_id e"
proof -
  assume "is_lfn_attr (sfn_attr e)"
  then have "bit (sfn_attr e AND 0x3f) 3" by (simp add: is_lfn_attr_def)
  then have "bit (sfn_attr e) 3" by (simp add: bit_and_iff)
  then show ?thesis unfolding is_volume_id_def flag_numerals by (subst has_flag_bit) simp_all
qed

lemma generated_name_wf:
  assumes "set_or_generate_name s e = (b, e')"
  shows "length (sfn_bytes e') = 11" and "sfn_bytes e' ! 0 \<notin> {0, 0xe5}"
proof -
  have "length (sfn_bytes e') = 11 \<and> sfn_bytes e' ! 0 \<notin> {0, 0xe5}"
  proof (cases "fst (set_name s e)")
    case True
    then have "set_name s e = (True, e')"
      using assms by (cases "set_name s e") (auto simp: set_or_generate_name_def)
    then show ?thesis using set_name_roundtrip(2,3) by blast
  next
    case False
    let ?f = "filter is_sfn_compatible_char s"
    from False have "sfn_bytes e' = take 11 (sfn_chars ?f @ replicate 11 32)"
      using assms by (cases "set_name s e") (auto simp: set_or_generate_name_def)
    moreover have "(sfn_chars ?f @ replicate 11 32) ! 0 \<notin> {0, 0xe5}"
    proof (cases "?f = []")
      case True
      then show ?thesis by (simp add: sfn_chars_def)
    next
      case False
      have "\<forall>c \<in> set ?f. is_sfn_compatible_char c" by simp
      from sfn_chars_first [OF this False] show ?thesis by blast
    qed
    moreover have "length (take 11 (sfn_chars ?f @ replicate 11 32)) = 11"
      "take 11 (sfn_chars ?f @ replicate 11 32) ! 0 = (sfn_chars ?f @ replicate 11 32) ! 0"
      by (simp_all only: length_take length_append length_replicate nth_take)
    ultimately show ?thesis by metis
  qed
  then show "length (sfn_bytes e') = 11" "sfn_bytes e' ! 0 \<notin> {0, 0xe5}" by auto
qed

lemma lfn_sequence_wf:
  assumes "lfn_sequence s sfn = Ok (Some es)" and "\<not> is_volume_id sfn"
  shows "\<forall>e \<in> set es. dir_entry_wf e"
proof -
  have wf: "dir_entry_wf (Sfn sfn')" if "set_or_generate_name s sfn = (b, sfn')" for b sfn'
    using generated_name_wf [OF that] set_or_generate_name_attr [OF that] volume_id_lfn_attr [of sfn] assms(2) by auto
  from assms(1) show ?thesis
    by (rule lfn_sequence_SomeD) (auto simp del: dir_entry_wf.simps dest: lfn_entries_wf wf)
qed

text \<open>Every name of compatible characters with at most 255 units has its sequence; nothing panics on the way.\<close>

lemma lfn_entries_total:
  assumes "\<forall>i \<in> set is. i < num" and "num \<le> 20" and "length buf = num * 13"
  shows "\<exists>es. lfn_entries num buf cs is = Ok es"
  using assms(1)
proof (induction "is")
  case (Cons i "is")
  then have i: "1 \<le> num - i" "num - i \<le> 20" and "(num - i - 1) * 13 + 13 \<le> num * 13"
    using assms(2) by (auto simp: diff_mult_distrib)
  then have "length (array 13 ((num - i - 1) * 13) buf) = 13" using assms(3) by simp
  with i Cons show ?case by (auto simp: new_lfn_def write_name_parts_def Let_def)
qed simp

lemma lfn_sequence_total:
  assumes "list_all is_lfn_compatible_char s" and "length (encode_utf16 s) \<le> 255"
  shows "\<exists>es. lfn_sequence s sfn = Ok (Some es)"
proof -
  let ?buf = "lfn_padded (encode_utf16 s)"
  have "length ?buf div 13 \<le> 20" "length ?buf = length ?buf div 13 * 13"
    using assms(2) by (simp_all add: length_lfn_padded)
  from lfn_entries_total [OF _ this] have "\<exists>es. lfn_entries (length ?buf div 13) ?buf cs [0..<length ?buf div 13] = Ok es" for cs
    by simp
  with assms show ?thesis by (auto simp: lfn_sequence_def Let_def split: prod.splits bool.splits)
qed

lemma lfn_feed_complete:
  assumes "lfn_sequence s sfn = Ok (Some es)"
    and "\<forall>c \<in> set s. is_scalar c" and "s = [] \<or> last s \<notin> {0, 0xffff}" and "\<not> is_volume_id sfn"
  shows "\<exists>sfn'. last es = Sfn sfn' \<and> lfn_feed LfnInit (es @ rest) = Ok (Complete s sfn', LfnInit, rest)"
proof -
  have vol: "\<not> is_volume_id sfn'" if "set_or_generate_name s sfn = (b, sfn')" for b sfn'
    using set_or_generate_name_attr [OF that] assms(4) by (simp add: is_volume_id_def)
  from assms(1) show "\<exists>sfn'. last es = Sfn sfn' \<and> lfn_feed LfnInit (es @ rest) = Ok (Complete s sfn', LfnInit, rest)"
  proof (rule lfn_sequence_SomeD, goal_cases short long)
    case (short sfn')
    then have "set_name s sfn = (True, sfn')"
      by (cases "set_name s sfn") (auto simp: set_or_generate_name_def split: bool.splits)
    with short vol set_name_roundtrip(1) show ?case by (simp add: lfn_read_def)
  next
    case (long sfn' es')
    let ?us = "encode_utf16 s"
    let ?n = "length (lfn_padded ?us) div 13"
    show ?case
    proof (cases "s = []")
      case True
      then have "sfn_bytes sfn' = replicate 11 32" "es' = []"
        using long by (auto simp: set_or_generate_name_def lfn_padded_def sfn_chars_def split: prod.splits bool.splits)
      with long vol [OF long(1)] True show ?thesis by (simp add: lfn_read_def sfn_name_blank)
    next
      case False
      with assms have last: "last ?us \<notin> {0, 0xffff}" "?us \<noteq> []" using last_encode_utf16 by blast+
      have "0 < ?n" "length (lfn_padded ?us) = ?n * 13" using last(2) by (cases ?us; simp add: length_lfn_padded)+
      from lfn_feed_sequence [OF long(3) this] show ?thesis
        using long(2) strip_padded [of ?us] last from_utf16_encode [OF assms(2)] by simp
    qed
  qed
qed

text \<open>
  C18: The directory entries made for a file name survive being written to a directory, and the reader puts
  them together to the same name. For every Rust string (scalar values only) of at most 255 UTF-16 units
  without the nine forbidden characters, that does not end in a character used as padding,
  \<open>lfn_sequence\<close> gives entries without a panic, every entry is read from its 32 bytes as it was, and
  feeding the entries to a fresh \<open>LfnReader\<close> completes exactly at the last of them, the file's short entry,
  with the name given: whether the name fits the short form or is split into up to 20 parts.
\<close>

theorem file_name_roundtrip:
  assumes "list_all is_lfn_compatible_char s" and "length (encode_utf16 s) \<le> 255"
    and "\<forall>c \<in> set s. is_scalar c" and "s = [] \<or> last s \<notin> {0, 0xffff}" and "\<not> is_volume_id sfn"
  shows "\<exists>es sfn'. lfn_sequence s sfn = Ok (Some es) \<and> last es = Sfn sfn'
    \<and> list_all (\<lambda>e. dir_entry_from (dir_entry_into e) = Ok e) es
    \<and> lfn_feed LfnInit (es @ rest) = Ok (Complete s sfn', LfnInit, rest)"
proof -
  obtain es where es: "lfn_sequence s sfn = Ok (Some es)" using lfn_sequence_total [OF assms(1,2)] by blast
  have "list_all (\<lambda>e. dir_entry_from (dir_entry_into e) = Ok e) es"
    using lfn_sequence_wf [OF es assms(5)] dir_entry_from_into by (simp add: list_all_iff)
  with es lfn_feed_complete [OF es assms(3,4,5), of rest] show ?thesis by blast
qed

theorem file_name_roundtrip_witness:
  "\<exists>es sfn'. lfn_sequence (str_of ''Long name.text'') new_sfn = Ok (Some es) \<and> last es = Sfn sfn'
    \<and> list_all (\<lambda>e. dir_entry_from (dir_entry_into e) = Ok e) es
    \<and> lfn_feed LfnInit (es @ [UnusedTerminal]) = Ok (Complete (str_of ''Long name.text'') sfn', LfnInit, [UnusedTerminal])"
  by (rule file_name_roundtrip)
    (simp_all add: str_of_def is_lfn_compatible_char_def encode_utf16_char_def is_scalar_def is_volume_id_def
      new_sfn_def has_flag_def)



end
