(* ===== verification/Fat_Directory.thy ===== *)
theory Fat_Directory
  imports Dir_Entry
begin

text \<open>
  Directories, \<open>fs/fat.rs\<close> (\<open>Dir\<close>, \<open>DirIter\<close>) and the directory part of \<open>fs/fat/low_level.rs\<close>
  (\<open>DirEntries\<close>). A directory is a chain of clusters read as 32-byte entries; an iterator over it
  keeps the cluster it reads, and with it a reference to a sector, until it is dropped. Chains on the
  volume may be cyclic and entries may be broken, so the iterators take fuel, and \<open>Hang\<close> is the
  outcome of a loop that does not end within it.
\<close>

section \<open>Entries of a cluster\<close>

definition dir_entries_count :: "buffered_cluster \<Rightarrow> nat" where
  "dir_entries_count c = bc_size c div DIR_ENTRY_SIZE"

definition read_dir_entry ::
    "'v volume_ops \<Rightarrow> nat \<Rightarrow> 'v cluster_state \<Rightarrow> (fs_error, dir_entry) outcome \<times> 'v cluster_state" where
  "read_dir_entry V index st =
     try_st (cluster_read V (index * DIR_ENTRY_SIZE) (replicate DIR_ENTRY_SIZE 0) st)
       (\<lambda>buf st. (dir_entry_from buf, st))"

definition write_dir_entry ::
    "'v volume_ops \<Rightarrow> nat \<Rightarrow> dir_entry \<Rightarrow> 'v cluster_state \<Rightarrow> (fs_error, unit) outcome \<times> 'v cluster_state" where
  "write_dir_entry V index e st = cluster_write V (index * DIR_ENTRY_SIZE) (dir_entry_into e) st"

text \<open>\<open>self.root.cluster(c)\<close> for the time of one operation.\<close>

definition with_cluster ::
    "boot_sector \<Rightarrow> nat \<Rightarrow> ('v cluster_state \<Rightarrow> (fs_error, 'a) outcome \<times> 'v cluster_state)
      \<Rightarrow> 'v buffered_volume \<Rightarrow> (fs_error, 'a) outcome \<times> 'v buffered_volume" where
  "with_cluster bs c f bv =
     try_st (root_cluster bs c, bv) (\<lambda>bc bv. case f (bc, bv) of (res, st) \<Rightarrow> (res, drop_cluster st))"

section \<open>DirEntries\<close>

type_synonym cursor = "(buffered_cluster \<times> nat) option"

fun drop_cursor :: "cursor \<times> 'v buffered_volume \<Rightarrow> 'v buffered_volume" where
  "drop_cursor (None, bv) = bv"
| "drop_cursor (Some (c, n), bv) = drop_cluster (c, bv)"

definition dir_entries :: "boot_sector \<Rightarrow> nat \<Rightarrow> (fs_error, cursor) outcome" where
  "dir_entries bs cluster = try_then (root_cluster bs cluster) (\<lambda>c. Ok (Some (c, 0)))"

text \<open>
  \<open>next\<close>: a read error ends the iteration, as \<open>trace_err()?\<close> does. The cluster taken out of the
  cursor is dropped at the end of the call, after the recursive call for the next cluster.
\<close>

fun dir_entries_next ::
    "nat \<Rightarrow> 'v volume_ops \<Rightarrow> boot_sector \<Rightarrow> cursor \<times> 'v buffered_volume
      \<Rightarrow> (fs_error, (nat \<times> nat \<times> dir_entry) option) outcome \<times> (cursor \<times> 'v buffered_volume)" where
  "dir_entries_next fuel V bs (None, bv) = (Ok None, (None, bv))"
| "dir_entries_next 0 V bs (Some cn, bv) = (Hang, (Some cn, bv))"
| "dir_entries_next (Suc fuel) V bs (Some (c, n), bv) =
     (if n < dir_entries_count c then
        (case read_dir_entry V n (c, bv) of
           (Ok e, (c', bv')) \<Rightarrow>
             if e \<noteq> UnusedTerminal
             then (Ok (Some (bc_cluster c, n, e)), (Some (c', n + 1), bv'))
             else (Ok (Some (bc_cluster c, n, e)), (None, drop_cluster (c', bv')))
         | (Err _, st) \<Rightarrow> (Ok None, (None, drop_cluster st))
         | (Panic, (c', bv')) \<Rightarrow> (Panic, (None, bv'))
         | (Hang, (c', bv')) \<Rightarrow> (Hang, (None, bv')))
      else
        (case with_fat (fat_read V bs (bc_cluster c)) bv of
           (Ok e, bv') \<Rightarrow>
             (case chain e of
                None \<Rightarrow> (Ok None, (None, drop_cluster (c, bv')))
              | Some d \<Rightarrow>
                  (case root_cluster bs d of
                     Ok c' \<Rightarrow>
                       (case dir_entries_next fuel V bs (Some (c', 0), bv') of
                          (res, (cur, bv'')) \<Rightarrow> (res, (cur, drop_cluster (c, bv''))))
                   | Err err \<Rightarrow> (Err err, (None, bv'))
                   | Panic \<Rightarrow> (Panic, (None, bv'))
                   | Hang \<Rightarrow> (Hang, (None, bv'))))
         | (Err _, bv') \<Rightarrow> (Ok None, (None, drop_cluster (c, bv')))
         | (Panic, bv') \<Rightarrow> (Panic, (None, bv'))
         | (Hang, bv') \<Rightarrow> (Hang, (None, bv'))))"

section \<open>Files and DirIter\<close>

text \<open>\<open>File\<close>: the directory it is in, its name, where its entries begin, and its last entry.\<close>

record fat_file =
  file_dir :: nat
  file_name :: rstring
  entry_location :: "nat \<times> nat"
  last_sfn :: sfn_entry
  last_location :: "nat \<times> nat"

text \<open>
  \<open>DirIter::next\<close> and its loop, which feeds the entries to a reader. \<open>return self.next()\<close> starts
  over; a broken sequence hands the entry back to the (now fresh) reader.
\<close>

fun dir_iter_next ::
    "nat \<Rightarrow> 'v volume_ops \<Rightarrow> boot_sector \<Rightarrow> nat \<Rightarrow> cursor \<times> 'v buffered_volume
      \<Rightarrow> (fs_error, fat_file option) outcome \<times> (cursor \<times> 'v buffered_volume)"
  and dir_iter_loop ::
    "nat \<Rightarrow> 'v volume_ops \<Rightarrow> boot_sector \<Rightarrow> nat \<Rightarrow> lfn_reader \<Rightarrow> nat \<times> nat \<Rightarrow> nat \<times> nat \<Rightarrow> dir_entry
      \<Rightarrow> cursor \<times> 'v buffered_volume \<Rightarrow> (fs_error, fat_file option) outcome \<times> (cursor \<times> 'v buffered_volume)" where
  "dir_iter_next 0 V bs dir st = (Hang, st)"
| "dir_iter_next (Suc fuel) V bs dir st =
     try_st (dir_entries_next fuel V bs st) (\<lambda>next st.
       case next of
         None \<Rightarrow> (Ok None, st)
       | Some (sc, sn, e) \<Rightarrow> dir_iter_loop fuel V bs dir LfnInit (sc, sn) (sc, sn) e st)"
| "dir_iter_loop 0 V bs dir reader s_loc e_loc e st = (Hang, st)"
| "dir_iter_loop (Suc fuel) V bs dir reader s_loc e_loc e st =
     try_st (lfn_read reader e, st) (\<lambda>(res, reader') st.
       case res of
         Meta m \<Rightarrow> if m = UnusedTerminal then (Ok None, st) else dir_iter_next fuel V bs dir st
       | Incomplete \<Rightarrow>
           try_st (dir_entries_next fuel V bs st) (\<lambda>next st.
             case next of
               None \<Rightarrow> (Ok None, st)
             | Some (ec, en, e') \<Rightarrow> dir_iter_loop fuel V bs dir reader' s_loc (ec, en) e' st)
       | Complete name sfn \<Rightarrow>
           if name \<in> {str_of ''.'', str_of ''..''} then dir_iter_next fuel V bs dir st
           else (Ok (Some \<lparr>file_dir = dir, file_name = name, entry_location = s_loc, last_sfn = sfn,
                           last_location = e_loc\<rparr>), st)
       | LfnBroken _ e' \<Rightarrow> dir_iter_loop fuel V bs dir reader' e_loc e_loc e' st)"

section \<open>Dir\<close>

definition dir_parent ::
    "'v volume_ops \<Rightarrow> boot_sector \<Rightarrow> nat \<Rightarrow> 'v buffered_volume \<Rightarrow> (fs_error, nat option) outcome \<times> 'v buffered_volume" where
  "dir_parent V bs dir bv =
     (if dir = root_dir_cluster bs then (Ok None, bv)
      else try_st (with_cluster bs dir (read_dir_entry V 1) bv) (\<lambda>e bv.
        case e of
          Sfn sfn \<Rightarrow> (Ok (Some (case sfn_cluster sfn of None \<Rightarrow> root_dir_cluster bs | Some c \<Rightarrow> c)), bv)
        | _ \<Rightarrow> (Ok None, bv)))"

text \<open>\<open>self.files().any(|f| f.name() == name)\<close>: the iteration stops at the first match.\<close>

fun any_file ::
    "nat \<Rightarrow> 'v volume_ops \<Rightarrow> boot_sector \<Rightarrow> nat \<Rightarrow> rstring \<Rightarrow> cursor \<times> 'v buffered_volume
      \<Rightarrow> (fs_error, bool) outcome \<times> (cursor \<times> 'v buffered_volume)" where
  "any_file 0 V bs dir name st = (Hang, st)"
| "any_file (Suc fuel) V bs dir name st =
     try_st (dir_iter_next fuel V bs dir st) (\<lambda>next st.
       case next of
         None \<Rightarrow> (Ok False, st)
       | Some f \<Rightarrow> if file_name f = name then (Ok True, st) else any_file fuel V bs dir name st)"

definition check_name_conflict ::
    "nat \<Rightarrow> 'v volume_ops \<Rightarrow> boot_sector \<Rightarrow> nat \<Rightarrow> rstring \<Rightarrow> 'v buffered_volume
      \<Rightarrow> (fs_error, unit) outcome \<times> 'v buffered_volume" where
  "check_name_conflict fuel V bs dir name bv =
     try_st (dir_entries bs dir, bv) (\<lambda>cur bv.
     try_st (case any_file fuel V bs dir name (cur, bv) of (res, st) \<Rightarrow> (res, drop_cursor st)) (\<lambda>found bv.
       (if found then Err FileAlreadyExists else Ok (), bv)))"

text \<open>
  \<open>insert_dir_entries\<close>: the loop that looks for unused entries in a row, and the loop that writes
  the new entries, which takes another cluster where one is full.
\<close>

fun find_writable ::
    "nat \<Rightarrow> 'v volume_ops \<Rightarrow> boot_sector \<Rightarrow> nat \<Rightarrow> nat \<times> nat \<Rightarrow> nat \<Rightarrow> cursor \<times> 'v buffered_volume
      \<Rightarrow> (fs_error, (nat \<times> nat) \<times> nat) outcome \<times> (cursor \<times> 'v buffered_volume)" where
  "find_writable 0 V bs required_len start len st = (Hang, st)"
| "find_writable (Suc fuel) V bs required_len start len st =
     try_st (dir_entries_next fuel V bs st) (\<lambda>next st.
       case next of
         None \<Rightarrow> (Ok (start, len), st)
       | Some (c, n, e) \<Rightarrow>
           (let start' = (if len = 0 then (c, n) else start) in
            case e of
              DirUnused \<Rightarrow>
                if len + 1 = required_len then (Ok (start', len + 1), st)
                else find_writable fuel V bs required_len start' (len + 1) st
            | UnusedTerminal \<Rightarrow> (Ok (start', len), st)
            | _ \<Rightarrow> find_writable fuel V bs required_len start 0 st))"

fun write_entries ::
    "'v volume_ops \<Rightarrow> boot_sector \<Rightarrow> dir_entry list \<Rightarrow> nat \<Rightarrow> 'v cluster_state
      \<Rightarrow> (fs_error, unit) outcome \<times> 'v cluster_state" where
  "write_entries V bs [] n st = (Ok (), st)"
| "write_entries V bs (e # es) n (c, bv) =
     try_st
       (if dir_entries_count c \<le> n
        then try_st (case chained_prepare V bs (bc_cluster c) bv of (res, bv') \<Rightarrow> (res, (c, bv')))
               (\<lambda>c' st. (Ok 0, (c', drop_cluster st)))
        else (Ok n, (c, bv)))
       (\<lambda>n st. try_st (write_dir_entry V n e st) (\<lambda>_ st. write_entries V bs es (n + 1) st))"

definition insert_dir_entries ::
    "nat \<Rightarrow> 'v volume_ops \<Rightarrow> boot_sector \<Rightarrow> nat \<Rightarrow> dir_entry list \<Rightarrow> 'v buffered_volume
      \<Rightarrow> (fs_error, unit) outcome \<times> 'v buffered_volume" where
  "insert_dir_entries fuel V bs dir entries bv =
     (let required_len = length entries in
      if required_len = 0 then (Ok (), bv)
      else
        try_st (dir_entries bs dir, bv) (\<lambda>cur bv.
        try_st (case find_writable fuel V bs required_len (dir, 0) 0 (cur, bv) of (res, st) \<Rightarrow> (res, drop_cursor st))
          (\<lambda>((c, n), writable_len) bv.
             let terminal = (if writable_len \<noteq> required_len then [UnusedTerminal] else [])
             in with_cluster bs c (write_entries V bs (entries @ terminal) n) bv)))"

definition create_file ::
    "nat \<Rightarrow> 'v volume_ops \<Rightarrow> boot_sector \<Rightarrow> nat \<Rightarrow> rstring \<Rightarrow> 'v buffered_volume
      \<Rightarrow> (fs_error, unit) outcome \<times> 'v buffered_volume" where
  "create_file fuel V bs dir name bv =
     try_st (check_name_conflict fuel V bs dir name bv) (\<lambda>_ bv.
     try_st (lfn_sequence name new_sfn, bv) (\<lambda>entries bv.
       case entries of
         None \<Rightarrow> (Err InvalidFileName, bv)
       | Some es \<Rightarrow> insert_dir_entries fuel V bs dir es bv))"

text \<open>The entries \<open>.\<close> and \<open>..\<close> of a new directory, and the terminal one.\<close>

definition init_dir ::
    "'v volume_ops \<Rightarrow> sfn_entry \<Rightarrow> sfn_entry \<Rightarrow> 'v cluster_state \<Rightarrow> (fs_error, unit) outcome \<times> 'v cluster_state" where
  "init_dir V current_dir parent_dir st =
     try_st (write_dir_entry V 0 (Sfn current_dir) st) (\<lambda>_ st.
     try_st (write_dir_entry V 1 (Sfn parent_dir) st) (\<lambda>_ st.
       write_dir_entry V 2 UnusedTerminal st))"

definition create_dir ::
    "nat \<Rightarrow> 'v volume_ops \<Rightarrow> boot_sector \<Rightarrow> nat \<Rightarrow> rstring \<Rightarrow> 'v buffered_volume
      \<Rightarrow> (fs_error, unit) outcome \<times> 'v buffered_volume" where
  "create_dir fuel V bs dir name bv =
     try_st (check_name_conflict fuel V bs dir name bv) (\<lambda>_ bv.
     try_st (lfn_sequence name new_sfn, bv) (\<lambda>entries bv.
       case entries of
         None \<Rightarrow> (Err InvalidFileName, bv)
       | Some es \<Rightarrow>
           try_st (with_fat (fat_allocate V bs) bv) (\<lambda>c bv.
           try_st (with_cluster bs c
                     (init_dir V (sfn_current (Some c))
                        (sfn_parent (if dir = root_dir_cluster bs then None else Some dir))) bv) (\<lambda>_ bv.
             case (es, last es) of
               (_ # _, Sfn sfn) \<Rightarrow>
                 insert_dir_entries fuel V bs dir
                   (butlast es @ [Sfn (set_cluster (Some c) (set_is_directory True sfn))]) bv
             | _ \<Rightarrow> (Panic, bv)))))"

section \<open>Fuel\<close>

text \<open>More fuel does not change an outcome, and less fuel only turns it into \<open>Hang\<close>.\<close>

lemma dir_entries_next_fuel:
  assumes "dir_entries_next fuel V bs st = (Ok x, st')"
  shows "fst (dir_entries_next k V bs st) = Hang \<or> dir_entries_next k V bs st = (Ok x, st')"
  using assms
proof (induction fuel V bs st arbitrary: k x st' rule: dir_entries_next.induct)
  case (3 fuel V bs c n bv)
  show ?case
  proof (cases k)
    case (Suc j)
    show ?thesis
    proof (cases "n < dir_entries_count c")
      case True
      with 3 Suc show ?thesis by simp
    next
      case False
      obtain e bv1 where 1: "with_fat (fat_read V bs (bc_cluster c)) bv = (e, bv1)" by fastforce
      show ?thesis
      proof (cases "\<exists>e' d c'. e = Ok e' \<and> chain e' = Some d \<and> root_cluster bs d = Ok c'")
        case True
        then obtain e' d c' where e: "e = Ok e'" "chain e' = Some d" "root_cluster bs d = Ok c'" by blast
        obtain res cur bv2 where 2: "dir_entries_next fuel V bs (Some (c', 0), bv1) = (res, (cur, bv2))"
          by (metis prod.exhaust_sel)
        with 3(2) False 1 e have res: "res = Ok x" by simp
        from 3(1) [OF False 1 [symmetric] e] have
          "fst (dir_entries_next j V bs (Some (c', 0), bv1)) = Hang \<or> dir_entries_next j V bs (Some (c', 0), bv1) = (Ok x, (cur, bv2))"
          using 2 res by blast
        then show ?thesis using 3(2) False 1 2 e res Suc by (auto split: prod.splits)
      next
        case other: False
        with 3(2) False 1 Suc show ?thesis
          by (auto split: outcome.splits option.splits)
      qed
    qed
  qed simp
qed auto

lemma orphan_loop: "\<not> is_last_entry e \<Longrightarrow> dir_iter_loop fuel V bs dir LfnInit s l (Lfn e) st = (Hang, st)"
  by (induction fuel arbitrary: s) (simp_all add: lfn_read_def)

section \<open>Directories as lists\<close>

text \<open>
  The abstract directory: the entries of the slots of its clusters, up to and including the terminal one.
\<close>

definition epc :: "boot_sector \<Rightarrow> nat" where
  "epc bs = cluster_bytes bs div 32"

definition the_entry :: "bytes \<Rightarrow> dir_entry" where
  "the_entry b = (case dir_entry_from b of Ok e \<Rightarrow> e | _ \<Rightarrow> UnusedTerminal)"

lemma dir_entry_from_Ok: "dir_entry_from b = Ok (the_entry b)"
  by (simp add: the_entry_def dir_entry_from_def lfn_try_from_def sfn_try_from_def)

definition entry_at :: "boot_sector \<Rightarrow> (nat \<Rightarrow> bytes) \<Rightarrow> nat \<times> nat \<Rightarrow> dir_entry" where
  "entry_at bs w s = the_entry (array 32 (snd s * 32) (cluster_data bs w (fst s)))"

fun slots :: "nat \<Rightarrow> nat \<Rightarrow> nat list \<Rightarrow> (nat \<times> nat) list" where
  "slots m n [] = []"
| "slots m n (c # cs) = map (Pair c) [n..<m] @ slots m 0 cs"

fun upto_terminal :: "(nat \<times> nat \<times> dir_entry) list \<Rightarrow> (nat \<times> nat \<times> dir_entry) list" where
  "upto_terminal [] = []"
| "upto_terminal ((c, n, e) # xs) = (c, n, e) # (if e = UnusedTerminal then [] else upto_terminal xs)"

definition dir_rest :: "boot_sector \<Rightarrow> (nat \<Rightarrow> bytes) \<Rightarrow> nat \<Rightarrow> nat list \<Rightarrow> (nat \<times> nat \<times> dir_entry) list" where
  "dir_rest bs w n cs = upto_terminal (map (\<lambda>s. (fst s, snd s, entry_at bs w s)) (slots (epc bs) n cs))"

text \<open>A chain of available clusters.\<close>

definition chain_at :: "boot_sector \<Rightarrow> (nat \<Rightarrow> bytes) \<Rightarrow> nat \<Rightarrow> nat list \<Rightarrow> bool" where
  "chain_at bs w c cs \<longleftrightarrow> cluster_chain (fat_of bs w) c cs \<and> (\<forall>x \<in> set cs. available bs x)"

fun cursor_at :: "boot_sector \<Rightarrow> (nat \<Rightarrow> bytes) \<Rightarrow> cursor \<Rightarrow> (nat \<times> nat \<times> dir_entry) list \<Rightarrow> bool" where
  "cursor_at bs w None rest \<longleftrightarrow> rest = []"
| "cursor_at bs w (Some (bc, n)) rest \<longleftrightarrow>
     (\<exists>c cs. cluster_handle bs c bc \<and> chain_at bs w c (c # cs) \<and> n \<le> epc bs \<and> rest = dir_rest bs w n (c # cs))"

definition held_cursor :: "cursor \<Rightarrow> nat multiset" where
  "held_cursor cur = (case cur of None \<Rightarrow> {#} | Some (bc, n) \<Rightarrow> held (bc_last bc))"

lemma held_cursor_simps [simp]: "held_cursor None = {#}" "held_cursor (Some (bc, n)) = held (bc_last bc)"
  by (simp_all add: held_cursor_def)

lemma dir_rest_Cons:
  assumes "n < epc bs"
  shows "dir_rest bs w n (c # cs) = (c, n, entry_at bs w (c, n))
    # (if entry_at bs w (c, n) = UnusedTerminal then [] else dir_rest bs w (Suc n) (c # cs))"
  using assms by (simp add: dir_rest_def upt_conv_Cons)

lemma dir_rest_next: "dir_rest bs w (epc bs) (c # cs) = dir_rest bs w 0 cs"
  by (simp add: dir_rest_def)

lemma dir_rest_Nil [simp]: "dir_rest bs w n [] = []"
  by (simp add: dir_rest_def)

lemma chain_at_tl: "chain_at bs w c (c # d # cs) \<Longrightarrow> chain_at bs w d (d # cs) \<and> fat_of bs w c = UsedChained d"
  by (simp add: chain_at_def)

lemma chain_at_end: "chain_at bs w c [c] \<Longrightarrow> fat_of bs w c = UsedEoc"
  by (simp add: chain_at_def)

lemma dir_entries_count_eq: "cluster_handle bs c bc \<Longrightarrow> dir_entries_count bc = epc bs"
  by (simp add: dir_entries_count_def epc_def cluster_handle_def bc_size_def DIR_ENTRY_SIZE_def mult.commute)

lemma entry_in_cluster: "n < epc bs \<Longrightarrow> n * 32 + 32 \<le> cluster_bytes bs"
  unfolding epc_def using div_times_less_eq_dividend [of "cluster_bytes bs" 32] by simp

text \<open>What \<open>next\<close> yields at a cursor with the entries \<open>rest\<close> ahead: the first of them, and a cursor at the others.\<close>

definition yields ::
    "'v volume_spec \<Rightarrow> boot_sector \<Rightarrow> nat multiset \<Rightarrow> 'v buffered_volume \<Rightarrow> (nat \<times> nat \<times> dir_entry) list
      \<Rightarrow> (fs_error, (nat \<times> nat \<times> dir_entry) option) outcome \<times> (cursor \<times> 'v buffered_volume) \<Rightarrow> bool" where
  "yields S bs H bv rest res \<longleftrightarrow>
     (\<exists>cur' bv'. res = (Ok (case rest of [] \<Rightarrow> None | x # _ \<Rightarrow> Some x), (cur', bv'))
       \<and> cache_ok S (held_cursor cur' + H) bv' \<and> view S bv' = view S bv
       \<and> cursor_at bs (view S bv) cur' (tl rest))"

context fat_volume
begin

lemma read_dir_entry_ok:
  assumes "cache_ok S (held (bc_last bc) + H) bv" and "cluster_handle bs c bc" and "n < epc bs"
  obtains bc' bv' where "read_dir_entry V n (bc, bv) = (Ok (entry_at bs (view S bv) (c, n)), (bc', bv'))"
    and "cache_ok S (held (bc_last bc') + H) bv'" and "cluster_handle bs c bc'" and "view S bv' = view S bv"
proof -
  have "n * 32 + length (replicate 32 (0 :: u8)) \<le> cluster_bytes bs" using entry_in_cluster [OF assms(3)] by simp
  then obtain bc' bv' where "cluster_read V (n * 32) (replicate 32 0) (bc, bv)
      = (Ok (array (length (replicate 32 (0 :: u8))) (n * 32) (cluster_data bs (view S bv) c)), (bc', bv'))"
    "cache_ok S (held (bc_last bc') + H) bv'" "cluster_handle bs c bc'" "view S bv' = view S bv"
    by (rule cluster_read_ok [OF assms(1,2)])
  then show ?thesis
    using that by (simp add: read_dir_entry_def DIR_ENTRY_SIZE_def entry_at_def dir_entry_from_Ok)
qed

lemma drop_cluster_ok:
  assumes "cache_ok S (held (bc_last bc) + H) bv"
  shows "cache_ok S H (drop_cluster (bc, bv))" and "view S (drop_cluster (bc, bv)) = view S bv"
  using drop_last_ok [OF assms] by simp_all

lemma drop_cursor_ok:
  assumes "cache_ok S (held_cursor cur + H) bv"
  shows "cache_ok S H (drop_cursor (cur, bv))" and "view S (drop_cursor (cur, bv)) = view S bv"
  using assms drop_cluster_ok by (cases cur; auto)+

declare drop_cluster.simps [simp del]

lemma dir_entries_next_here:
  assumes "cache_ok S (held (bc_last bc) + H) bv" and "cluster_handle bs c bc" and "n < epc bs"
    and "chain_at bs (view S bv) c (c # cs)"
  shows "yields S bs H bv (dir_rest bs (view S bv) n (c # cs)) (dir_entries_next (Suc fuel) V bs (Some (bc, n), bv))"
proof -
  let ?e = "entry_at bs (view S bv) (c, n)"
  obtain bc' bv' where r: "read_dir_entry V n (bc, bv) = (Ok ?e, (bc', bv'))"
    "cache_ok S (held (bc_last bc') + H) bv'" "cluster_handle bs c bc'" "view S bv' = view S bv"
    by (rule read_dir_entry_ok [OF assms(1-3)])
  have bc: "dir_entries_count bc = epc bs" by (rule dir_entries_count_eq [OF assms(2)])
  have [simp]: "bc_cluster bc = c" using assms(2) by (simp add: cluster_handle_def)
  show ?thesis
  proof (cases "?e = UnusedTerminal")
    case True
    with r bc assms(3) drop_cluster_ok [OF r(2)] show ?thesis by (simp add: yields_def dir_rest_Cons)
  next
    case False
    moreover have "cursor_at bs (view S bv) (Some (bc', Suc n)) (dir_rest bs (view S bv) (Suc n) (c # cs))"
      using assms(3,4) r(3) by auto
    ultimately show ?thesis using r bc assms(3) by (simp add: yields_def dir_rest_Cons del: cursor_at.simps)
  qed
qed

lemma epc_pos: "0 < epc bs"
proof -
  have wf: "boot_sector_wf bs" using geometry by (simp add: geometry_ok_def)
  have "32 \<le> bs_sector_size bs" "1 \<le> cluster_size bs"
    using dvd_imp_le [OF boot_sector_wf_sizes(3) [OF wf] boot_sector_wf_sizes(1) [OF wf]] boot_sector_wf_sizes(4) [OF wf]
    by simp_all
  then have "1 * 32 \<le> cluster_bytes bs" by (intro mult_le_mono) simp_all
  then show ?thesis by (simp add: epc_def)
qed

lemma dir_entries_next_ok:
  assumes "cache_ok S (held_cursor cur + H) bv" and "cursor_at bs (view S bv) cur rest" and "2 \<le> fuel"
  shows "yields S bs H bv rest (dir_entries_next fuel V bs (cur, bv))"
proof (cases cur)
  case None
  with assms show ?thesis by (cases fuel) (simp_all add: yields_def)
next
  case (Some p)
  obtain bc n where cur: "cur = Some (bc, n)" using Some by (cases p) auto
  with assms obtain c cs where h: "cluster_handle bs c bc" "chain_at bs (view S bv) c (c # cs)" "n \<le> epc bs"
    "rest = dir_rest bs (view S bv) n (c # cs)" by auto
  have ok: "cache_ok S (held (bc_last bc) + H) bv" using assms(1) cur by simp
  obtain k where k: "fuel = Suc (Suc k)" using assms(3) by (metis add_2_eq_Suc le_Suc_ex)
  show ?thesis
  proof (cases "n < epc bs")
    case True
    from dir_entries_next_here [OF ok h(1) True h(2), of "Suc k"] show ?thesis by (simp only: cur k h(4))
  next
    case False
    then have n: "n = epc bs" "\<not> n < dir_entries_count bc" "bc_cluster bc = c"
      using h by (simp_all add: dir_entries_count_eq [OF h(1)] cluster_handle_def)
    have av: "available bs c" using h(2) by (simp add: chain_at_def)
    obtain bv1 where 1: "with_fat (fat_read V bs c) bv = (Ok (fat_of bs (view S bv) c), bv1)"
      "cache_ok S (held (bc_last bc) + H) bv1" "view S bv1 = view S bv" by (rule with_fat_read_ok [OF ok av])
    show ?thesis
    proof (cases cs)
      case Nil
      with h(2) have "chain (fat_of bs (view S bv) c) = None" by (simp add: chain_at_end)
      with Nil 1 n h(4) drop_cluster_ok [OF 1(2)] show ?thesis
        by (simp add: cur k yields_def dir_rest_next)
    next
      case (Cons d ds)
      with h(2) have d: "chain_at bs (view S bv) d (d # ds)" "chain (fat_of bs (view S bv) c) = Some d"
        using chain_at_tl [of bs "view S bv" c d ds] by auto
      then have "available bs d" by (simp add: chain_at_def)
      then obtain bc2 where bc2: "root_cluster bs d = Ok bc2" "cluster_handle bs d bc2" "bc_last bc2 = None"
        by (rule root_cluster_ok)
      have "cache_ok S (held (bc_last bc2) + (held (bc_last bc) + H)) bv1" using 1(2) bc2(3) by simp
      from dir_entries_next_here [OF this bc2(2) epc_pos, of ds k] d(1) 1(3) obtain cur' bv' where
        nx: "dir_entries_next (Suc k) V bs (Some (bc2, 0), bv1)
          = (Ok (case dir_rest bs (view S bv) 0 (d # ds) of [] \<Rightarrow> None | x # _ \<Rightarrow> Some x), (cur', bv'))"
        "cache_ok S (held_cursor cur' + (held (bc_last bc) + H)) bv'" "view S bv' = view S bv"
        "cursor_at bs (view S bv) cur' (tl (dir_rest bs (view S bv) 0 (d # ds)))"
        unfolding yields_def by auto
      have "cache_ok S (held (bc_last bc) + (held_cursor cur' + H)) bv'" using nx(2) by (simp add: ac_simps)
      from drop_cluster_ok [OF this] nx show ?thesis
        using n 1 d bc2 h(4) Cons by (simp add: cur k yields_def dir_rest_next)
    qed
  qed
qed

end

section \<open>Properties\<close>

text \<open>A disk whose root directory is the chain of the clusters 2 and 3; the first cluster holds the bytes given.\<close>

definition dir_disk :: "bytes \<Rightarrow> bytes list" where
  "dir_disk sec = chain_disk[33 := sec]"

abbreviation dir_volume :: "bytes \<Rightarrow> bytes list buffered_volume" where
  "dir_volume sec \<equiv> new_buffered_volume (dir_disk sec)"

abbreviation ram_view :: "bytes list buffered_volume \<Rightarrow> nat \<Rightarrow> bytes" where
  "ram_view \<equiv> view (ram_spec 64 512)"

lemma dir_disk_ok: "length sec = 512 \<Longrightarrow> disk_ok (dir_disk sec)"
  unfolding dir_disk_def by (rule disk_ok_update [OF sample_disks(2)])

lemma dir_disk_chain:
  assumes "length sec = 512"
  shows "chain_at sample_bs (ram_view (dir_volume sec)) 2 [2, 3]"
proof -
  have "dir_disk sec ! 32 = chain_disk ! 32" by (simp add: dir_disk_def)
  then have "fat_of sample_bs (ram_view (dir_volume sec)) c = fat_of sample_bs (ram_view (new_buffered_volume chain_disk)) c"
    if "available sample_bs c" for c
    using sample_fat [OF that dir_disk_ok [OF assms]] sample_fat [OF that sample_disks(2)] by simp
  moreover have "available sample_bs 2" "available sample_bs 3" by (simp_all add: sample_available)
  ultimately show ?thesis using sample_chain by (auto simp: chain_at_def)
qed

lemma dir_disk_data:
  assumes "length sec = 512"
  shows "cluster_data sample_bs (ram_view (dir_volume sec)) 2 = sec"
    and "cluster_data sample_bs (ram_view (dir_volume sec)) 3 = replicate 512 0"
proof -
  have "cluster_sector sample_bs 2 = 33" "cluster_sector sample_bs 3 = 34" "cluster_size sample_bs = 1"
    by (simp_all add: cluster_sector_def data_start_def fat_area_start_def cluster_size_def sample_bs_def sample_boot_sector_fields)
  moreover have "length chain_disk = 64" using sample_disks(2) by (simp add: disk_ok_def)
  then have "dir_disk sec ! 33 = sec" by (simp add: dir_disk_def)
  moreover have "dir_disk sec ! 34 = replicate 512 0"
  proof -
    have "dir_disk sec ! 34 = blank_disk ! 34" by (simp add: dir_disk_def chain_disk_def)
    also have "\<dots> = replicate 512 0" unfolding blank_disk_def by (rule nth_replicate) simp
    finally show ?thesis .
  qed
  ultimately show "cluster_data sample_bs (ram_view (dir_volume sec)) 2 = sec"
    "cluster_data sample_bs (ram_view (dir_volume sec)) 3 = replicate 512 0"
    by (simp_all add: cluster_data_def sample_cache_ok(2) [OF dir_disk_ok [OF assms]])
qed

lemma dir_disk_cursor:
  assumes "length sec = 512"
  obtains bc where "root_cluster sample_bs 2 = Ok bc" and "bc_last bc = None" and "cluster_handle sample_bs 2 bc"
    and "cursor_at sample_bs (ram_view (dir_volume sec)) (Some (bc, 0))
      (dir_rest sample_bs (ram_view (dir_volume sec)) 0 [2, 3])"
proof -
  have "available sample_bs 2" by (simp add: sample_available)
  then obtain bc where "root_cluster sample_bs 2 = Ok bc" "cluster_handle sample_bs 2 bc" "bc_last bc = None"
    by (rule fat_volume.root_cluster_ok [OF sample_fat_volume])
  with that dir_disk_chain [OF assms] show ?thesis by auto
qed

text \<open>
  C35: listing a directory does not end at a long-name part that has lost its beginning. When the entries
  ahead in the directory start with a part that is not marked as the first one stored of its sequence
  (for example since another system removed or overwrote the entry before it), then
  \<open>DirIter::next\<close> reads the same entry again and again: it returns for no amount of fuel.
\<close>

theorem orphan_lfn_hangs:
  assumes "fat_volume V S bs" and "cache_ok S (held_cursor cur + H) bv"
    and "cursor_at bs (view S bv) cur ((c, n, Lfn e) # rest)" and "\<not> is_last_entry e"
  shows "fst (dir_iter_next k V bs dir (cur, bv)) = Hang"
proof (cases k)
  case (Suc j)
  obtain st' where st': "dir_entries_next 2 V bs (cur, bv) = (Ok (Some (c, n, Lfn e)), st')"
    using fat_volume.dir_entries_next_ok [OF assms(1-3), of 2] by (auto simp: yields_def)
  from dir_entries_next_fuel [OF this, of j] show ?thesis
  proof
    assume hang: "fst (dir_entries_next j V bs (cur, bv)) = Hang"
    then show ?thesis by (cases "dir_entries_next j V bs (cur, bv)") (simp add: Suc)
  next
    assume "dir_entries_next j V bs (cur, bv) = (Ok (Some (c, n, Lfn e)), st')"
    then show ?thesis by (simp add: Suc orphan_loop [OF assms(4)])
  qed
qed simp

theorem orphan_lfn_hangs_witness:
  "\<exists>sec cur. dir_entries sample_bs 2 = Ok cur
    \<and> fst (dir_iter_next 1000 (ram_ops 512) sample_bs 2 (cur, dir_volume sec)) = Hang"
proof -
  let ?e = "\<lparr>lfn_ord = 1, name1 = replicate 10 65, lfn_attr = 0x0f, lfn_ty = 0, lfn_chksum = 7,
    name2 = replicate 12 65, lfn_fst_clus_lo = 0, name3 = replicate 4 65\<rparr>"
  let ?sec = "dir_entry_into (Lfn ?e) @ replicate 480 0"
  have wf: "dir_entry_wf (Lfn ?e)" and last: "\<not> is_last_entry ?e"
    by (simp_all add: is_lfn_attr_def is_last_entry_def has_flag_def)
  have len: "length ?sec = 512" using length_dir_entry_into [OF wf] by simp
  obtain bc where bc: "root_cluster sample_bs 2 = Ok bc" "bc_last bc = None"
    "cursor_at sample_bs (ram_view (dir_volume ?sec)) (Some (bc, 0))
      (dir_rest sample_bs (ram_view (dir_volume ?sec)) 0 [2, 3])"
    by (rule dir_disk_cursor [OF len])
  have "array 32 0 ?sec = dir_entry_into (Lfn ?e)" using length_dir_entry_into [OF wf] by (simp add: array_def)
  then have "entry_at sample_bs (ram_view (dir_volume ?sec)) (2, 0) = Lfn ?e"
    using dir_entry_from_into [OF wf] by (simp only: entry_at_def fst_conv snd_conv mult_0 dir_disk_data(1) [OF len] the_entry_def) simp
  moreover have "0 < epc sample_bs" by (simp add: epc_def sample_clusters)
  ultimately obtain rest where "dir_rest sample_bs (ram_view (dir_volume ?sec)) 0 [2, 3] = (2, 0, Lfn ?e) # rest"
    by (simp add: dir_rest_Cons)
  moreover have "cache_ok (ram_spec 64 512) (held_cursor (Some (bc, 0)) + {#}) (dir_volume ?sec)"
    using sample_cache_ok(1) [OF dir_disk_ok [OF len]] bc(2) by simp
  ultimately have "fst (dir_iter_next 1000 (ram_ops 512) sample_bs 2 (Some (bc, 0), dir_volume ?sec)) = Hang"
    using orphan_lfn_hangs [OF sample_fat_volume _ _ last] bc(3) by (metis (no_types, lifting))
  then show ?thesis using bc(1) by (auto simp: dir_entries_def)
qed

end
