(* ===== verification/Fat_File.thy ===== *)
theory Fat_File
  imports Fat_Directory
begin

text \<open>
  Files, \<open>fs/fat.rs\<close> (\<open>File\<close>, \<open>FileReader\<close>, \<open>FileWriter\<close>, \<open>FileSystem\<close>). A file is a value that
  carries a copy of its last directory entry; operations that change the entry write it back. Readers
  and writers walk the chain of the file with a cursor, the current cluster and an offset in it.
\<close>

section \<open>FileSystem\<close>

definition file_system_new :: "'v volume_ops \<Rightarrow> 'v \<Rightarrow> (fs_error, 'v fat_root) outcome" where
  "file_system_new V v = new_root V v"

definition file_system_commit ::
    "'v volume_ops \<Rightarrow> 'v buffered_volume \<Rightarrow> (fs_error, unit) outcome \<times> 'v buffered_volume" where
  "file_system_commit V bv = root_commit V bv"

definition root_dir :: "boot_sector \<Rightarrow> nat" where
  "root_dir bs = root_dir_cluster bs"

section \<open>File\<close>

type_synonym 'v file_state = "fat_file \<times> 'v buffered_volume"

text \<open>An operation on the volume while a file is at hand.\<close>

definition on_volume ::
    "('v buffered_volume \<Rightarrow> (fs_error, 'a) outcome \<times> 'v buffered_volume) \<Rightarrow> 's \<times> 'v buffered_volume
      \<Rightarrow> (fs_error, 'a) outcome \<times> ('s \<times> 'v buffered_volume)" where
  "on_volume f st = (case f (snd st) of (res, bv) \<Rightarrow> (res, (fst st, bv)))"

definition write_back :: "'v volume_ops \<Rightarrow> boot_sector \<Rightarrow> 'v file_state \<Rightarrow> (fs_error, unit) outcome \<times> 'v file_state" where
  "write_back V bs st =
     (let f = (fst st)\<lparr>last_sfn := mark_archive (last_sfn (fst st))\<rparr>; (c, n) = last_location f
      in on_volume (with_cluster bs c (write_dir_entry V n (Sfn (last_sfn f)))) (f, snd st))"

definition file_parent :: "fat_file \<Rightarrow> nat" where
  "file_parent f = file_dir f"

definition file_is_read_only :: "fat_file \<Rightarrow> bool" where
  "file_is_read_only f = is_read_only (last_sfn f)"

definition file_is_hidden :: "fat_file \<Rightarrow> bool" where
  "file_is_hidden f = is_hidden (last_sfn f)"

definition file_is_system :: "fat_file \<Rightarrow> bool" where
  "file_is_system f = is_system (last_sfn f)"

definition file_archive :: "fat_file \<Rightarrow> bool" where
  "file_archive f = archive (last_sfn f)"

definition is_dir :: "fat_file \<Rightarrow> bool" where
  "is_dir f = is_directory (last_sfn f)"

definition as_dir :: "fat_file \<Rightarrow> nat option" where
  "as_dir f = (if is_dir f then sfn_cluster (last_sfn f) else None)"

definition file_file_size :: "fat_file \<Rightarrow> nat" where
  "file_file_size f = file_size (last_sfn f)"

definition file_set_file_size ::
    "'v volume_ops \<Rightarrow> boot_sector \<Rightarrow> nat \<Rightarrow> 'v file_state \<Rightarrow> (fs_error, unit) outcome \<times> 'v file_state" where
  "file_set_file_size V bs n st =
     try_st (set_file_size n (last_sfn (fst st)), st) (\<lambda>e st.
       write_back V bs ((fst st)\<lparr>last_sfn := e\<rparr>, snd st))"

definition file_cluster :: "boot_sector \<Rightarrow> fat_file \<Rightarrow> (fs_error, buffered_cluster option) outcome" where
  "file_cluster bs f =
     (case sfn_cluster (last_sfn f) of
        None \<Rightarrow> Ok None
      | Some c \<Rightarrow> try_then (root_cluster bs c) (\<lambda>bc. Ok (Some bc)))"

definition prepare_cluster ::
    "'v volume_ops \<Rightarrow> boot_sector \<Rightarrow> 'v file_state \<Rightarrow> (fs_error, buffered_cluster) outcome \<times> 'v file_state" where
  "prepare_cluster V bs st =
     (case sfn_cluster (last_sfn (fst st)) of
        Some c \<Rightarrow> (root_cluster bs c, st)
      | None \<Rightarrow>
          try_st (on_volume (with_fat (fat_allocate V bs)) st) (\<lambda>c st.
          try_st (write_back V bs ((fst st)\<lparr>last_sfn := set_cluster (Some c) (last_sfn (fst st))\<rparr>, snd st))
            (\<lambda>_ st. (root_cluster bs c, st))))"

definition release_cluster ::
    "nat \<Rightarrow> 'v volume_ops \<Rightarrow> boot_sector \<Rightarrow> 'v file_state \<Rightarrow> (fs_error, unit) outcome \<times> 'v file_state" where
  "release_cluster fuel V bs st =
     (case sfn_cluster (last_sfn (fst st)) of
        None \<Rightarrow> (Ok (), st)
      | Some c \<Rightarrow>
          try_st (write_back V bs ((fst st)\<lparr>last_sfn := set_cluster None (last_sfn (fst st))\<rparr>, snd st)) (\<lambda>_ st.
            on_volume (with_fat (fat_release fuel V bs (Some c))) st))"

section \<open>FileReader\<close>

record file_reader =
  rest_size :: nat
  reader_cursor :: cursor

definition reader :: "boot_sector \<Rightarrow> fat_file \<Rightarrow> (fs_error, file_reader option) outcome" where
  "reader bs f =
     (if is_dir f then Ok None
      else try_then (file_cluster bs f) (\<lambda>c.
        Ok (Some \<lparr>rest_size = file_file_size f, reader_cursor = map_option (\<lambda>bc. (bc, 0)) c\<rparr>)))"

type_synonym 'v reader_state = "file_reader \<times> 'v buffered_volume"

fun drop_reader :: "'v reader_state \<Rightarrow> 'v buffered_volume" where
  "drop_reader (r, bv) = drop_cursor (reader_cursor r, bv)"

text \<open>
  The loop of \<open>read\<close> for a buffer of \<open>len\<close> bytes, as the bytes it puts into it. The cursor is taken
  before the cluster is read, so that an error leaves none.
\<close>

fun file_read ::
    "nat \<Rightarrow> 'v volume_ops \<Rightarrow> boot_sector \<Rightarrow> nat \<Rightarrow> 'v reader_state \<Rightarrow> (fs_error, bytes) outcome \<times> 'v reader_state" where
  "file_read 0 V bs len st = (Hang, st)"
| "file_read (Suc fuel) V bs len (r, bv) =
     (if len = 0 \<or> rest_size r = 0 then (Ok [], (r, bv))
      else case reader_cursor r of
        None \<Rightarrow> (Ok [], (r, bv))
      | Some (c, offset) \<Rightarrow>
          if bc_size c < offset then (Panic, (r, bv))
          else
            let l = min (min len (rest_size r)) (bc_size c - offset); r = r\<lparr>reader_cursor := None\<rparr> in
            (case cluster_read V offset (replicate l 0) (c, bv) of
               (Ok bytes, (c', bv')) \<Rightarrow>
                 let r = r\<lparr>rest_size := rest_size r - l\<rparr> in
                 try_st
                   (if l = bc_size c - offset
                    then (case chained_get V bs (bc_cluster c) bv' of
                            (Ok next_c, bv'') \<Rightarrow>
                              (Ok (), (r\<lparr>reader_cursor := map_option (\<lambda>bc. (bc, 0)) next_c\<rparr>, drop_cluster (c', bv'')))
                          | (Err e, bv'') \<Rightarrow> (Err e, (r, drop_cluster (c', bv'')))
                          | (Panic, bv'') \<Rightarrow> (Panic, (r, bv''))
                          | (Hang, bv'') \<Rightarrow> (Hang, (r, bv'')))
                    else (Ok (), (r\<lparr>reader_cursor := Some (c', offset + l)\<rparr>, bv')))
                   (\<lambda>_ st. try_st (file_read fuel V bs (len - l) st) (\<lambda>rest st. (Ok (bytes @ rest), st)))
             | (Err e, st) \<Rightarrow> (Err e, (r, drop_cluster st))
             | (Panic, (c', bv')) \<Rightarrow> (Panic, (r, bv'))
             | (Hang, (c', bv')) \<Rightarrow> (Hang, (r, bv'))))"

text \<open>\<open>read_to_end\<close>: rounds of 4096 bytes until one reads nothing; the reader is consumed.\<close>

fun read_rounds ::
    "nat \<Rightarrow> 'v volume_ops \<Rightarrow> boot_sector \<Rightarrow> 'v reader_state \<Rightarrow> (fs_error, bytes) outcome \<times> 'v reader_state" where
  "read_rounds 0 V bs st = (Hang, st)"
| "read_rounds (Suc fuel) V bs st =
     try_st (file_read fuel V bs 4096 st) (\<lambda>bytes st.
       if bytes = [] then (Ok [], st)
       else try_st (read_rounds fuel V bs st) (\<lambda>rest st. (Ok (bytes @ rest), st)))"

definition read_to_end ::
    "nat \<Rightarrow> 'v volume_ops \<Rightarrow> boot_sector \<Rightarrow> 'v reader_state \<Rightarrow> (fs_error, bytes) outcome \<times> 'v buffered_volume" where
  "read_to_end fuel V bs st = (case read_rounds fuel V bs st of (res, st') \<Rightarrow> (res, drop_reader st'))"

section \<open>FileWriter\<close>

record file_writer =
  writer_file :: fat_file
  total_size :: nat
  writer_cursor :: cursor

type_synonym 'v writer_state = "file_writer \<times> 'v buffered_volume"

definition overwriter :: "fat_file \<Rightarrow> file_writer option" where
  "overwriter f = (if is_dir f then None else Some \<lparr>writer_file = f, total_size = 0, writer_cursor = None\<rparr>)"

text \<open>The loop of \<open>appender\<close>, from a cluster and the size that is left to the end of the chain.\<close>

fun append_cursor ::
    "nat \<Rightarrow> 'v volume_ops \<Rightarrow> boot_sector \<Rightarrow> buffered_cluster \<Rightarrow> nat \<Rightarrow> nat \<Rightarrow> 'v buffered_volume
      \<Rightarrow> (fs_error, nat \<times> (buffered_cluster \<times> nat)) outcome \<times> 'v buffered_volume" where
  "append_cursor 0 V bs c rest total_len bv = (Hang, bv)"
| "append_cursor (Suc fuel) V bs c rest total_len bv =
     (if bc_size c < rest then
        (case chained_get V bs (bc_cluster c) bv of
           (Ok (Some next_c), bv') \<Rightarrow>
             append_cursor fuel V bs next_c (rest - bc_size c) (total_len + bc_size c) (drop_cluster (c, bv'))
         | (Panic, bv') \<Rightarrow> (Panic, bv')
         | (Hang, bv') \<Rightarrow> (Hang, bv')
         | (_, bv') \<Rightarrow> append_cursor fuel V bs c (bc_size c) total_len bv')
      else (Ok (total_len + rest, (c, rest)), bv))"

definition appender ::
    "nat \<Rightarrow> 'v volume_ops \<Rightarrow> boot_sector \<Rightarrow> fat_file \<Rightarrow> 'v buffered_volume
      \<Rightarrow> (fs_error, file_writer option) outcome \<times> 'v buffered_volume" where
  "appender fuel V bs f bv =
     (if is_dir f then (Ok None, bv)
      else try_st (file_cluster bs f, bv) (\<lambda>c bv.
        case c of
          None \<Rightarrow> (Ok (Some \<lparr>writer_file = f, total_size = 0, writer_cursor = None\<rparr>), bv)
        | Some c \<Rightarrow>
            try_st (append_cursor fuel V bs c (file_file_size f) 0 bv) (\<lambda>(total_len, cur) bv.
              (Ok (Some \<lparr>writer_file = f, total_size = total_len, writer_cursor = Some cur\<rparr>), bv))))"

text \<open>The cluster the next bytes go to, and the offset in it; the cursor is taken out of the writer.\<close>

definition writer_target ::
    "'v volume_ops \<Rightarrow> boot_sector \<Rightarrow> 'v writer_state \<Rightarrow> (fs_error, buffered_cluster \<times> nat) outcome \<times> 'v writer_state" where
  "writer_target V bs st =
     (let (w, bv) = st; w' = w\<lparr>writer_cursor := None\<rparr> in
      case writer_cursor w of
        Some (c, offset) \<Rightarrow>
          if offset < bc_size c then (Ok (c, offset), (w', bv))
          else (case chained_prepare V bs (bc_cluster c) bv of
                  (res, bv') \<Rightarrow> (try_then res (\<lambda>c'. Ok (c', 0)), (w', drop_cluster (c, bv'))))
      | None \<Rightarrow>
          (case prepare_cluster V bs (writer_file w, bv) of
             (res, (f, bv')) \<Rightarrow> (try_then res (\<lambda>c. Ok (c, 0)), (w'\<lparr>writer_file := f\<rparr>, bv'))))"

fun file_write ::
    "nat \<Rightarrow> 'v volume_ops \<Rightarrow> boot_sector \<Rightarrow> bytes \<Rightarrow> 'v writer_state \<Rightarrow> (fs_error, unit) outcome \<times> 'v writer_state" where
  "file_write 0 V bs buf st = (Hang, st)"
| "file_write (Suc fuel) V bs buf st =
     (if buf = [] then (Ok (), st)
      else try_st (writer_target V bs st) (\<lambda>(c, offset) (w, bv).
        let l = min (length buf) (bc_size c - offset) in
        case cluster_write V offset (take l buf) (c, bv) of
          (Ok _, (c', bv')) \<Rightarrow>
            file_write fuel V bs (drop l buf)
              (w\<lparr>total_size := total_size w + l, writer_cursor := Some (c', offset + l)\<rparr>, bv')
        | (Err e, st) \<Rightarrow> (Err e, (w, drop_cluster st))
        | (Panic, (c', bv')) \<Rightarrow> (Panic, (w, bv'))
        | (Hang, (c', bv')) \<Rightarrow> (Hang, (w, bv'))))"

text \<open>\<open>let _ =\<close> ignores an error, but a panic is one.\<close>

fun ignore_err :: "(fs_error, 'a) outcome \<times> 's \<Rightarrow> (fs_error, unit) outcome \<times> 's" where
  "ignore_err (Ok x, s) = (Ok (), s)"
| "ignore_err (Err e, s) = (Ok (), s)"
| "ignore_err (Panic, s) = (Panic, s)"
| "ignore_err (Hang, s) = (Hang, s)"

text \<open>\<open>drop\<close>, with the drop of the cursor after it; the file remains.\<close>

definition drop_writer ::
    "nat \<Rightarrow> 'v volume_ops \<Rightarrow> boot_sector \<Rightarrow> 'v writer_state \<Rightarrow> (fs_error, unit) outcome \<times> 'v file_state" where
  "drop_writer fuel V bs st =
     (let (w, bv) = st; f = writer_file w in
      try_st
        (ignore_err
           (case writer_cursor w of
              Some (c, _) \<Rightarrow> on_volume (chained_release fuel V bs (bc_cluster c)) (f, bv)
            | None \<Rightarrow> release_cluster fuel V bs (f, bv)))
        (\<lambda>_ st.
           case ignore_err (file_set_file_size V bs (total_size w) st) of
             (res, (f, bv)) \<Rightarrow> (res, (f, drop_cursor (writer_cursor w, bv)))))"

section \<open>The directory entries of a file\<close>

text \<open>\<open>dir_entry_locations\<close>: the iterator keeps the next cluster; its items are a cluster and a range of offsets.\<close>

definition locations_next ::
    "'v volume_ops \<Rightarrow> boot_sector \<Rightarrow> fat_file \<Rightarrow> buffered_cluster option \<times> 'v buffered_volume
      \<Rightarrow> (fs_error, (buffered_cluster \<times> nat \<times> nat) option) outcome \<times> (buffered_cluster option \<times> 'v buffered_volume)" where
  "locations_next V bs f st =
     (let (start_c, start_offset) = entry_location f; (end_c, end_offset) = last_location f; (next_c, bv) = st in
      case next_c of
        None \<Rightarrow> (Ok None, (None, bv))
      | Some c \<Rightarrow>
          let i = (if bc_cluster c = start_c then start_offset else 0) in
          if bc_cluster c = end_c then (Ok (Some (c, i, end_offset)), (None, bv))
          else if dir_entries_count c = 0 then (Panic, (None, bv))
          else let item = Some (c, i, dir_entries_count c - 1) in
            (case chained_get V bs (bc_cluster c) bv of
               (Ok c', bv') \<Rightarrow> (Ok item, (c', bv'))
             | (Err _, bv') \<Rightarrow> (Ok item, (None, bv'))
             | (Panic, bv') \<Rightarrow> (Panic, (None, bv'))
             | (Hang, bv') \<Rightarrow> (Hang, (None, bv'))))"

fun mark_unused :: "'v volume_ops \<Rightarrow> nat list \<Rightarrow> 'v cluster_state \<Rightarrow> (fs_error, unit) outcome \<times> 'v cluster_state" where
  "mark_unused V [] st = (Ok (), st)"
| "mark_unused V (offset # os) st =
     try_st (write_dir_entry V offset DirUnused st) (\<lambda>_ st. mark_unused V os st)"

fun read_entries :: "'v volume_ops \<Rightarrow> nat list \<Rightarrow> 'v cluster_state \<Rightarrow> (fs_error, dir_entry list) outcome \<times> 'v cluster_state" where
  "read_entries V [] st = (Ok [], st)"
| "read_entries V (offset # os) st =
     try_st (read_dir_entry V offset st) (\<lambda>e st.
     try_st (read_entries V os st) (\<lambda>es st. (Ok (e # es), st)))"

text \<open>The loops over the locations: the item's cluster is dropped at the end of each round.\<close>

fun for_locations ::
    "nat \<Rightarrow> 'v volume_ops \<Rightarrow> boot_sector \<Rightarrow> fat_file
      \<Rightarrow> (nat list \<Rightarrow> 'v cluster_state \<Rightarrow> (fs_error, 'a list) outcome \<times> 'v cluster_state)
      \<Rightarrow> buffered_cluster option \<times> 'v buffered_volume
      \<Rightarrow> (fs_error, 'a list) outcome \<times> (buffered_cluster option \<times> 'v buffered_volume)" where
  "for_locations 0 V bs f body st = (Hang, st)"
| "for_locations (Suc fuel) V bs f body st =
     try_st (locations_next V bs f st) (\<lambda>item (next_c, bv).
       case item of
         None \<Rightarrow> (Ok [], (next_c, bv))
       | Some (c, i, j) \<Rightarrow>
           try_st (case body [i..<j + 1] (c, bv) of (res, st) \<Rightarrow> (res, (next_c, drop_cluster st))) (\<lambda>xs st.
           try_st (for_locations fuel V bs f body st) (\<lambda>ys st. (Ok (xs @ ys), st))))"

definition dir_entry_locations ::
    "nat \<Rightarrow> 'v volume_ops \<Rightarrow> boot_sector \<Rightarrow> fat_file
      \<Rightarrow> (nat list \<Rightarrow> 'v cluster_state \<Rightarrow> (fs_error, 'a list) outcome \<times> 'v cluster_state)
      \<Rightarrow> 'v buffered_volume \<Rightarrow> (fs_error, 'a list) outcome \<times> 'v buffered_volume" where
  "dir_entry_locations fuel V bs f body bv =
     try_st (root_cluster bs (fst (entry_location f)), bv) (\<lambda>c bv.
       case for_locations fuel V bs f body (Some c, bv) of (res, (_, bv')) \<Rightarrow> (res, bv'))"

definition clear_entries ::
    "nat \<Rightarrow> 'v volume_ops \<Rightarrow> boot_sector \<Rightarrow> fat_file \<Rightarrow> 'v buffered_volume \<Rightarrow> (fs_error, unit) outcome \<times> 'v buffered_volume" where
  "clear_entries fuel V bs f bv =
     try_st (dir_entry_locations fuel V bs f (\<lambda>os st. try_st (mark_unused V os st) (\<lambda>_ st. (Ok ([] :: unit list), st))) bv)
       (\<lambda>_ bv. (Ok (), bv))"

text \<open>\<open>remove\<close>, and its loop over the files of a directory.\<close>

fun file_remove ::
    "nat \<Rightarrow> 'v volume_ops \<Rightarrow> boot_sector \<Rightarrow> bool \<Rightarrow> fat_file \<Rightarrow> 'v buffered_volume
      \<Rightarrow> (fs_error, unit) outcome \<times> 'v buffered_volume"
  and remove_files ::
    "nat \<Rightarrow> 'v volume_ops \<Rightarrow> boot_sector \<Rightarrow> bool \<Rightarrow> nat \<Rightarrow> cursor \<times> 'v buffered_volume
      \<Rightarrow> (fs_error, unit) outcome \<times> (cursor \<times> 'v buffered_volume)" where
  "file_remove 0 V bs recursive f bv = (Hang, bv)"
| "file_remove (Suc fuel) V bs recursive f bv =
     try_st
       (case as_dir f of
          None \<Rightarrow> (Ok (), bv)
        | Some dir \<Rightarrow>
            try_st (dir_entries bs dir, bv) (\<lambda>cur bv.
              case remove_files fuel V bs recursive dir (cur, bv) of (res, st) \<Rightarrow> (res, drop_cursor st)))
       (\<lambda>_ bv.
     try_st (case release_cluster fuel V bs (f, bv) of (res, (f', bv')) \<Rightarrow> (res, bv')) (\<lambda>_ bv.
       clear_entries fuel V bs f bv))"
| "remove_files 0 V bs recursive dir st = (Hang, st)"
| "remove_files (Suc fuel) V bs recursive dir st =
     try_st (dir_iter_next fuel V bs dir st) (\<lambda>next st.
       case next of
         None \<Rightarrow> (Ok (), st)
       | Some f \<Rightarrow>
           if recursive
           then try_st (on_volume (file_remove fuel V bs True f) st) (\<lambda>_ st. remove_files fuel V bs recursive dir st)
           else (Err DirectoryNotEmpty, st))"

text \<open>
  \<open>mv\<close>: with a new name the entries are made anew around the old short entry; without one they are
  copied, and moving a file to its own directory does nothing.
\<close>

definition move_plan ::
    "nat \<Rightarrow> 'v volume_ops \<Rightarrow> boot_sector \<Rightarrow> fat_file \<Rightarrow> nat option \<Rightarrow> rstring option \<Rightarrow> 'v buffered_volume
      \<Rightarrow> (fs_error, (rstring \<times> nat \<times> dir_entry list) option) outcome \<times> 'v buffered_volume" where
  "move_plan fuel V bs f dir name bv =
     (if name \<noteq> None \<and> name \<noteq> Some (file_name f) then
        (let new_name = the name; d = (case dir of Some d \<Rightarrow> d | None \<Rightarrow> file_parent f) in
         try_st (lfn_sequence new_name (last_sfn f), bv) (\<lambda>entries bv.
           case entries of
             None \<Rightarrow> (Err InvalidFileName, bv)
           | Some es \<Rightarrow> (Ok (Some (new_name, d, es)), bv)))
      else if dir = None \<or> dir = Some (file_dir f) then (Ok None, bv)
      else
        try_st (dir_entry_locations fuel V bs f (read_entries V) bv) (\<lambda>es bv.
          (Ok (Some (file_name f, the dir, es)), bv)))"

definition mv ::
    "nat \<Rightarrow> 'v volume_ops \<Rightarrow> boot_sector \<Rightarrow> fat_file \<Rightarrow> nat option \<Rightarrow> rstring option \<Rightarrow> 'v buffered_volume
      \<Rightarrow> (fs_error, unit) outcome \<times> 'v buffered_volume" where
  "mv fuel V bs f dir name bv =
     try_st (move_plan fuel V bs f dir name bv) (\<lambda>plan bv.
       case plan of
         None \<Rightarrow> (Ok (), bv)
       | Some (new_name, d, entries) \<Rightarrow>
           try_st (check_name_conflict fuel V bs d new_name bv) (\<lambda>_ bv.
           try_st (clear_entries fuel V bs f bv) (\<lambda>_ bv.
             insert_dir_entries fuel V bs d entries bv)))"

end
