(* ===== verification/File_Data.thy ===== *)
theory File_Data
  imports Fat_File
begin

text \<open>
  What readers and writers of files do to the data: the bytes of a file are those of the clusters of its chain,
  in order. \<open>FileReader\<close> yields them up to the size of the file; \<open>FileWriter\<close> puts the new bytes where its cursor
  is, and makes the chain longer where it ends.
\<close>

section \<open>The bytes of a chain\<close>

definition file_data :: "boot_sector \<Rightarrow> (nat \<Rightarrow> bytes) \<Rightarrow> nat list \<Rightarrow> bytes" where
  "file_data bs w cs = concat (map (cluster_data bs w) cs)"

lemma file_data_simps [simp]:
  "file_data bs w [] = []" "file_data bs w (c # cs) = cluster_data bs w c @ file_data bs w cs"
  "file_data bs w (cs @ ds) = file_data bs w cs @ file_data bs w ds"
  by (simp_all add: file_data_def)

lemma take_copy_from_array: "p + length ys \<le> length xs \<Longrightarrow> take (p + length ys) (copy_from_array p ys xs) = take p xs @ ys"
  by (simp add: copy_from_array_def)

text \<open>A cursor of a reader, with the bytes that are ahead of it.\<close>

definition reader_at :: "boot_sector \<Rightarrow> (nat \<Rightarrow> bytes) \<Rightarrow> cursor \<Rightarrow> bytes \<Rightarrow> bool" where
  "reader_at bs w cur D \<longleftrightarrow>
     (case cur of
        None \<Rightarrow> D = []
      | Some (bc, off) \<Rightarrow> \<exists>c cs. cluster_handle bs c bc \<and> chain_at bs w c (c # cs) \<and> off < cluster_bytes bs
          \<and> D = drop off (file_data bs w (c # cs)))"

lemma bc_size_eq: "cluster_handle bs c bc \<Longrightarrow> bc_size bc = cluster_bytes bs"
  by (simp add: cluster_handle_def bc_size_def mult.commute)

context fat_volume
begin

lemma cluster_bytes_pos: "0 < cluster_bytes bs"
  using geometry boot_sector_wf_sizes [of bs] by (simp add: geometry_ok_def)

lemma reader_step:
  assumes ok: "cache_ok S (held (bc_last bc) + H) bv" and bc: "cluster_handle bs c bc"
    and ch: "chain_at bs (view S bv) c (c # cs)" and off: "off + l \<le> cluster_bytes bs"
  obtains bc' bv' where "cluster_read V off (replicate l 0) (bc, bv)
      = (Ok (take l (drop off (file_data bs (view S bv) (c # cs)))), (bc', bv'))"
    and "cache_ok S (held (bc_last bc') + H) bv'" and "cluster_handle bs c bc'" and "view S bv' = view S bv"
proof -
  have len: "length (cluster_data bs (view S bv) c) = cluster_bytes bs"
    using length_cluster_data [OF geometry _ view_sectors_ok [OF ok]] bc by (simp add: cluster_handle_def)
  have "off + length (replicate l (0 :: u8)) \<le> cluster_bytes bs" using off by simp
  from cluster_read_ok [OF ok bc this] that show ?thesis
    using len off by (auto simp: array_def)
qed

lemma reader_next:
  assumes ok: "cache_ok S (held (bc_last bc) + H) bv" and bc: "cluster_handle bs c bc"
    and ch: "chain_at bs (view S bv) c (c # cs)"
  obtains nxt bv' where "chained_get V bs c bv = (Ok nxt, bv')"
    and "cache_ok S (held_cursor (map_option (\<lambda>b. (b, 0)) nxt) + H) (drop_cluster (bc, bv'))"
    and "view S (drop_cluster (bc, bv')) = view S bv"
    and "reader_at bs (view S bv) (map_option (\<lambda>b. (b, 0)) nxt) (file_data bs (view S bv) cs)"
proof (cases cs)
  case Nil
  have "available bs c" "chain (fat_of bs (view S bv) c) = None"
    using chain_at_end ch bc Nil by (simp_all add: cluster_handle_def)
  from chained_get_end [OF ok this] obtain bv' where
    "chained_get V bs c bv = (Ok None, bv')" "cache_ok S (held (bc_last bc) + H) bv'" "view S bv' = view S bv" by blast
  then show ?thesis using that [of None bv'] drop_cluster_ok Nil by (simp add: reader_at_def)
next
  case (Cons d ds)
  have d: "chain_at bs (view S bv) d (d # ds)" "fat_of bs (view S bv) c = UsedChained d"
    using chain_at_tl ch Cons by blast+
  have "available bs c" "available bs d"
    using bc d(1) by (auto simp: cluster_handle_def chain_at_def)
  from chained_get_next [OF ok this(1) d(2) this(2)] obtain b bv' where
    b: "chained_get V bs c bv = (Ok (Some b), bv')" "cluster_handle bs d b" "bc_last b = None"
      "cache_ok S (held (bc_last bc) + H) bv'" "view S bv' = view S bv" by blast
  then show ?thesis
    using that [of "Some b" bv'] drop_cluster_ok [OF b(4)] d Cons cluster_bytes_pos by (auto simp: reader_at_def)
qed

text \<open>One round of the loop of \<open>read\<close>: \<open>l\<close> bytes are read, and the cursor goes on.\<close>

lemma file_read_round:
  assumes ok: "cache_ok S (held_cursor (reader_cursor r) + H) bv" and at: "reader_at bs (view S bv) (reader_cursor r) D"
    and go: "0 < len" "0 < rest_size r" "reader_cursor r \<noteq> None"
  obtains l r1 bv1 where "0 < l" and "l \<le> min len (rest_size r)" and "l \<le> length D"
    and "cache_ok S (held_cursor (reader_cursor r1) + H) bv1" and "view S bv1 = view S bv"
    and "rest_size r1 = rest_size r - l" and "reader_at bs (view S bv) (reader_cursor r1) (drop l D)"
    and "\<And>fuel. file_read (Suc fuel) V bs len (r, bv)
      = try_st (file_read fuel V bs (len - l) (r1, bv1)) (\<lambda>rest st. (Ok (take l D @ rest), st))"
proof -
  obtain bc off where cur: "reader_cursor r = Some (bc, off)" using go(3) by auto
  then obtain c cs where c: "cluster_handle bs c bc" "chain_at bs (view S bv) c (c # cs)" "off < cluster_bytes bs"
    "D = drop off (file_data bs (view S bv) (c # cs))"
    using at by (auto simp: reader_at_def)
  have okc: "cache_ok S (held (bc_last bc) + H) bv" using ok cur by simp
  have len: "length (cluster_data bs (view S bv) c) = cluster_bytes bs"
    using length_cluster_data [OF geometry _ view_sectors_ok [OF okc]] c(1) by (simp add: cluster_handle_def)
  define l where "l = min (min len (rest_size r)) (cluster_bytes bs - off)"
  have l: "0 < l" "off + l \<le> cluster_bytes bs" "l \<le> min len (rest_size r)" using go c(3) by (auto simp: l_def)
  have lD: "l \<le> length D" using l(2) len c(4) by simp
  obtain bc' bv' where rd: "cluster_read V off (replicate l 0) (bc, bv) = (Ok (take l D), (bc', bv'))"
    "cache_ok S (held (bc_last bc') + H) bv'" "cluster_handle bs c bc'" "view S bv' = view S bv"
    using reader_step [OF okc c(1,2) l(2)] c(4) by metis
  have size: "bc_size bc = cluster_bytes bs" "bc_cluster bc = c" using bc_size_eq [OF c(1)] c(1) by (simp_all add: cluster_handle_def)
  let ?r = "r\<lparr>reader_cursor := None, rest_size := rest_size r - l\<rparr>"
  show ?thesis
  proof (cases "l = cluster_bytes bs - off")
    case True
    obtain nxt bv2 where n: "chained_get V bs c bv' = (Ok nxt, bv2)"
      "cache_ok S (held_cursor (map_option (\<lambda>b. (b, 0)) nxt) + H) (drop_cluster (bc', bv2))"
      "view S (drop_cluster (bc', bv2)) = view S bv"
      "reader_at bs (view S bv) (map_option (\<lambda>b. (b, 0)) nxt) (file_data bs (view S bv) cs)"
      using reader_next [OF rd(2,3)] c(2) rd(4) by metis
    have "drop l D = file_data bs (view S bv) cs" using True len c(3,4) by simp
    then show ?thesis
      using that [of l "?r\<lparr>reader_cursor := map_option (\<lambda>b. (b, 0)) nxt\<rparr>" "drop_cluster (bc', bv2)", OF l(1,3) lD]
        n cur go rd(1) c(3) size True by (simp add: l_def [symmetric])
  next
    case False
    then have off: "off + l < cluster_bytes bs" using l(2) by simp
    have "drop l D = drop (off + l) (file_data bs (view S bv) (c # cs))"
      unfolding c(4) by (simp only: drop_drop add.commute)
    then have "reader_at bs (view S bv) (Some (bc', off + l)) (drop l D)"
      using off c(2) rd(3) unfolding reader_at_def by (simp only: option.case prod.case) blast
    then show ?thesis
      using that [of l "?r\<lparr>reader_cursor := Some (bc', off + l)\<rparr>" bv', OF l(1,3) lD]
        cur go rd c(3) size False by (simp add: l_def [symmetric])
  qed
qed

lemma file_read_ok:
  assumes "cache_ok S (held_cursor (reader_cursor r) + H) bv" and "reader_at bs (view S bv) (reader_cursor r) D"
    and "min len (rest_size r) < fuel"
  shows "\<exists>r' bv'. file_read fuel V bs len (r, bv) = (Ok (take (min len (rest_size r)) D), (r', bv'))
    \<and> cache_ok S (held_cursor (reader_cursor r') + H) bv' \<and> view S bv' = view S bv
    \<and> rest_size r' = rest_size r - min (min len (rest_size r)) (length D)
    \<and> reader_at bs (view S bv) (reader_cursor r') (drop (min len (rest_size r)) D)"
  using assms
proof (induction fuel arbitrary: len r bv D)
  case (Suc fuel)
  consider (zero) "min len (rest_size r) = 0" | (none) "0 < len" "0 < rest_size r" "reader_cursor r = None"
    | (go) "0 < len" "0 < rest_size r" "reader_cursor r \<noteq> None" by fastforce
  then show ?case
  proof cases
    case zero
    then have "file_read (Suc fuel) V bs len (r, bv) = (Ok [], (r, bv))" by (auto simp: min_def split: if_splits)
    then show ?thesis using Suc.prems zero by simp
  next
    case none
    then show ?thesis using Suc.prems by (simp add: reader_at_def)
  next
    case go
    obtain l r1 bv1 where 1: "0 < l" "l \<le> min len (rest_size r)" "l \<le> length D"
      "cache_ok S (held_cursor (reader_cursor r1) + H) bv1" "view S bv1 = view S bv"
      "rest_size r1 = rest_size r - l" "reader_at bs (view S bv) (reader_cursor r1) (drop l D)"
      "\<And>fuel. file_read (Suc fuel) V bs len (r, bv)
        = try_st (file_read fuel V bs (len - l) (r1, bv1)) (\<lambda>rest st. (Ok (take l D @ rest), st))"
      using file_read_round [OF Suc.prems(1,2) go] by metis
    have m: "min (len - l) (rest_size r1) = min len (rest_size r) - l" using 1(6) by (simp add: min_def)
    then have "min (len - l) (rest_size r1) < fuel" using Suc.prems(3) 1(1,2) by linarith
    from Suc.IH [OF 1(4) _ this, of "drop l D"] obtain r' bv' where
      2: "file_read fuel V bs (len - l) (r1, bv1) = (Ok (take (min len (rest_size r) - l) (drop l D)), (r', bv'))"
        "cache_ok S (held_cursor (reader_cursor r') + H) bv'" "view S bv' = view S bv"
        "rest_size r' = rest_size r1 - min (min len (rest_size r) - l) (length D - l)"
        "reader_at bs (view S bv) (reader_cursor r') (drop (min len (rest_size r) - l) (drop l D))"
      using 1(5,7) m by auto
    have "take l D @ take (min len (rest_size r) - l) (drop l D) = take (min len (rest_size r)) D"
      using take_add [of l "min len (rest_size r) - l" D] 1(2) by simp
    then have "file_read (Suc fuel) V bs len (r, bv) = (Ok (take (min len (rest_size r)) D), (r', bv'))"
      unfolding 1(8) 2(1) try_st.simps by (simp only: prod.inject)
    moreover have "rest_size r' = rest_size r - min (min len (rest_size r)) (length D)"
      using 2(4) 1(2,3,6) by (cases "min len (rest_size r) \<le> length D") (auto simp: min_def split: if_splits)
    moreover have "drop (min len (rest_size r) - l) (drop l D) = drop (min len (rest_size r)) D" using 1(2) by simp
    ultimately show ?thesis using 2(2,3,5) by metis
  qed
qed simp

lemma read_rounds_ok:
  assumes "cache_ok S (held_cursor (reader_cursor r) + H) bv" and "reader_at bs (view S bv) (reader_cursor r) D"
    and "4097 + rest_size r < fuel"
  shows "\<exists>r' bv'. read_rounds fuel V bs (r, bv) = (Ok (take (rest_size r) D), (r', bv'))
    \<and> cache_ok S (held_cursor (reader_cursor r') + H) bv' \<and> view S bv' = view S bv"
  using assms
proof (induction fuel arbitrary: r bv D)
  case (Suc fuel)
  let ?m = "min 4096 (rest_size r)"
  have "?m < fuel" using Suc.prems(3) by simp
  from file_read_ok [OF Suc.prems(1,2) this] obtain r1 bv1 where
    1: "file_read fuel V bs 4096 (r, bv) = (Ok (take ?m D), (r1, bv1))"
      "cache_ok S (held_cursor (reader_cursor r1) + H) bv1" "view S bv1 = view S bv"
      "rest_size r1 = rest_size r - min ?m (length D)" "reader_at bs (view S bv) (reader_cursor r1) (drop ?m D)" by blast
  show ?case
  proof (cases "take ?m D = []")
    case True
    then have "take (rest_size r) D = []" by auto
    then show ?thesis using True 1 by simp
  next
    case False
    then have D: "0 < length D" "0 < rest_size r" by auto
    then have "0 < min ?m (length D)" by simp
    then have "4097 + rest_size r1 < fuel" using 1(4) Suc.prems(3) D(2) by linarith
    from Suc.IH [OF 1(2) _ this, of "drop ?m D"] obtain r' bv' where
      2: "read_rounds fuel V bs (r1, bv1) = (Ok (take (rest_size r1) (drop ?m D)), (r', bv'))"
        "cache_ok S (held_cursor (reader_cursor r') + H) bv'" "view S bv' = view S bv"
      using 1(3,5) by auto
    have "take ?m D @ take (rest_size r1) (drop ?m D) = take (rest_size r) D"
    proof (cases "?m \<le> length D")
      case True
      then show ?thesis using take_add [of ?m "rest_size r - ?m" D] 1(4) by simp
    qed (use 1(4) in simp)
    then show ?thesis using False 1(1) 2 by simp
  qed
qed simp

lemma read_to_end_ok:
  assumes ok: "cache_ok S H bv" and f: "\<not> is_dir f" "sfn_cluster (last_sfn f) = Some c"
    and ch: "chain_at bs (view S bv) c cs" and fuel: "4097 + file_file_size f < fuel"
  shows "\<exists>r bv'. reader bs f = Ok (Some r)
    \<and> read_to_end fuel V bs (r, bv) = (Ok (take (file_file_size f) (file_data bs (view S bv) cs)), bv')
    \<and> view S bv' = view S bv \<and> cache_ok S H bv'"
proof -
  obtain ds where cs: "cs = c # ds" using ch cluster_chain_hd unfolding chain_at_def by blast
  obtain bc where bc: "root_cluster bs c = Ok bc" "cluster_handle bs c bc" "bc_last bc = None"
    using root_cluster_ok ch cs by (metis chain_at_def list.set_intros(1))
  let ?r = "\<lparr>rest_size = file_file_size f, reader_cursor = Some (bc, 0)\<rparr>"
  have r: "reader bs f = Ok (Some ?r)" using f bc(1) by (simp add: reader_def file_cluster_def)
  have "reader_at bs (view S bv) (reader_cursor ?r) (file_data bs (view S bv) cs)"
    using bc(2) ch cs cluster_bytes_pos by (auto simp: reader_at_def)
  from read_rounds_ok [of ?r H bv, OF _ this, of fuel] obtain r' bv' where
    "read_rounds fuel V bs (?r, bv) = (Ok (take (file_file_size f) (file_data bs (view S bv) cs)), (r', bv'))"
    "cache_ok S (held_cursor (reader_cursor r') + H) bv'" "view S bv' = view S bv"
    using ok fuel bc(3) by auto
  then show ?thesis using r drop_cursor_ok by (auto simp: read_to_end_def)
qed

end

section \<open>Writing\<close>

text \<open>Nothing changes outside of some clusters.\<close>

definition frame :: "boot_sector \<Rightarrow> (nat \<Rightarrow> bytes) \<Rightarrow> (nat \<Rightarrow> bytes) \<Rightarrow> nat set \<Rightarrow> bool" where
  "frame bs v v' K \<longleftrightarrow>
     (\<forall>d. available bs d \<and> d \<notin> K \<longrightarrow> cluster_data bs v' d = cluster_data bs v d \<and> fat_of bs v' d = fat_of bs v d)"

lemma frame_refl: "frame bs v v K"
  by (simp add: frame_def)

lemma frame_trans: "frame bs u v K \<Longrightarrow> frame bs v w L \<Longrightarrow> K \<subseteq> L \<Longrightarrow> frame bs u w L"
  unfolding frame_def by (metis subsetD)

text \<open>The cursor of a writer is at byte \<open>p\<close> of the chain \<open>cs\<close>; it may be at the end of a cluster.\<close>

definition writer_at :: "boot_sector \<Rightarrow> cursor \<Rightarrow> nat list \<Rightarrow> nat \<Rightarrow> bool" where
  "writer_at bs cur cs p \<longleftrightarrow>
     (\<exists>bc off pre c post. cur = Some (bc, off) \<and> cs = pre @ c # post \<and> cluster_handle bs c bc
        \<and> off \<le> cluster_bytes bs \<and> p = length pre * cluster_bytes bs + off)"

text \<open>\<open>cs'\<close> is the chain \<open>cs\<close> with clusters that were unused behind it.\<close>

definition extends :: "boot_sector \<Rightarrow> (nat \<Rightarrow> bytes) \<Rightarrow> nat list \<Rightarrow> nat list \<Rightarrow> bool" where
  "extends bs v cs cs' \<longleftrightarrow> (\<exists>new. cs' = cs @ new \<and> (\<forall>d \<in> set new. available bs d \<and> fat_of bs v d = FatUnused))"

lemma extends_refl: "extends bs v cs cs"
  by (simp add: extends_def)

lemma extends_trans:
  assumes "extends bs u cs ds" and "extends bs v ds es" and "frame bs u v (set ds)"
    and "\<forall>d \<in> set ds. fat_of bs v d \<noteq> FatUnused"
  shows "extends bs u cs es"
proof -
  obtain new1 new2 where n: "ds = cs @ new1" "\<forall>d \<in> set new1. available bs d \<and> fat_of bs u d = FatUnused"
    "es = ds @ new2" "\<forall>d \<in> set new2. available bs d \<and> fat_of bs v d = FatUnused"
    using assms(1,2) by (auto simp: extends_def)
  have "\<forall>d \<in> set new2. available bs d \<and> fat_of bs u d = FatUnused"
    using n(4) assms(3,4) unfolding frame_def by metis
  then show ?thesis using n by (auto simp: extends_def)
qed

context fat_volume
begin

lemma length_file_data:
  assumes "sectors_ok bs w" and "\<forall>c \<in> set cs. available bs c"
  shows "length (file_data bs w cs) = length cs * cluster_bytes bs"
  using assms length_cluster_data [OF geometry] by (induction cs) simp_all

lemma file_data_put:
  assumes w: "sectors_ok bs w" and av: "\<forall>x \<in> set (pre @ c # post). available bs x" and dist: "distinct (pre @ c # post)"
    and fits: "off + length ys \<le> cluster_bytes bs"
  shows "file_data bs (cluster_put bs c (copy_from_array off ys (cluster_data bs w c)) w) (pre @ c # post)
    = copy_from_array (length pre * cluster_bytes bs + off) ys (file_data bs w (pre @ c # post))"
proof -
  let ?d = "copy_from_array off ys (cluster_data bs w c)" let ?w = "cluster_put bs c ?d w"
  have len: "length (cluster_data bs w c) = cluster_bytes bs" using length_cluster_data [OF geometry _ w] av by simp
  have other: "cluster_data bs ?w x = cluster_data bs w x" if "x \<in> set pre \<union> set post" for x
    using that av dist by (intro cluster_data_put_other) auto
  have here: "cluster_data bs ?w c = ?d" using len fits by (intro cluster_put_data [OF geometry]) simp
  have pre: "length (file_data bs w pre) = length pre * cluster_bytes bs"
    using length_file_data [OF w] av by simp
  have "file_data bs ?w xs = file_data bs w xs" if "set xs \<subseteq> set pre \<union> set post" for xs
    using that other by (induction xs) auto
  then have "file_data bs ?w (pre @ c # post) = file_data bs w pre @ ?d @ file_data bs w post" using here by simp
  also have "\<dots> = copy_from_array (length pre * cluster_bytes bs + off) ys (file_data bs w (pre @ c # post))"
    using pre len fits by (simp add: copy_from_array_def)
  finally show ?thesis .
qed

text \<open>A chain with one more cluster.\<close>

lemma chain_extended:
  assumes v: "sectors_ok bs v" and ch: "chain_at bs v c0 cs" and d: "available bs d" "fat_of bs v d = FatUnused"
    and v': "v' = fat_put bs (last cs) (UsedChained d) (fat_put bs d UsedEoc v)"
  shows "chain_at bs v' c0 (cs @ [d])" and "frame bs v v' (set (cs @ [d]))"
    and "available bs x \<Longrightarrow> cluster_data bs v' x = cluster_data bs v x"
proof -
  have chain: "cluster_chain (fat_of bs v) c0 cs" and all: "\<forall>x \<in> set cs. available bs x" using ch by (simp_all add: chain_at_def)
  then have "cs \<noteq> []" by auto
  then have av: "available bs (last cs)" using all by simp
  have new: "d \<notin> set cs" using cluster_chain_used [OF chain] d(2) by auto
  have wf: "fat_entry_wf (UsedChained d)" using d(1) geometry by (auto simp: available_def geometry_ok_def)
  have f': "fat_of bs v' x = ((fat_of bs v)(d := UsedEoc, last cs := UsedChained d)) x" if "available bs x" for x
    unfolding v' using that av d(1) wf v by (simp add: fat_of_put [OF geometry] fat_put_sectors [OF geometry])
  have "available bs x" if "x \<in> set (cs @ [d])" for x using that d(1) all by auto
  then show "chain_at bs v' c0 (cs @ [d])"
    using cluster_chain_cong [OF cluster_chain_extend [OF chain new] f'] by (simp add: chain_at_def)
  show data: "cluster_data bs v' x = cluster_data bs v x" if "available bs x" for x
    unfolding v' using that av d(1) by (simp add: cluster_data_fat_put [OF geometry])
  have "last cs \<in> set cs" using \<open>cs \<noteq> []\<close> by simp
  then show "frame bs v v' (set (cs @ [d]))"
    using f' data unfolding frame_def by (metis UnI1 UnI2 fun_upd_apply list.set_intros(1) set_append)
qed

text \<open>The target of a round: the cluster at the cursor, the next one of the chain, or a new one.\<close>

lemma writer_target_ok:
  assumes ok: "cache_ok S (held_cursor (writer_cursor w) + H) bv" and at: "writer_at bs (writer_cursor w) cs p"
    and ch: "chain_at bs (view S bv) c0 cs"
  obtains (target) bc off bv1 pre c post where
      "writer_target V bs (w, bv) = (Ok (bc, off), (w\<lparr>writer_cursor := None\<rparr>, bv1))"
      and "cache_ok S (held (bc_last bc) + H) bv1" and "cluster_handle bs c bc" and "off < cluster_bytes bs"
      and "p = length pre * cluster_bytes bs + off" and "chain_at bs (view S bv1) c0 (pre @ c # post)"
      and "extends bs (view S bv) cs (pre @ c # post)" and "frame bs (view S bv) (view S bv1) (set (pre @ c # post))"
      and "\<And>d. available bs d \<Longrightarrow> cluster_data bs (view S bv1) d = cluster_data bs (view S bv) d"
  | (full) bv1 where "writer_target V bs (w, bv) = (Err Full, (w\<lparr>writer_cursor := None\<rparr>, bv1))" and "cache_ok S H bv1"
      and "\<forall>d. available bs d \<longrightarrow> fat_of bs (view S bv1) d \<noteq> FatUnused"
proof -
  obtain bc off pre c post where a: "writer_cursor w = Some (bc, off)" "cs = pre @ c # post" "cluster_handle bs c bc"
    "off \<le> cluster_bytes bs" "p = length pre * cluster_bytes bs + off"
    using at by (auto simp: writer_at_def)
  have okc: "cache_ok S (held (bc_last bc) + H) bv" using ok a(1) by simp
  have size: "bc_size bc = cluster_bytes bs" "bc_cluster bc = c" using bc_size_eq [OF a(3)] a(3) by (simp_all add: cluster_handle_def)
  have av: "available bs c" using a(3) by (simp add: cluster_handle_def)
  have here: "cluster_chain (fat_of bs (view S bv)) c (c # post)"
    using cluster_chain_drop [of "fat_of bs (view S bv)" c0 cs "length pre"] ch a(2) by (simp add: chain_at_def)
  show ?thesis
  proof (cases "off < cluster_bytes bs")
    case True
    then show ?thesis
      using target [of bc off bv c pre post] okc a ch size extends_refl frame_refl by (simp add: writer_target_def)
  next
    case False
    then have off: "off = cluster_bytes bs" using a(4) by simp
    then have p: "p = length (pre @ [c]) * cluster_bytes bs" using a(5) by simp
    show ?thesis
    proof (cases post)
      case (Cons d post')
      then have d: "fat_of bs (view S bv) c = UsedChained d" "available bs d"
        using here ch a(2) by (auto simp: chain_at_def)
      obtain bc1 bv1 where "chained_prepare V bs c bv = (Ok bc1, bv1)" "cluster_handle bs d bc1" "bc_last bc1 = None"
          "cache_ok S (held (bc_last bc) + H) bv1" "view S bv1 = view S bv"
        by (rule chained_prepare_next [OF okc av d])
      then show ?thesis
        using target [of bc1 0 "drop_cluster (bc, bv1)" d "pre @ [c]" post'] drop_cluster_ok [of bc H bv1] a size p Cons ch
          extends_refl frame_refl cluster_bytes_pos False by (simp add: writer_target_def)
    next
      case Nil
      then have none: "chain (fat_of bs (view S bv) c) = None" using here by simp
      show ?thesis
      proof (rule chained_prepare_end [OF okc av none], goal_cases new full)
        case (new d bc1 bv1)
        have "last cs = c" using a(2) Nil by simp
        then have "view S bv1 = fat_put bs (last cs) (UsedChained d) (fat_put bs d UsedEoc (view S bv))" using new(7) by simp
        note e = chain_extended [OF view_sectors_ok [OF okc] ch new(5,6) this]
        have "extends bs (view S bv) cs (cs @ [d])" using new(5,6) by (simp add: extends_def)
        then show ?thesis
          using target [of bc1 0 "drop_cluster (bc, bv1)" d "pre @ [c]" "[]"] drop_cluster_ok [OF new(4)] new a size p Nil e
            cluster_bytes_pos False by (simp add: writer_target_def)
      next
        case (full bv1)
        then show ?thesis
          using that(2) [of "drop_cluster (bc, bv1)"] drop_cluster_ok [of bc H bv1] a size False by (simp add: writer_target_def)
      qed
    qed
  qed
qed

text \<open>One round of the loop of \<open>write\<close>.\<close>

lemma file_write_round:
  assumes ok: "cache_ok S (held_cursor (writer_cursor w) + H) bv" and at: "writer_at bs (writer_cursor w) cs p"
    and ch: "chain_at bs (view S bv) c0 cs" and buf: "buf \<noteq> []"
  obtains (written) l w1 bv1 cs1 where "0 < l" and "l \<le> length buf"
      and "cache_ok S (held_cursor (writer_cursor w1) + H) bv1" and "writer_at bs (writer_cursor w1) cs1 (p + l)"
      and "chain_at bs (view S bv1) c0 cs1" and "extends bs (view S bv) cs cs1" and "frame bs (view S bv) (view S bv1) (set cs1)"
      and "take (p + l) (file_data bs (view S bv1) cs1) = take p (file_data bs (view S bv) cs) @ take l buf"
      and "total_size w1 = total_size w + l" and "writer_file w1 = writer_file w"
      and "\<And>fuel. file_write (Suc fuel) V bs buf (w, bv) = file_write fuel V bs (drop l buf) (w1, bv1)"
  | (full) w1 bv1 where "\<And>fuel. file_write (Suc fuel) V bs buf (w, bv) = (Err Full, (w1, bv1))"
      and "writer_cursor w1 = None" and "cache_ok S H bv1" and "\<forall>d. available bs d \<longrightarrow> fat_of bs (view S bv1) d \<noteq> FatUnused"
proof -
  show ?thesis
  proof (rule writer_target_ok [OF ok at ch], goal_cases target none)
    case (none bv1)
    then show ?thesis using full [of "w\<lparr>writer_cursor := None\<rparr>" bv1] buf by simp
  next
    case (target bc off bv1 pre c post)
    let ?cs = "pre @ c # post" and ?v = "view S bv1"
    define l where "l = min (length buf) (cluster_bytes bs - off)"
    have l: "0 < l" "l \<le> length buf" "off + l \<le> cluster_bytes bs" using buf target(4) by (auto simp: l_def)
    have fits: "off + length (take l buf) \<le> cluster_bytes bs" using l by simp
    obtain bc2 bv2 where w: "cluster_write V off (take l buf) (bc, bv1) = (Ok (), (bc2, bv2))"
      "cache_ok S (held (bc_last bc2) + H) bv2" "cluster_handle bs c bc2"
      "view S bv2 = cluster_put bs c (copy_from_array off (take l buf) (cluster_data bs ?v c)) ?v"
      by (rule cluster_write_ok [OF target(2,3) fits])
    have sec: "sectors_ok bs ?v" by (rule view_sectors_ok [OF target(2)])
    have chain: "cluster_chain (fat_of bs ?v) c0 ?cs" and av: "\<forall>x \<in> set ?cs. available bs x"
      using target(6) by (simp_all add: chain_at_def)
    have fat: "fat_of bs (view S bv2) x = fat_of bs ?v x" if "available bs x" for x
      unfolding w(4) using av that by (intro fat_of_cluster_put [OF geometry]) auto
    have ch2: "chain_at bs (view S bv2) c0 ?cs"
      using cluster_chain_cong [OF chain fat] av by (simp add: chain_at_def)
    have fr: "frame bs (view S bv) (view S bv2) (set ?cs)"
    proof (rule frame_trans [OF target(8)])
      show "frame bs ?v (view S bv2) (set ?cs)"
        using fat av unfolding frame_def w(4) by (auto intro!: cluster_data_put_other)
    qed simp
    have put: "file_data bs (view S bv2) ?cs = copy_from_array p (take l buf) (file_data bs ?v ?cs)"
      unfolding w(4) target(5) by (rule file_data_put [OF sec av cluster_chain_distinct [OF chain] fits])
    have len: "length (file_data bs ?v ?cs) = length ?cs * cluster_bytes bs" by (rule length_file_data [OF sec av])
    obtain new where new: "?cs = cs @ new" using target(7) by (auto simp: extends_def)
    have same: "file_data bs ?v cs = file_data bs (view S bv) cs"
      using target(9) av unfolding new file_data_def by (intro arg_cong [where f = concat] map_cong) auto
    have p: "p \<le> length cs * cluster_bytes bs"
      using at by (auto simp: writer_at_def add_mult_distrib trans_le_add1)
    have lencs: "length (file_data bs ?v cs) = length cs * cluster_bytes bs"
      using length_file_data [OF sec, of cs] av new by auto
    have pl: "p + l \<le> length (file_data bs ?v ?cs)" unfolding len using target(5) l(3) by (simp add: add_mult_distrib)
    have "take (p + l) (file_data bs (view S bv2) ?cs) = take p (file_data bs ?v ?cs) @ take l buf"
      unfolding put using take_copy_from_array [of p "take l buf" "file_data bs ?v ?cs"] pl l by simp
    also have "take p (file_data bs ?v ?cs) = take p (file_data bs (view S bv) cs)"
      unfolding new using p lencs same by simp
    finally have data: "take (p + l) (file_data bs (view S bv2) ?cs) = take p (file_data bs (view S bv) cs) @ take l buf" .
    let ?w = "w\<lparr>total_size := total_size w + l, writer_cursor := Some (bc2, off + l)\<rparr>"
    have at2: "writer_at bs (writer_cursor ?w) ?cs (p + l)"
      using w(3) l(3) target(5) unfolding writer_at_def by fastforce
    have size: "bc_size bc = cluster_bytes bs" by (rule bc_size_eq [OF target(3)])
    show ?thesis
      by (rule written [of l ?w bv2 ?cs]) (use l w ch2 target fr data at2 buf size in \<open>simp_all add: l_def [symmetric]\<close>)
  qed
qed

lemma file_write_ok:
  assumes "cache_ok S (held_cursor (writer_cursor w) + H) bv" and "writer_at bs (writer_cursor w) cs p"
    and "chain_at bs (view S bv) c0 cs" and "length buf < fuel"
  shows "(\<exists>w' bv' cs'. file_write fuel V bs buf (w, bv) = (Ok (), (w', bv'))
      \<and> cache_ok S (held_cursor (writer_cursor w') + H) bv' \<and> writer_at bs (writer_cursor w') cs' (p + length buf)
      \<and> chain_at bs (view S bv') c0 cs' \<and> extends bs (view S bv) cs cs' \<and> frame bs (view S bv) (view S bv') (set cs')
      \<and> take (p + length buf) (file_data bs (view S bv') cs') = take p (file_data bs (view S bv) cs) @ buf
      \<and> total_size w' = total_size w + length buf \<and> writer_file w' = writer_file w)
    \<or> (\<exists>w' bv'. file_write fuel V bs buf (w, bv) = (Err Full, (w', bv')) \<and> cache_ok S H bv'
      \<and> (\<forall>d. available bs d \<longrightarrow> fat_of bs (view S bv') d \<noteq> FatUnused))"
  using assms
proof (induction fuel arbitrary: w bv cs p buf)
  case (Suc fuel)
  show ?case
  proof (cases "buf = []")
    case True
    then show ?thesis using Suc.prems extends_refl frame_refl by auto
  next
    case False
    show ?thesis
    proof (rule file_write_round [OF Suc.prems(1-3) False], goal_cases written full)
      case (written l w1 bv1 cs1)
      have "length (drop l buf) < fuel" using written(1) Suc.prems(4) False by (cases buf) auto
      from Suc.IH [OF written(3-5) this] show ?thesis
      proof (elim disjE exE conjE, goal_cases ok full)
        case (ok w' bv' cs')
        have used: "\<forall>d \<in> set cs1. fat_of bs (view S bv1) d \<noteq> FatUnused"
          using cluster_chain_used written(5) by (auto simp: chain_at_def)
        have "extends bs (view S bv) cs cs'" by (rule extends_trans [OF written(6) ok(5) written(7) used])
        moreover have "set cs1 \<subseteq> set cs'" using ok(5) by (auto simp: extends_def)
        then have "frame bs (view S bv) (view S bv') (set cs')" by (rule frame_trans [OF written(7) ok(6)])
        moreover have "p + l + length (drop l buf) = p + length buf" using written(2) by simp
        moreover have "take (p + l) (file_data bs (view S bv1) cs1) @ drop l buf = take p (file_data bs (view S bv) cs) @ buf"
          unfolding written(8) by simp
        moreover have "file_write (Suc fuel) V bs buf (w, bv) = (Ok (), (w', bv'))" using ok(1) written(11) by metis
        moreover have "total_size w' = total_size w + length buf" using ok(8) written(2,9) by simp
        ultimately show ?case using ok written(10) by (intro disjI1 exI [of _ w'] exI [of _ bv'] exI [of _ cs']) simp
      next
        case (full w' bv')
        then show ?case using written(11) by metis
      qed
    next
      case (full w1 bv1)
      then show ?thesis by blast
    qed
  qed
qed simp

text \<open>\<open>overwriter\<close> starts at the first byte of a file that has a cluster.\<close>

lemma overwrite_ok:
  assumes ok: "cache_ok S H bv" and f: "overwriter f = Some w" "sfn_cluster (last_sfn f) = Some c"
    and ch: "chain_at bs (view S bv) c cs" and fuel: "length buf < fuel"
  shows "(\<exists>w' bv' cs'. file_write fuel V bs buf (w, bv) = (Ok (), (w', bv'))
      \<and> cache_ok S (held_cursor (writer_cursor w') + H) bv'
      \<and> chain_at bs (view S bv') c cs' \<and> extends bs (view S bv) cs cs' \<and> frame bs (view S bv) (view S bv') (set cs')
      \<and> take (length buf) (file_data bs (view S bv') cs') = buf \<and> total_size w' = length buf)
    \<or> (\<exists>w' bv'. file_write fuel V bs buf (w, bv) = (Err Full, (w', bv')) \<and> cache_ok S H bv'
      \<and> (\<forall>d. available bs d \<longrightarrow> fat_of bs (view S bv') d \<noteq> FatUnused))"
proof (cases "buf = []")
  case True
  have "file_write fuel V bs buf (w, bv) = (Ok (), (w, bv))" using True fuel by (cases fuel) auto
  then show ?thesis
    using f True ok ch extends_refl frame_refl by (auto simp: overwriter_def split: if_splits)
next
  case False
  have w: "w = \<lparr>writer_file = f, total_size = 0, writer_cursor = None\<rparr>" using f by (simp add: overwriter_def split: if_splits)
  obtain ds where cs: "cs = c # ds" using ch cluster_chain_hd unfolding chain_at_def by blast
  have "available bs c" using ch cs by (simp add: chain_at_def)
  then obtain bc where bc: "root_cluster bs c = Ok bc" "cluster_handle bs c bc" "bc_last bc = None"
    by (rule root_cluster_ok)
  let ?w = "w\<lparr>writer_cursor := Some (bc, 0)\<rparr>"
  have size: "bc_size bc = cluster_bytes bs" by (rule bc_size_eq [OF bc(2)])
  have "writer_target V bs (w, bv) = (Ok (bc, 0), (w, bv))"
    using w f(2) bc(1) by (simp add: writer_target_def prepare_cluster_def)
  moreover have "writer_target V bs (?w, bv) = (Ok (bc, 0), (w, bv))"
    using w size cluster_bytes_pos by (simp add: writer_target_def)
  ultimately have eq: "file_write fuel V bs buf (w, bv) = file_write fuel V bs buf (?w, bv)"
    using False fuel by (cases fuel) simp_all
  have "writer_at bs (writer_cursor ?w) cs 0" using cs bc(2) by (fastforce simp: writer_at_def)
  from file_write_ok [OF _ this ch fuel, where H = H] show ?thesis unfolding eq using ok bc(3) w by auto
qed

end

section \<open>Properties\<close>

text \<open>
  C9: Reading a file yields its bytes. \<open>read_to_end\<close> returns, within the fuel given, the bytes of the clusters of the
  file's chain in order, up to the size in the directory entry, however the rounds of 4096 bytes and the
  clusters fall; it changes nothing and holds no reference at the end.
\<close>

theorem file_read_to_end:
  assumes "fat_volume V S bs" and "cache_ok S H bv" and "\<not> is_dir f" and "sfn_cluster (last_sfn f) = Some c"
    and "chain_at bs (view S bv) c cs" and "4097 + file_file_size f < fuel"
  shows "\<exists>r bv'. reader bs f = Ok (Some r)
    \<and> read_to_end fuel V bs (r, bv) = (Ok (take (file_file_size f) (file_data bs (view S bv) cs)), bv')
    \<and> view S bv' = view S bv \<and> cache_ok S H bv'"
  by (rule fat_volume.read_to_end_ok [OF assms])

text \<open>A file of the chain of the clusters 2 and 3.\<close>

definition sample_file :: "nat \<Rightarrow> fat_file" where
  "sample_file n =
     \<lparr>file_dir = 5, file_name = [], entry_location = (5, 0),
      last_sfn = \<lparr>sfn_bytes = replicate 11 0x20, sfn_attr = 0x20, nt_res = 0, crt_time_tenth = 0, crt_time = 0, crt_date = 0,
        lst_acc_date = 0, fst_clus_hi = 0, wrt_time = 0, wrt_date = 0, fst_clus_lo = 2, sfn_file_size = word_of_nat n\<rparr>,
      last_location = (5, 0)\<rparr>"

lemma sample_file_facts:
  "\<not> is_dir (sample_file n)" "sfn_cluster (last_sfn (sample_file n)) = Some 2"
  "n < 1000 \<Longrightarrow> file_file_size (sample_file n) = n"
  by (simp_all add: sample_file_def is_dir_def is_directory_def has_flag_def sfn_cluster_def file_file_size_def file_size_def
      unsigned_of_nat take_bit_nat_eq_self)

lemma sample_chain_at: "chain_at sample_bs (view (ram_spec 64 512) (new_buffered_volume chain_disk)) 2 [2, 3]"
  using sample_chain by (simp add: chain_at_def sample_available)

theorem file_read_to_end_witness:
  "\<exists>r bv'. reader sample_bs (sample_file 600) = Ok (Some r)
    \<and> read_to_end 5000 (ram_ops 512) sample_bs (r, new_buffered_volume chain_disk)
      = (Ok (take 600 (file_data sample_bs (view (ram_spec 64 512) (new_buffered_volume chain_disk)) [2, 3])), bv')"
  using file_read_to_end [OF sample_fat_volume sample_cache_ok(1) [OF sample_disks(2)] sample_file_facts(1,2) sample_chain_at,
      of 600 5000] sample_file_facts(3) [of 600] by auto



end
