(* ===== verification/Virt_Queue.thy ===== *)
theory Virt_Queue
  imports Phys_Memory Paging Virtio_Config
begin

text \<open>
  The virtqueue of the VirtIO drivers, \<open>devices/virtio/queue.rs\<close>: the descriptor table and the two rings,
  shared with the device, and the driver's own list of free descriptors, threaded through the table.
  The shared memory is part of the record: the driver writes the descriptor table and the available ring,
  the device the used ring. The fences have no counterpart here, the steps of driver and device are atomic.
\<close>

section \<open>Descriptors\<close>

record descriptor =
  desc_addr :: u64
  desc_len :: u32
  desc_flags :: u16
  desc_next :: u16

definition DESC_NEXT :: u16 where
  "DESC_NEXT = 1"

definition DESC_WRITE :: u16 where
  "DESC_WRITE = 2"

record 'a buffer =
  buf_addr :: u64
  buf_len :: nat
  buf_write :: bool
  associated_data :: 'a

definition refer :: "descriptor \<Rightarrow> u64 \<Rightarrow> nat \<Rightarrow> bool \<Rightarrow> descriptor" where
  "refer d addr n write =
     d\<lparr>desc_addr := addr, desc_len := word_of_nat n,
       desc_flags := (if write then desc_flags d OR DESC_WRITE else desc_flags d AND NOT DESC_WRITE)\<rparr>"

definition next_of :: "descriptor \<Rightarrow> u16 option" where
  "next_of d = (if desc_flags d AND DESC_NEXT \<noteq> 0 then Some (desc_next d) else None)"

definition set_next :: "descriptor \<Rightarrow> u16 option \<Rightarrow> descriptor" where
  "set_next d n = (case n of
      Some i \<Rightarrow> d\<lparr>desc_flags := desc_flags d OR DESC_NEXT, desc_next := i\<rparr>
    | None \<Rightarrow> d\<lparr>desc_flags := desc_flags d AND NOT DESC_NEXT, desc_next := 0\<rparr>)"

section \<open>The queue\<close>

record 'a virt_queue =
  queue_size :: nat
  queue_frame :: nat
  descriptor_table :: "descriptor list"
  available_idx :: u16
  available_ring :: "u16 list"
  used_idx :: u16
  used_ring :: "u32 list"
  last_used_idx :: u16
  first_free_descriptor :: u16
  num_free_descriptors :: nat
  buffer_associated_data :: "'a option list"

record virt_queue_layout =
  num_frames :: u64
  descriptor_table_offset :: u64
  available_ring_offset :: u64
  used_ring_offset :: u64

definition align_frame :: "u64 \<Rightarrow> u64" where
  "align_frame x = (x + word_of_nat FRAME_SIZE - 1) AND NOT (word_of_nat FRAME_SIZE - 1)"

definition compute_layout :: "nat \<Rightarrow> virt_queue_layout" where
  "compute_layout sz =
     (let descriptor_table_size = 16 * word_of_nat sz;
          available_ring_size = 6 + 2 * word_of_nat sz;
          used_ring_size = 6 + 8 * word_of_nat sz;
          a = align_frame (descriptor_table_size + available_ring_size);
          b = align_frame used_ring_size
      in \<lparr>num_frames = (a + b) div word_of_nat FRAME_SIZE, descriptor_table_offset = 0,
          available_ring_offset = descriptor_table_size, used_ring_offset = a\<rparr>)"

definition descriptor_at :: "'a virt_queue \<Rightarrow> u16 \<Rightarrow> descriptor" where
  "descriptor_at q i = descriptor_table q ! unat i"

definition set_descriptor :: "u16 \<Rightarrow> descriptor \<Rightarrow> 'a virt_queue \<Rightarrow> 'a virt_queue" where
  "set_descriptor i d q = q\<lparr>descriptor_table := (descriptor_table q)[unat i := d]\<rparr>"

definition ring_index :: "'a virt_queue \<Rightarrow> u16 \<Rightarrow> nat" where
  "ring_index q i = unat i mod queue_size q"

text \<open>
  \<open>VirtQueue::new\<close> for a queue of the size the device tells: the frames are taken from the frame manager and
  zeroed, and the descriptors linked to one free list. The physical memory is mapped up to 64 GiB, where
  \<open>as_virt_addr\<close> gives an address; a queue of size zero is refused.
\<close>

definition zero_descriptor :: descriptor where
  "zero_descriptor = \<lparr>desc_addr = 0, desc_len = 0, desc_flags = 0, desc_next = 0\<rparr>"

definition initial_table :: "nat \<Rightarrow> descriptor list" where
  "initial_table sz =
     map (\<lambda>i. if i < sz - 1 then set_next zero_descriptor (Some (word_of_nat (i + 1))) else zero_descriptor)
       [0..<sz]"

definition new_virt_queue :: "nat \<Rightarrow> nat \<Rightarrow> 'a virt_queue" where
  "new_virt_queue sz frame =
     \<lparr>queue_size = sz, queue_frame = frame, descriptor_table = initial_table sz,
      available_idx = 0, available_ring = replicate sz 0, used_idx = 0, used_ring = replicate sz 0,
      last_used_idx = 0, first_free_descriptor = 0, num_free_descriptors = sz,
      buffer_associated_data = replicate sz None\<rparr>"

definition virt_queue_new ::
    "'h ports \<Rightarrow> configuration \<Rightarrow> u16 \<Rightarrow> u16 option \<Rightarrow> frame_manager \<Rightarrow> ('h, string, 'a virt_queue \<times> frame_manager) io" where
  "virt_queue_new P c queue_index msi_x_vector fm h =
     try_st (set_queue_select P c queue_index h) (\<lambda>_ h.
     try_st (cfg_queue_size P c h) (\<lambda>sz h.
       if unat sz = 0 then (Err ''Queue is unavailable'', h)
       else case allocate fm (unat (num_frames (compute_layout (unat sz)))) of
           Err e \<Rightarrow> (Err ''Cannot allocate frame for this queue'', h)
         | Panic \<Rightarrow> (Panic, h)
         | Hang \<Rightarrow> (Hang, h)
         | Ok (frame, fm') \<Rightarrow> (case as_virt_addr (frame_phys_addr frame) of
             None \<Rightarrow> (Panic, h)
           | Some _ \<Rightarrow>
               try_st (set_queue_address P c (word_of_nat (frame_phys_addr frame div FRAME_SIZE)) h) (\<lambda>_ h.
               try_st (case msi_x_vector of None \<Rightarrow> (Ok (), h) | Some v \<Rightarrow> set_queue_msix_vector P c v h) (\<lambda>_ h.
                 (Ok (new_virt_queue (unat sz) frame, fm'), h))))))"

definition drop_virt_queue :: "frame_manager \<Rightarrow> 'a virt_queue \<Rightarrow> (allocate_error, frame_manager) outcome" where
  "drop_virt_queue fm q = free_frames fm (queue_frame q) (unat (num_frames (compute_layout (queue_size q))))"

text \<open>
  \<open>transfer\<close>: the loop over the buffers takes the descriptors from the free list, then the last of them is
  unlinked from the list and the first published in the available ring.
\<close>

fun transfer_buffers ::
    "'a virt_queue \<Rightarrow> u16 option \<Rightarrow> 'a buffer list \<Rightarrow> ('a buffer list, u16 option \<times> 'a virt_queue) outcome" where
  "transfer_buffers q lst [] = Ok (lst, q)"
| "transfer_buffers q lst (b # bs) =
    (let i = first_free_descriptor q
     in if queue_size q \<le> unat i \<or> buffer_associated_data q ! unat i \<noteq> None then Panic
        else let q' = (set_descriptor i (refer (descriptor_at q i) (buf_addr b) (buf_len b) (buf_write b)) q)
                        \<lparr>buffer_associated_data := (buffer_associated_data q)[unat i := Some (associated_data b)]\<rparr>
          in if num_free_descriptors q' = 0 then Panic
             else if num_free_descriptors q' = 1 then
               (if next_of (descriptor_at q' i) = None
                then transfer_buffers (q'\<lparr>num_free_descriptors := 0\<rparr>) (Some i) bs else Panic)
             else case next_of (descriptor_at q' i) of
                 None \<Rightarrow> Panic
               | Some j \<Rightarrow> transfer_buffers
                   (q'\<lparr>first_free_descriptor := j, num_free_descriptors := num_free_descriptors q' - 1\<rparr>)
                   (Some i) bs)"

definition publish :: "u16 \<Rightarrow> u16 \<Rightarrow> 'a virt_queue \<Rightarrow> 'a virt_queue" where
  "publish first lst q =
     (let q1 = set_descriptor lst (set_next (descriptor_at q lst) None) q;
          q2 = q1\<lparr>available_ring := (available_ring q1)[ring_index q1 (available_idx q1) := first]\<rparr>
      in q2\<lparr>available_idx := available_idx q2 + 1\<rparr>)"

definition transfer :: "'a virt_queue \<Rightarrow> 'a buffer list \<Rightarrow> ('a buffer list, 'a virt_queue) outcome" where
  "transfer q buffers =
     (if num_free_descriptors q < length buffers then Err buffers
      else let first = first_free_descriptor q
        in try_then (transfer_buffers q None buffers) (\<lambda>(lst, q').
          case lst of None \<Rightarrow> Ok q' | Some l \<Rightarrow> Ok (publish first l q')))"

text \<open>
  \<open>collect\<close>: the inner loop gives the descriptors of one chain back, in front of the free list, and hands the
  data associated with each to the callback; the model returns these data. It ends, since a descriptor met a
  second time has no data left and \<open>unwrap\<close> panics.
\<close>

function free_chain :: "'a virt_queue \<Rightarrow> u16 \<Rightarrow> (unit, 'a list \<times> 'a virt_queue) outcome" where
  "free_chain q i =
    (if length (buffer_associated_data q) \<le> unat i then Panic
     else case buffer_associated_data q ! unat i of
       None \<Rightarrow> Panic
     | Some a \<Rightarrow>
        let prev_first_free_descriptor =
              (if num_free_descriptors q = 0 then None else Some (first_free_descriptor q));
            chain = next_of (descriptor_at q i);
            q' = (set_descriptor i (set_next (descriptor_at q i) prev_first_free_descriptor) q)
                   \<lparr>first_free_descriptor := i, num_free_descriptors := num_free_descriptors q + 1,
                    buffer_associated_data := (buffer_associated_data q)[unat i := None]\<rparr>
        in case chain of
             None \<Rightarrow> Ok ([a], q')
           | Some j \<Rightarrow> try_then (free_chain q' j) (\<lambda>(as, q''). Ok (a # as, q'')))"
  by pat_completeness auto

lemma count_Some_decreases:
  "k < length xs \<Longrightarrow> xs ! k = Some a \<Longrightarrow>
    length (filter (\<lambda>x. x \<noteq> None) (xs[k := None])) < length (filter (\<lambda>x. x \<noteq> None) xs)"
  by (induction xs arbitrary: k) (auto split: nat.splits)

termination free_chain
  by (relation "measure (\<lambda>(q, i). length (filter (\<lambda>x. x \<noteq> None) (buffer_associated_data q)))")
    (auto simp: not_le simp del: not_None_eq intro!: count_Some_decreases)

declare free_chain.simps [simp del]

definition collect_one :: "'a virt_queue \<Rightarrow> (unit, 'a list \<times> 'a virt_queue) outcome" where
  "collect_one q =
     (if queue_size q = 0 then Panic
      else free_chain (q\<lparr>last_used_idx := last_used_idx q + 1\<rparr>)
             (ucast (used_ring q ! ring_index q (last_used_idx q))))"

lemma free_chain_keeps:
  "free_chain q i = Ok (as, q') \<Longrightarrow> last_used_idx q' = last_used_idx q \<and> used_idx q' = used_idx q"
proof (induction q i arbitrary: as q' rule: free_chain.induct)
  case (1 q i)
  then show ?case
    by (subst (asm) (2) free_chain.simps)
      (fastforce simp: set_descriptor_def Let_def split: if_splits option.splits)
qed

lemma collect_one_keeps:
  "collect_one q = Ok (as, q') \<Longrightarrow> last_used_idx q' = last_used_idx q + 1 \<and> used_idx q' = used_idx q"
  by (auto simp: collect_one_def dest: free_chain_keeps split: if_splits)

lemma try_then_cong [fundef_cong]:
  "m = m' \<Longrightarrow> (\<And>x. m' = Ok x \<Longrightarrow> f x = f' x) \<Longrightarrow> try_then m f = try_then m' f'"
  by (cases m') auto

function collect :: "'a virt_queue \<Rightarrow> (unit, 'a list \<times> 'a virt_queue) outcome" where
  "collect q =
    (if last_used_idx q = used_idx q then Ok ([], q)
     else try_then (collect_one q) (\<lambda>(as, q'). try_then (collect q') (\<lambda>(bs, q''). Ok (as @ bs, q''))))"
  by pat_completeness auto

lemma ring_distance: "(a :: u16) \<noteq> b \<Longrightarrow> unat (b - (a + 1)) < unat (b - a)"
proof -
  assume "a \<noteq> b"
  then have "b - a \<noteq> 0" by simp
  then have "unat (b - a - 1) = unat (b - a) - 1" "0 < unat (b - a)"
    by (simp_all add: unat_minus_one unat_gt_0)
  moreover have "b - (a + 1) = b - a - 1" by simp
  ultimately show ?thesis by (metis diff_less zero_less_one)
qed

termination collect
  by (relation "measure (\<lambda>q. unat (used_idx q - last_used_idx q))")
    (auto dest!: collect_one_keeps simp: ring_distance)

declare collect.simps [simp del]

section \<open>Descriptors and rings\<close>

lemma and_DESC_NEXT: "w AND DESC_NEXT \<noteq> 0 \<longleftrightarrow> odd w"
  by (simp add: DESC_NEXT_def and_one_eq mod_2_eq_odd)

lemma next_of_refer [simp]: "next_of (refer d a n w) = next_of d"
  by (simp add: next_of_def and_DESC_NEXT refer_def DESC_WRITE_def even_or_iff even_and_iff)

lemma next_of_set_next [simp]: "next_of (set_next d n) = n"
  unfolding next_of_def and_DESC_NEXT
  by (cases n) (simp_all add: set_next_def DESC_NEXT_def even_or_iff even_and_iff)

lemma next_of_zero [simp]: "next_of zero_descriptor = None"
  by (simp add: next_of_def zero_descriptor_def)

definition write_only :: "descriptor \<Rightarrow> bool" where
  "write_only d \<longleftrightarrow> desc_flags d AND DESC_WRITE \<noteq> 0"

lemma and_DESC_WRITE: "w AND DESC_WRITE \<noteq> 0 \<longleftrightarrow> bit w 1"
proof -
  have "DESC_WRITE = push_bit 1 1" by (simp add: DESC_WRITE_def)
  then show ?thesis using and_exp_eq_0_iff_not_bit [of w 1] by (simp add: push_bit_eq_mult)
qed

lemma write_only_refer [simp]: "write_only (refer d a n w) = w"
proof -
  have "bit DESC_WRITE 1" by (simp add: DESC_WRITE_def bit_numeral_rec)
  then show ?thesis by (simp add: write_only_def and_DESC_WRITE refer_def bit_or_iff bit_and_iff bit_not_iff)
qed

lemma write_only_set_next [simp]: "write_only (set_next d n) = write_only d"
proof -
  have "\<not> bit DESC_NEXT 1" by (simp add: DESC_NEXT_def)
  then show ?thesis
    by (cases n) (simp_all add: write_only_def and_DESC_WRITE set_next_def bit_or_iff bit_and_iff bit_not_iff)
qed

lemma refer_simps [simp]:
  "desc_addr (refer d a n w) = a" "desc_len (refer d a n w) = word_of_nat n"
  by (simp_all add: refer_def)

lemma set_next_simps [simp]:
  "desc_addr (set_next d n) = desc_addr d" "desc_len (set_next d n) = desc_len d"
  by (cases n; simp add: set_next_def)+

text \<open>The descriptors of a list are chained by their \<open>next\<close> fields in this order.\<close>

fun linked :: "descriptor list \<Rightarrow> u16 list \<Rightarrow> bool" where
  "linked tab [] \<longleftrightarrow> True"
| "linked tab [i] \<longleftrightarrow> next_of (tab ! unat i) = None"
| "linked tab (i # j # is) \<longleftrightarrow> next_of (tab ! unat i) = Some j \<and> linked tab (j # is)"

lemma linked_cong:
  "(\<And>i. i \<in> set is \<Longrightarrow> next_of (tab ! unat i) = next_of (tab' ! unat i)) \<Longrightarrow> linked tab is = linked tab' is"
  by (induction tab "is" rule: linked.induct) auto

lemma linked_drop: "linked tab is \<Longrightarrow> linked tab (drop n is)"
proof (induction n arbitrary: "is")
  case (Suc n)
  then show ?case
    by (cases "is"; cases "tl is") auto
qed simp

lemma linked_tl: "linked tab (i # is) \<Longrightarrow> linked tab is"
  using linked_drop [of tab "i # is" 1] by simp

lemma linked_next: "linked tab (i # is) \<Longrightarrow> next_of (tab ! unat i) = (if is = [] then None else Some (hd is))"
  by (cases "is") auto

lemma linked_Cons:
  "next_of (tab ! unat i) = (if is = [] then None else Some (hd is)) \<Longrightarrow> linked tab is \<Longrightarrow> linked tab (i # is)"
  by (cases "is") auto

lemma linked_unlink:
  assumes "linked tab (is @ js)" and "is \<noteq> []" and "distinct is" and "unat (last is) < length tab"
  shows "linked (tab[unat (last is) := set_next (tab ! unat (last is)) None]) is"
  using assms
proof (induction "is")
  case (Cons i ks)
  show ?case
  proof (cases "ks = []")
    case True
    with Cons.prems show ?thesis by simp
  next
    case False
    then have "unat i \<noteq> unat (last ks)" using Cons.prems by (auto simp flip: word_eq_iff_unsigned)
    with Cons False show ?thesis
      by (intro linked_Cons) (auto dest: linked_next linked_tl)
  qed
qed simp

text \<open>A window of a ring of \<open>n\<close> slots, from the free-running index \<open>start\<close> on.\<close>

definition ring_holds :: "'b list \<Rightarrow> nat \<Rightarrow> u16 \<Rightarrow> 'b list \<Rightarrow> bool" where
  "ring_holds r n start xs \<longleftrightarrow> (\<forall>k<length xs. r ! (unat (start + word_of_nat k) mod n) = xs ! k)"

lemma ring_slot:
  assumes "n dvd 65536"
  shows "unat (s + word_of_nat k :: u16) mod n = (unat s + k) mod n"
proof -
  have "unat (s + word_of_nat k :: u16) = (unat s + k) mod 65536"
    by (simp add: unat_word_ariths unat_of_nat mod_add_right_eq)
  then show ?thesis using assms by (simp add: mod_mod_cancel)
qed

lemma ring_slot_inj:
  assumes "(a + j) mod n = (a + k) mod n" and "j < n" and "k < (n :: nat)"
  shows "j = k"
proof -
  have "j mod n = k mod n"
    using assms(1) by (simp add: nat_mod_eq_iff)
  with assms show ?thesis by simp
qed

lemma ring_holds_tl: "ring_holds r n s (x # xs) \<Longrightarrow> ring_holds r n (s + 1) xs"
  unfolding ring_holds_def
proof (intro allI impI)
  fix k assume h: "\<forall>k<length (x # xs). r ! (unat (s + word_of_nat k) mod n) = (x # xs) ! k" and "k < length xs"
  then have "r ! (unat (s + word_of_nat (Suc k)) mod n) = (x # xs) ! Suc k" by auto
  then show "r ! (unat (s + 1 + word_of_nat k) mod n) = xs ! k" by (simp add: ac_simps)
qed

lemma ring_holds_hd: "ring_holds r n s (x # xs) \<Longrightarrow> r ! (unat s mod n) = x"
  unfolding ring_holds_def by force

lemma ring_holds_snoc:
  assumes "ring_holds r n s xs" and "n dvd 65536" and "length xs < n" and "length r = n"
  shows "ring_holds (r[unat (s + word_of_nat (length xs)) mod n := x]) n s (xs @ [x])"
  unfolding ring_holds_def
proof (intro allI impI)
  fix k assume k: "k < length (xs @ [x])"
  let ?i = "unat (s + word_of_nat (length xs)) mod n"
  have i: "?i < length r" using assms(3,4) by (simp add: mod_less_divisor)
  show "r[?i := x] ! (unat (s + word_of_nat k) mod n) = (xs @ [x]) ! k"
  proof (cases "k = length xs")
    case True
    with i show ?thesis by simp
  next
    case False
    with k have k: "k < length xs" by simp
    have "unat (s + word_of_nat k) mod n \<noteq> ?i"
      using ring_slot_inj [of "unat s" k n "length xs"] k assms(2,3) by (auto simp: ring_slot)
    with k assms(1) show ?thesis by (simp add: ring_holds_def nth_append)
  qed
qed

section \<open>What the queue represents\<close>

text \<open>
  The requests the driver has made and where they are: in the available ring, with the device, in the used
  ring. A request is the chain of its descriptors with their buffers. \<open>free_list\<close> is the driver's free list.
\<close>

type_synonym 'a request = "(u16 \<times> 'a buffer) list"

record 'a requests =
  free_list :: "u16 list"
  waiting :: "'a request list"
  taken :: "'a request list"
  completed :: "'a request list"

definition all_requests :: "'a requests \<Rightarrow> 'a request list" where
  "all_requests g = waiting g @ taken g @ completed g"

definition in_flight :: "'a requests \<Rightarrow> (u16 \<times> 'a buffer) list" where
  "in_flight g = concat (all_requests g)"

text \<open>Descriptor \<open>i\<close> describes the buffer \<open>b\<close>.\<close>

definition describes :: "'a virt_queue \<Rightarrow> u16 \<times> 'a buffer \<Rightarrow> bool" where
  "describes q = (\<lambda>(i, b).
     desc_addr (descriptor_at q i) = buf_addr b
     \<and> desc_len (descriptor_at q i) = word_of_nat (buf_len b)
     \<and> write_only (descriptor_at q i) = buf_write b
     \<and> buffer_associated_data q ! unat i = Some (associated_data b))"

text \<open>The legacy interface has a power of two as the queue size, 32768 at most.\<close>

definition sizes_ok :: "'a virt_queue \<Rightarrow> bool" where
  "sizes_ok q \<longleftrightarrow> 0 < queue_size q \<and> queue_size q \<le> 32768 \<and> queue_size q dvd 65536
     \<and> length (descriptor_table q) = queue_size q \<and> length (available_ring q) = queue_size q
     \<and> length (used_ring q) = queue_size q \<and> length (buffer_associated_data q) = queue_size q"

definition free_ok :: "'a virt_queue \<Rightarrow> u16 list \<Rightarrow> bool" where
  "free_ok q fs \<longleftrightarrow> num_free_descriptors q = length fs \<and> (fs \<noteq> [] \<longrightarrow> first_free_descriptor q = hd fs)
     \<and> linked (descriptor_table q) fs \<and> (\<forall>i\<in>set fs. buffer_associated_data q ! unat i = None)"

definition request_ok :: "'a virt_queue \<Rightarrow> 'a request \<Rightarrow> bool" where
  "request_ok q r \<longleftrightarrow> r \<noteq> [] \<and> linked (descriptor_table q) (map fst r) \<and> (\<forall>x\<in>set r. describes q x)"

definition rings_ok :: "'a virt_queue \<Rightarrow> 'a requests \<Rightarrow> bool" where
  "rings_ok q g \<longleftrightarrow>
     ring_holds (available_ring q) (queue_size q) (available_idx q - word_of_nat (length (waiting g)))
       (map (\<lambda>r. fst (hd r)) (waiting g))
     \<and> ring_holds (used_ring q) (queue_size q) (last_used_idx q) (map (\<lambda>r. ucast (fst (hd r))) (completed g))
     \<and> used_idx q = last_used_idx q + word_of_nat (length (completed g))"

definition partition_ok :: "nat \<Rightarrow> 'a requests \<Rightarrow> bool" where
  "partition_ok n g \<longleftrightarrow> distinct (free_list g @ map fst (in_flight g))
     \<and> set (free_list g @ map fst (in_flight g)) = {i. unat i < n}"

definition vq_ok :: "'a virt_queue \<Rightarrow> 'a requests \<Rightarrow> bool" where
  "vq_ok q g \<longleftrightarrow> sizes_ok q \<and> partition_ok (queue_size q) g \<and> free_ok q (free_list g)
     \<and> (\<forall>r\<in>set (all_requests g). request_ok q r) \<and> rings_ok q g"

lemma unat_eq_iff [simp]: "unat (i :: u16) = unat j \<longleftrightarrow> i = j"
  by (simp flip: word_eq_iff_unsigned)

lemma indices_below:
  assumes "n \<le> 65536" shows "{i :: u16. unat i < n} = word_of_nat ` {0..<n}"
proof
  show "{i :: u16. unat i < n} \<subseteq> word_of_nat ` {0..<n}"
    by (auto intro!: image_eqI [of _ _ "unat _"])
  show "word_of_nat ` {0..<n} \<subseteq> {i :: u16. unat i < n}"
    using assms by (auto simp: unat_of_nat)
qed

lemma inj_on_indices:
  assumes "n \<le> 65536" shows "inj_on (word_of_nat :: nat \<Rightarrow> u16) {0..<n}"
proof (rule inj_onI)
  fix x y assume "x \<in> {0..<n}" "y \<in> {0..<n}" "word_of_nat x = (word_of_nat y :: u16)"
  then have "unat (word_of_nat x :: u16) = unat (word_of_nat y :: u16)" "x < 65536" "y < 65536"
    using assms by simp_all
  then show "x = y" by (simp only: unat_of_nat) simp
qed

lemma card_indices: "n \<le> 65536 \<Longrightarrow> card {i :: u16. unat i < n} = n"
  using inj_on_indices by (simp add: indices_below card_image)

lemma length_requests: "\<forall>r\<in>set rs. r \<noteq> [] \<Longrightarrow> length rs \<le> length (concat rs)"
proof (induction rs)
  case (Cons r rs)
  then show ?case by (cases r) auto
qed simp

lemma partition_length:
  assumes "partition_ok n g" and "n \<le> 65536"
  shows "length (free_list g) + length (in_flight g) = n"
proof -
  have "length (free_list g @ map fst (in_flight g)) = card (set (free_list g @ map fst (in_flight g)))"
    using assms(1) unfolding partition_ok_def by (intro distinct_card [symmetric]) simp
  then show ?thesis using assms card_indices [OF assms(2)] by (simp add: partition_ok_def)
qed

lemma requests_bound:
  assumes "vq_ok q g"
  shows "length (free_list g) + length (waiting g) + length (taken g) + length (completed g) \<le> queue_size q"
proof -
  have "length (all_requests g) \<le> length (in_flight g)"
    unfolding in_flight_def using assms
    by (intro length_requests) (auto simp: vq_ok_def request_ok_def)
  moreover have "length (free_list g) + length (in_flight g) = queue_size q"
    using assms by (intro partition_length) (auto simp: vq_ok_def sizes_ok_def)
  ultimately show ?thesis by (simp add: all_requests_def)
qed

subsection \<open>The new queue\<close>

lemma initial_table_linked:
  assumes "sz \<le> 65536" and "k < sz"
  shows "linked (initial_table sz) (map word_of_nat [k..<sz])"
  using assms(2)
proof (induction "sz - k" arbitrary: k)
  case (Suc n)
  have k: "unat (word_of_nat k :: u16) = k" using Suc.prems assms(1) by (simp add: unat_of_nat)
  have next_k: "next_of (initial_table sz ! k) = (if k < sz - 1 then Some (word_of_nat (k + 1)) else None)"
    using Suc.prems by (simp add: initial_table_def)
  have upt: "[k..<sz] = k # [Suc k..<sz]" using Suc.prems by (simp add: upt_conv_Cons)
  show ?case
  proof (cases "Suc k < sz")
    case True
    then have "linked (initial_table sz) (map word_of_nat [Suc k..<sz])" using Suc by simp
    with True show ?thesis unfolding upt by (simp add: linked_Cons k next_k hd_map del: upt_Suc)
  next
    case False
    with Suc.prems have "[Suc k..<sz] = []" by simp
    with False show ?thesis unfolding upt by (simp add: k next_k)
  qed
qed simp

lemma new_virt_queue_ok:
  assumes "0 < sz" and "sz \<le> 32768" and "sz dvd 65536"
  shows "vq_ok (new_virt_queue sz frame)
    \<lparr>free_list = map word_of_nat [0..<sz], waiting = [], taken = [], completed = []\<rparr>"
proof -
  have "sz \<le> 65536" using assms(2) by simp
  note inj_on_indices [OF this] indices_below [OF this]
  then have "partition_ok sz \<lparr>free_list = map word_of_nat [0..<sz], waiting = [], taken = [], completed = []\<rparr>"
    by (simp add: partition_ok_def in_flight_def all_requests_def distinct_map)
  then show ?thesis
    using assms initial_table_linked [of sz 0]
    by (auto simp: vq_ok_def sizes_ok_def new_virt_queue_def free_ok_def initial_table_def hd_map
        all_requests_def rings_ok_def ring_holds_def unat_of_nat)
qed

subsection \<open>Transfer\<close>

fun put_buffer :: "u16 \<times> 'a buffer \<Rightarrow> 'a virt_queue \<Rightarrow> 'a virt_queue" where
  "put_buffer (i, b) q =
     (set_descriptor i (refer (descriptor_at q i) (buf_addr b) (buf_len b) (buf_write b)) q)
       \<lparr>buffer_associated_data := (buffer_associated_data q)[unat i := Some (associated_data b)]\<rparr>"

lemma put_buffer_simps [simp]:
  "queue_size (put_buffer x q) = queue_size q" "available_idx (put_buffer x q) = available_idx q"
  "available_ring (put_buffer x q) = available_ring q" "used_idx (put_buffer x q) = used_idx q"
  "used_ring (put_buffer x q) = used_ring q" "last_used_idx (put_buffer x q) = last_used_idx q"
  "first_free_descriptor (put_buffer x q) = first_free_descriptor q"
  "num_free_descriptors (put_buffer x q) = num_free_descriptors q"
  "length (descriptor_table (put_buffer x q)) = length (descriptor_table q)"
  "length (buffer_associated_data (put_buffer x q)) = length (buffer_associated_data q)"
  by (cases x; simp add: set_descriptor_def)+

lemma fold_put_buffer_simps [simp]:
  "queue_size (fold put_buffer xs q) = queue_size q" "available_idx (fold put_buffer xs q) = available_idx q"
  "available_ring (fold put_buffer xs q) = available_ring q" "used_idx (fold put_buffer xs q) = used_idx q"
  "used_ring (fold put_buffer xs q) = used_ring q" "last_used_idx (fold put_buffer xs q) = last_used_idx q"
  "length (descriptor_table (fold put_buffer xs q)) = length (descriptor_table q)"
  "length (buffer_associated_data (fold put_buffer xs q)) = length (buffer_associated_data q)"
  by (induction xs arbitrary: q) auto

lemma next_of_put_buffer [simp]:
  "next_of (descriptor_table (put_buffer x q) ! k) = next_of (descriptor_table q ! k)"
proof (cases x)
  case (Pair i b)
  then show ?thesis
    by (cases "k = unat i"; cases "unat i < length (descriptor_table q)")
      (auto simp: set_descriptor_def descriptor_at_def list_update_beyond not_less)
qed

lemma next_of_fold_put_buffer [simp]:
  "next_of (descriptor_table (fold put_buffer xs q) ! k) = next_of (descriptor_table q ! k)"
  by (induction xs arbitrary: q) auto

lemma fold_put_buffer_other:
  "i \<notin> fst ` set xs \<Longrightarrow> descriptor_table (fold put_buffer xs q) ! unat i = descriptor_table q ! unat i
     \<and> buffer_associated_data (fold put_buffer xs q) ! unat i = buffer_associated_data q ! unat i"
  by (induction xs arbitrary: q) (auto simp: set_descriptor_def)

lemma describes_fold_put_buffer:
  "distinct (map fst xs) \<Longrightarrow> x \<in> set xs \<Longrightarrow> length (descriptor_table q) = queue_size q \<Longrightarrow>
    length (buffer_associated_data q) = queue_size q \<Longrightarrow> \<forall>x\<in>set xs. unat (fst x) < queue_size q \<Longrightarrow>
    describes (fold put_buffer xs q) x"
proof (induction xs arbitrary: q)
  case (Cons y xs)
  show ?case
  proof (cases "x = y")
    case True
    with Cons.prems have "fst y \<notin> fst ` set xs" by auto
    from fold_put_buffer_other [OF this, of "put_buffer y q"] True Cons.prems show ?thesis
      by (cases y) (simp add: describes_def descriptor_at_def set_descriptor_def)
  next
    case False
    with Cons show ?thesis by simp
  qed
qed simp

lemma put_buffer_update [simp]:
  "put_buffer x (q\<lparr>first_free_descriptor := f\<rparr>) = (put_buffer x q)\<lparr>first_free_descriptor := f\<rparr>"
  "put_buffer x (q\<lparr>num_free_descriptors := n\<rparr>) = (put_buffer x q)\<lparr>num_free_descriptors := n\<rparr>"
  by (cases x; simp add: set_descriptor_def descriptor_at_def)+

lemma fold_put_buffer_update [simp]:
  "fold put_buffer xs (q\<lparr>first_free_descriptor := f\<rparr>) = (fold put_buffer xs q)\<lparr>first_free_descriptor := f\<rparr>"
  "fold put_buffer xs (q\<lparr>num_free_descriptors := n\<rparr>) = (fold put_buffer xs q)\<lparr>num_free_descriptors := n\<rparr>"
  by (induction xs arbitrary: q) simp_all

lemma transfer_buffers_step:
  assumes "free_ok q (i # fs)" and "unat i < queue_size q"
  shows "transfer_buffers q l (b # bs) =
    transfer_buffers ((put_buffer (i, b) q)
      \<lparr>first_free_descriptor := (if fs = [] then i else hd fs), num_free_descriptors := length fs\<rparr>) (Some i) bs"
proof -
  have q: "first_free_descriptor q = i" "num_free_descriptors q = Suc (length fs)"
    "buffer_associated_data q ! unat i = None"
    using assms(1) by (auto simp: free_ok_def)
  have upd: "x\<lparr>first_free_descriptor := i\<rparr> = x" if "first_free_descriptor x = i" for x :: "'a virt_queue"
    using that by (cases x) simp
  have "next_of (descriptor_table q ! unat i) = (if fs = [] then None else Some (hd fs))"
    using assms(1) by (intro linked_next) (simp add: free_ok_def)
  then have "next_of (descriptor_at (put_buffer (i, b) q) i) = (if fs = [] then None else Some (hd fs))"
    by (simp only: descriptor_at_def next_of_put_buffer)
  then show ?thesis
    using assms(2) q by (cases fs) (simp_all add: Let_def descriptor_at_def set_descriptor_def upd)
qed

lemma free_ok_put_buffer:
  assumes "free_ok q (i # fs)" and "distinct (i # fs)"
  shows "free_ok ((put_buffer (i, b) q)
      \<lparr>first_free_descriptor := (if fs = [] then i else hd fs), num_free_descriptors := length fs\<rparr>) fs"
proof -
  have "linked (descriptor_table (put_buffer (i, b) q)) fs"
    using assms(1) linked_cong [of fs "descriptor_table (put_buffer (i, b) q)" "descriptor_table q"]
    by (auto simp: free_ok_def simp del: put_buffer.simps dest: linked_tl)
  moreover have "buffer_associated_data (put_buffer (i, b) q) ! unat j = None" if "j \<in> set fs" for j
  proof -
    have "i \<noteq> j" using that assms(2) by auto
    with that assms(1) show ?thesis by (simp add: free_ok_def)
  qed
  ultimately show ?thesis by (auto simp: free_ok_def simp del: put_buffer.simps)
qed

lemma transfer_buffers_ok:
  assumes "free_ok q fs" and "distinct fs" and "\<forall>i\<in>set fs. unat i < queue_size q" and "length bs \<le> length fs"
  shows "\<exists>f. transfer_buffers q l bs =
      Ok (if bs = [] then l else Some (last (take (length bs) fs)),
          (fold put_buffer (zip fs bs) q)
            \<lparr>first_free_descriptor := f, num_free_descriptors := length fs - length bs\<rparr>)
    \<and> (drop (length bs) fs \<noteq> [] \<longrightarrow> f = hd (drop (length bs) fs))"
  using assms
proof (induction bs arbitrary: q fs l)
  case Nil
  then show ?case by (intro exI [of _ "first_free_descriptor q"]) (cases q, auto simp: free_ok_def)
next
  case (Cons b bs)
  then obtain i fs' where fs: "fs = i # fs'" by (cases fs) auto
  let ?q = "(put_buffer (i, b) q)
      \<lparr>first_free_descriptor := (if fs' = [] then i else hd fs'), num_free_descriptors := length fs'\<rparr>"
  have "free_ok ?q fs'" using free_ok_put_buffer Cons.prems fs by blast
  then obtain f where f: "transfer_buffers ?q (Some i) bs =
      Ok (if bs = [] then Some i else Some (last (take (length bs) fs')),
          (fold put_buffer (zip fs' bs) ?q)
            \<lparr>first_free_descriptor := f, num_free_descriptors := length fs' - length bs\<rparr>)"
    "drop (length bs) fs' \<noteq> [] \<longrightarrow> f = hd (drop (length bs) fs')"
    using Cons.IH [of ?q fs' "Some i"] Cons.prems fs by (auto simp del: put_buffer.simps)
  have "transfer_buffers q l (b # bs) = transfer_buffers ?q (Some i) bs"
    using Cons.prems fs by (intro transfer_buffers_step) auto
  with f(1) have "transfer_buffers q l (b # bs) =
      Ok (if bs = [] then Some i else Some (last (take (length bs) fs')),
          (fold put_buffer (zip fs' bs) ?q)
            \<lparr>first_free_descriptor := f, num_free_descriptors := length fs' - length bs\<rparr>)"
    by simp
  moreover have "bs \<noteq> [] \<Longrightarrow> last (take (length (b # bs)) fs) = last (take (length bs) fs')"
    using fs Cons.prems(4) by (cases fs') auto
  ultimately show ?case
    using f(2) fs by (intro exI [of _ f]) (cases "bs = []"; simp del: put_buffer.simps transfer_buffers.simps)
qed

lemma partition_ok_mset:
  assumes "mset (free_list g @ map fst (in_flight g)) = mset (free_list g' @ map fst (in_flight g'))"
  shows "partition_ok n g = partition_ok n g'"
  using mset_eq_imp_distinct_iff [OF assms] mset_eq_setD [OF assms] unfolding partition_ok_def by simp

lemma request_ok_cong:
  assumes "\<And>i. i \<in> fst ` set r \<Longrightarrow> descriptor_table q' ! unat i = descriptor_table q ! unat i"
    and "\<And>i. i \<in> fst ` set r \<Longrightarrow> buffer_associated_data q' ! unat i = buffer_associated_data q ! unat i"
  shows "request_ok q' r = request_ok q r"
proof -
  have "describes q' x = describes q x" if "x \<in> set r" for x
    using assms that by (force simp: describes_def descriptor_at_def)
  moreover have "linked (descriptor_table q') (map fst r) = linked (descriptor_table q) (map fst r)"
    using assms(1) by (intro linked_cong) simp
  ultimately show ?thesis by (simp add: request_ok_def)
qed

lemma describes_set_next:
  "describes (set_descriptor j (set_next (descriptor_at q j) n) q) x \<longleftrightarrow> describes q x"
  if "unat j < length (descriptor_table q)"
  using that by (cases "unat j = unat (fst x)") (auto simp: describes_def descriptor_at_def set_descriptor_def)

lemma publish_simps [simp]:
  "queue_size (publish i j q) = queue_size q" "used_idx (publish i j q) = used_idx q"
  "used_ring (publish i j q) = used_ring q" "last_used_idx (publish i j q) = last_used_idx q"
  "first_free_descriptor (publish i j q) = first_free_descriptor q"
  "num_free_descriptors (publish i j q) = num_free_descriptors q"
  "buffer_associated_data (publish i j q) = buffer_associated_data q"
  "available_idx (publish i j q) = available_idx q + 1"
  "available_ring (publish i j q) = (available_ring q)[unat (available_idx q) mod queue_size q := i]"
  "descriptor_table (publish i j q) =
    (descriptor_table q)[unat j := set_next (descriptor_table q ! unat j) None]"
  by (simp_all add: publish_def Let_def set_descriptor_def descriptor_at_def ring_index_def)

lemma describes_publish:
  "unat j < length (descriptor_table q) \<Longrightarrow> describes (publish i j q) x \<longleftrightarrow> describes q x"
  using describes_set_next [of j q None x] by (simp add: describes_def descriptor_at_def set_descriptor_def)

text \<open>
  Transferring buffers: as many descriptors leave the free list, in its order, and become a request at the end
  of the waiting ones.
\<close>

definition with_request :: "'a requests \<Rightarrow> 'a buffer list \<Rightarrow> 'a requests" where
  "with_request g bs = g\<lparr>free_list := drop (length bs) (free_list g), waiting := waiting g @ [zip (free_list g) bs]\<rparr>"

lemma new_request_ok:
  fixes f :: u16 and m :: nat
  assumes "vq_ok q g" and "bs \<noteq> []" and "length bs \<le> length (free_list g)"
  defines "n \<equiv> length bs" and "fs \<equiv> free_list g"
  defines "q' \<equiv> publish (hd fs) (last (take n fs))
    ((fold put_buffer (zip fs bs) q)\<lparr>first_free_descriptor := f, num_free_descriptors := m\<rparr>)"
  shows "request_ok q' (zip fs bs)"
    and "i \<notin> set (take n fs) \<Longrightarrow> descriptor_table q' ! unat i = descriptor_table q ! unat i"
    and "i \<notin> set (take n fs) \<Longrightarrow> buffer_associated_data q' ! unat i = buffer_associated_data q ! unat i"
proof -
  let ?p = "fold put_buffer (zip fs bs) q"
  have fs: "distinct fs" "\<forall>i\<in>set fs. unat i < queue_size q" "linked (descriptor_table q) fs"
    "length (descriptor_table q) = queue_size q" "length (buffer_associated_data q) = queue_size q"
    using assms(1) by (auto simp: vq_ok_def partition_ok_def free_ok_def sizes_ok_def fs_def)
  have fst_zip: "map fst (zip fs bs) = take n fs" "fst ` set (zip fs bs) = set (take n fs)"
    by (simp_all add: map_fst_zip_take n_def assms(3) fs_def min_absorb2 flip: set_map)
  have ne: "take n fs \<noteq> []" using assms(2,3) by (auto simp: n_def fs_def)
  have lst: "last (take n fs) \<in> set (take n fs)" using ne by (rule last_in_set)
  then have last_ok: "unat (last (take n fs)) < queue_size q" using fs(2) by (meson in_set_takeD)
  have "linked (descriptor_table ?p) (take n fs @ drop n fs)"
    using fs(3) linked_cong [of fs "descriptor_table ?p" "descriptor_table q"] by simp
  from linked_unlink [OF this ne] have "linked (descriptor_table q') (take n fs)"
    using fs(1,4) last_ok by (simp add: q'_def distinct_take)
  moreover have "describes q' x" if "x \<in> set (zip fs bs)" for x
  proof -
    have "\<forall>x\<in>set (zip fs bs). unat (fst x) < queue_size q" using fs(2) by (auto dest: set_zip_leftD)
    then have "describes ?p x"
      using that fs by (intro describes_fold_put_buffer) (simp_all add: fst_zip distinct_take)
    then have "describes (?p\<lparr>first_free_descriptor := f, num_free_descriptors := m\<rparr>) x"
      by (simp add: describes_def descriptor_at_def)
    then show ?thesis using last_ok fs(4) by (simp add: q'_def describes_publish)
  qed
  moreover have "zip fs bs \<noteq> []" using ne assms(2) by auto
  ultimately show "request_ok q' (zip fs bs)" by (simp add: request_ok_def fst_zip)
  assume i: "i \<notin> set (take n fs)"
  then have "i \<noteq> last (take n fs)" using lst by auto
  with i show "descriptor_table q' ! unat i = descriptor_table q ! unat i"
    "buffer_associated_data q' ! unat i = buffer_associated_data q ! unat i"
    using fold_put_buffer_other [of i "zip fs bs" q] by (simp_all add: q'_def fst_zip)
qed

lemma transfer_ok:
  assumes "vq_ok q g" and "bs \<noteq> []" and "length bs \<le> length (free_list g)"
  shows "\<exists>q'. transfer q bs = Ok q' \<and> vq_ok q' (with_request g bs)"
proof -
  let ?fs = "free_list g" let ?n = "length bs" let ?g = "with_request g bs"
  have q: "free_ok q ?fs" "distinct ?fs" "\<forall>i\<in>set ?fs. unat i < queue_size q" "sizes_ok q"
    "partition_ok (queue_size q) g" "rings_ok q g" "\<forall>r\<in>set (all_requests g). request_ok q r"
    using assms(1) by (auto simp: vq_ok_def partition_ok_def)
  obtain f where f: "transfer_buffers q None bs = Ok (Some (last (take ?n ?fs)),
      (fold put_buffer (zip ?fs bs) q)\<lparr>first_free_descriptor := f, num_free_descriptors := length ?fs - ?n\<rparr>)"
    and f_hd: "drop ?n ?fs \<noteq> [] \<longrightarrow> f = hd (drop ?n ?fs)"
    using transfer_buffers_ok [OF q(1-3) assms(3), of None] assms(2) by auto
  define q' where "q' = publish (hd ?fs) (last (take ?n ?fs))
    ((fold put_buffer (zip ?fs bs) q)\<lparr>first_free_descriptor := f, num_free_descriptors := length ?fs - ?n\<rparr>)"
  note new = new_request_ok [OF assms, where f = f and m = "length ?fs - ?n", folded q'_def]
  have "?fs \<noteq> []" using assms(2,3) by auto
  have "transfer q bs = Ok q'"
    using q(1) assms(3) f \<open>?fs \<noteq> []\<close> by (simp add: transfer_def free_ok_def q'_def)
  moreover have "sizes_ok q'" using q(4) by (simp add: sizes_ok_def q'_def)
  moreover have "partition_ok (queue_size q') ?g"
  proof -
    have "mset (take ?n ?fs) + mset (drop ?n ?fs) = mset ?fs" by (metis append_take_drop_id mset_append)
    then have "mset (free_list ?g @ map fst (in_flight ?g)) = mset (?fs @ map fst (in_flight g))"
      using assms(3) by (simp add: with_request_def in_flight_def all_requests_def map_fst_zip_take min_absorb2
          ac_simps flip: mset_map)
    from partition_ok_mset [OF this] q(5) show ?thesis by (simp add: q'_def)
  qed
  moreover have "free_ok q' (drop ?n ?fs)"
  proof -
    have other: "i \<notin> set (take ?n ?fs)" if "i \<in> set (drop ?n ?fs)" for i
      using that q(2) by (metis append_take_drop_id disjoint_iff distinct_append)
    have "linked (descriptor_table q') (drop ?n ?fs)"
      using linked_cong [of "drop ?n ?fs" "descriptor_table q'" "descriptor_table q"] new(2) other q(1)
      by (simp add: free_ok_def linked_drop)
    then show ?thesis
      using q(1) f_hd new(3) other by (auto simp: free_ok_def q'_def dest: in_set_dropD)
  qed
  moreover have "request_ok q' r" if "r \<in> set (all_requests g)" for r
  proof -
    have "fst ` set r \<inter> set ?fs = {}"
      using q(5) that by (auto simp: partition_ok_def in_flight_def)
    then have "i \<notin> set (take ?n ?fs)" if "i \<in> fst ` set r" for i using that by (auto dest: in_set_takeD)
    then have "request_ok q' r = request_ok q r" using new(2,3) by (intro request_ok_cong) auto
    with q(7) that show ?thesis by blast
  qed
  moreover have "rings_ok q' ?g"
  proof -
    have "length (waiting g) < queue_size q" using requests_bound [OF assms(1)] \<open>?fs \<noteq> []\<close> by (cases ?fs) auto
    then have "ring_holds (available_ring q') (queue_size q) (available_idx q - word_of_nat (length (waiting g)))
        (map (\<lambda>r. fst (hd r)) (waiting g) @ [hd ?fs])"
      using q(4,6) ring_holds_snoc [of "available_ring q" "queue_size q"
          "available_idx q - word_of_nat (length (waiting g))" "map (\<lambda>r. fst (hd r)) (waiting g)" "hd ?fs"]
      by (simp add: rings_ok_def sizes_ok_def q'_def)
    moreover have "fst (hd (zip ?fs bs)) = hd ?fs" using \<open>?fs \<noteq> []\<close> assms(2) by (cases ?fs; cases bs) auto
    ultimately show ?thesis using q(6) by (simp add: rings_ok_def with_request_def q'_def)
  qed
  ultimately show ?thesis
    using new(1) by (intro exI [of _ q'] conjI) (auto simp: vq_ok_def with_request_def all_requests_def)
qed

lemma transfer_nothing: "transfer q [] = Ok q"
  by (simp add: transfer_def)

lemma transfer_refused: "free_ok q fs \<Longrightarrow> length fs < length bs \<Longrightarrow> transfer q bs = Err bs"
  by (simp add: transfer_def free_ok_def)

subsection \<open>Collection\<close>

abbreviation request_data :: "'a request \<Rightarrow> 'a list" where
  "request_data r \<equiv> map (\<lambda>x. associated_data (snd x)) r"

text \<open>Of \<open>q\<close>, only the free list and the descriptors \<open>is\<close> have changed.\<close>

definition frees :: "u16 list \<Rightarrow> 'a virt_queue \<Rightarrow> 'a virt_queue \<Rightarrow> bool" where
  "frees is q q' \<longleftrightarrow>
     (\<exists>tab data f n. q' = q\<lparr>descriptor_table := tab, buffer_associated_data := data,
         first_free_descriptor := f, num_free_descriptors := n\<rparr>
       \<and> length tab = length (descriptor_table q) \<and> length data = length (buffer_associated_data q)
       \<and> (\<forall>i. i \<notin> set is \<longrightarrow> tab ! unat i = descriptor_table q ! unat i
                \<and> data ! unat i = buffer_associated_data q ! unat i))"

lemma frees_trans:
  assumes "frees is q1 q2" and "frees js q2 q3" and "set ks = set is \<union> set js"
  shows "frees ks q1 q3"
proof -
  obtain tab data f n where q2: "q2 = q1\<lparr>descriptor_table := tab, buffer_associated_data := data,
         first_free_descriptor := f, num_free_descriptors := n\<rparr>"
    "length tab = length (descriptor_table q1)" "length data = length (buffer_associated_data q1)"
    "\<forall>i. i \<notin> set is \<longrightarrow> tab ! unat i = descriptor_table q1 ! unat i
                \<and> data ! unat i = buffer_associated_data q1 ! unat i"
    using assms(1) by (auto simp: frees_def)
  obtain tab' data' f' n' where q3: "q3 = q2\<lparr>descriptor_table := tab', buffer_associated_data := data',
         first_free_descriptor := f', num_free_descriptors := n'\<rparr>"
    "length tab' = length (descriptor_table q2)" "length data' = length (buffer_associated_data q2)"
    "\<forall>i. i \<notin> set js \<longrightarrow> tab' ! unat i = descriptor_table q2 ! unat i
                \<and> data' ! unat i = buffer_associated_data q2 ! unat i"
    using assms(2) by (auto simp: frees_def)
  show ?thesis
    unfolding frees_def using q2 q3 assms(3)
    by (intro exI [of _ tab'] exI [of _ data'] exI [of _ f'] exI [of _ n']) auto
qed

definition free_one :: "u16 \<Rightarrow> 'a virt_queue \<Rightarrow> 'a virt_queue" where
  "free_one i q =
     (set_descriptor i (set_next (descriptor_at q i)
        (if num_free_descriptors q = 0 then None else Some (first_free_descriptor q))) q)
       \<lparr>first_free_descriptor := i, num_free_descriptors := num_free_descriptors q + 1,
        buffer_associated_data := (buffer_associated_data q)[unat i := None]\<rparr>"

lemma free_chain_step:
  assumes "unat i < length (buffer_associated_data q)" and "buffer_associated_data q ! unat i = Some a"
  shows "free_chain q i = (case next_of (descriptor_at q i) of
      None \<Rightarrow> Ok ([a], free_one i q)
    | Some j \<Rightarrow> try_then (free_chain (free_one i q) j) (\<lambda>(as, q'). Ok (a # as, q')))"
  by (subst free_chain.simps) (use assms in \<open>simp add: free_one_def Let_def split: option.split\<close>)

lemma frees_free_one: "frees [i] q (free_one i q)"
  unfolding frees_def free_one_def set_descriptor_def
  by (intro exI [of _ "(descriptor_table q)[unat i := set_next (descriptor_at q i)
        (if num_free_descriptors q = 0 then None else Some (first_free_descriptor q))]"]
      exI [of _ "(buffer_associated_data q)[unat i := None]"] exI [of _ i]
      exI [of _ "num_free_descriptors q + 1"]) auto

lemma free_ok_free_one:
  assumes "free_ok q fs" and "i \<notin> set fs" and "unat i < length (descriptor_table q)"
    and "unat i < length (buffer_associated_data q)"
  shows "free_ok (free_one i q) (i # fs)"
proof -
  let ?tab = "descriptor_table (free_one i q)"
  have "?tab ! unat j = descriptor_table q ! unat j" if "j \<in> set fs" for j
  proof -
    have "i \<noteq> j" using that assms(2) by auto
    then show ?thesis by (simp add: free_one_def set_descriptor_def)
  qed
  then have "linked ?tab fs"
    using assms(1) linked_cong [of fs ?tab "descriptor_table q"] by (simp add: free_ok_def)
  moreover have "next_of (?tab ! unat i) = (if fs = [] then None else Some (hd fs))"
    using assms(1,3) by (auto simp: free_ok_def free_one_def set_descriptor_def)
  ultimately have "linked ?tab (i # fs)" by (rule linked_Cons [rotated])
  moreover have "buffer_associated_data (free_one i q) ! unat j = None" if "j \<in> set fs" for j
  proof -
    have "i \<noteq> j" using that assms(2) by auto
    with that assms(1) show ?thesis by (simp add: free_ok_def free_one_def)
  qed
  ultimately show ?thesis
    using assms(1,4) by (auto simp: free_ok_def) (simp_all add: free_one_def)
qed

lemma free_chain_ok:
  assumes "free_ok q fs" and "linked (descriptor_table q) (map fst r)" and "r \<noteq> []"
    and "distinct (map fst r @ fs)"
    and "\<forall>x\<in>set r. unat (fst x) < length (descriptor_table q) \<and> unat (fst x) < length (buffer_associated_data q)
            \<and> buffer_associated_data q ! unat (fst x) = Some (associated_data (snd x))"
  shows "\<exists>q'. free_chain q (fst (hd r)) = Ok (request_data r, q')
    \<and> free_ok q' (rev (map fst r) @ fs) \<and> frees (map fst r) q q'"
  using assms
proof (induction r arbitrary: q fs)
  case (Cons x r)
  obtain i b where x: "x = (i, b)" by (cases x)
  have i: "unat i < length (descriptor_table q)" "unat i < length (buffer_associated_data q)"
    "buffer_associated_data q ! unat i = Some (associated_data b)" "i \<notin> set fs"
    using Cons.prems x by auto
  note step = free_chain_step [OF i(2,3)]
  let ?q = "free_one i q"
  have ok: "free_ok ?q (i # fs)" using Cons.prems(1) i by (intro free_ok_free_one) auto
  have nxt: "next_of (descriptor_at q i) = (if r = [] then None else Some (fst (hd r)))"
    using Cons.prems(2) x linked_next [of "descriptor_table q" i "map fst r"]
    by (auto simp: descriptor_at_def hd_map)
  show ?case
  proof (cases "r = []")
    case True
    with step nxt ok x show ?thesis by (auto intro!: frees_free_one)
  next
    case False
    have tab: "descriptor_table ?q ! unat j = descriptor_table q ! unat j"
      "buffer_associated_data ?q ! unat j = buffer_associated_data q ! unat j" if "j \<in> fst ` set r" for j
    proof -
      have "i \<noteq> j" using that Cons.prems(4) x by auto
      then show "descriptor_table ?q ! unat j = descriptor_table q ! unat j"
        "buffer_associated_data ?q ! unat j = buffer_associated_data q ! unat j"
        by (simp_all add: free_one_def set_descriptor_def)
    qed
    have "linked (descriptor_table ?q) (map fst r)"
      using Cons.prems(2) linked_cong [of "map fst r" "descriptor_table ?q" "descriptor_table q"] tab
      by (auto dest: linked_tl)
    moreover have "\<forall>y\<in>set r. unat (fst y) < length (descriptor_table ?q)
        \<and> unat (fst y) < length (buffer_associated_data ?q)
        \<and> buffer_associated_data ?q ! unat (fst y) = Some (associated_data (snd y))"
      using Cons.prems(5) tab by (auto simp: free_one_def set_descriptor_def)
    moreover have "distinct (map fst r @ i # fs)" using Cons.prems(4) x by auto
    ultimately obtain q' where q': "free_chain ?q (fst (hd r)) = Ok (request_data r, q')"
      "free_ok q' (rev (map fst r) @ i # fs)" "frees (map fst r) ?q q'"
      using Cons.IH [OF ok _ False] by blast
    with step nxt False x show ?thesis
      using frees_trans [OF frees_free_one q'(3), of "map fst (x # r)"] by auto
  qed
qed simp

lemma frees_simps:
  assumes "frees is q q'"
  shows "queue_size q' = queue_size q" and "available_idx q' = available_idx q"
    and "available_ring q' = available_ring q" and "used_idx q' = used_idx q" and "used_ring q' = used_ring q"
    and "last_used_idx q' = last_used_idx q" and "length (descriptor_table q') = length (descriptor_table q)"
    and "length (buffer_associated_data q') = length (buffer_associated_data q)"
    and "i \<notin> set is \<Longrightarrow> descriptor_table q' ! unat i = descriptor_table q ! unat i"
    and "i \<notin> set is \<Longrightarrow> buffer_associated_data q' ! unat i = buffer_associated_data q ! unat i"
  using assms by (auto simp: frees_def)

definition without_completed :: "'a requests \<Rightarrow> 'a requests" where
  "without_completed g =
     g\<lparr>free_list := rev (map fst (hd (completed g))) @ free_list g, completed := tl (completed g)\<rparr>"

lemma ucast_u32_u16: "ucast (ucast (i :: u16) :: u32) = i"
  by (rule bit_eqI) (auto simp: bit_simps)

text \<open>One used element: its descriptors return to the free list, and all of its data are handed out.\<close>

lemma collect_one_ok:
  assumes "vq_ok q g" and "completed g = r # rs"
  shows "\<exists>q'. collect_one q = Ok (request_data r, q') \<and> vq_ok q' (without_completed g)"
proof -
  let ?q = "q\<lparr>last_used_idx := last_used_idx q + 1\<rparr>" let ?g = "without_completed g"
  have r: "r \<in> set (all_requests g)" using assms(2) by (simp add: all_requests_def)
  have q: "sizes_ok q" "partition_ok (queue_size q) g" "free_ok q (free_list g)" "rings_ok q g"
    "\<forall>r\<in>set (all_requests g). request_ok q r" "request_ok q r"
    using assms(1) r by (auto simp: vq_ok_def)
  have inf: "distinct (map fst (in_flight g) @ free_list g)" "\<forall>x\<in>set (in_flight g). unat (fst x) < queue_size q"
    using q(2) by (auto simp: partition_ok_def)
  have "mset (in_flight g) = mset (concat (waiting g @ taken g @ rs)) + mset r"
    by (simp add: in_flight_def all_requests_def assms(2))
  then have "mset (map fst (in_flight g)) = mset (map fst (concat (waiting g @ taken g @ rs)) @ map fst r)"
    by (simp only: mset_map image_mset_union mset_append)
  from mset_eq_imp_distinct_iff [OF this]
  have split: "distinct (map fst (concat (waiting g @ taken g @ rs)) @ map fst r)"
    using inf(1) by (simp only: distinct_append)
  have "set (map fst r) \<subseteq> set (map fst (in_flight g))" using r by (auto simp: in_flight_def)
  then have "distinct (map fst r @ free_list g)"
    using inf(1) split by (simp only: distinct_append) blast
  moreover have "free_ok ?q (free_list g)" using q(3) by (simp add: free_ok_def)
  moreover have "\<forall>x\<in>set r. unat (fst x) < length (descriptor_table ?q)
      \<and> unat (fst x) < length (buffer_associated_data ?q)
      \<and> buffer_associated_data ?q ! unat (fst x) = Some (associated_data (snd x))"
    using q(1,6) inf(2) r by (auto simp: sizes_ok_def request_ok_def describes_def in_flight_def)
  moreover have "linked (descriptor_table ?q) (map fst r)" "r \<noteq> []" using q(6) by (simp_all add: request_ok_def)
  ultimately obtain q' where q': "free_chain ?q (fst (hd r)) = Ok (request_data r, q')"
    "free_ok q' (rev (map fst r) @ free_list g)" "frees (map fst r) ?q q'"
    using free_chain_ok [of ?q "free_list g" r] by blast
  note same = frees_simps [OF q'(3)]
  have "used_ring q ! ring_index q (last_used_idx q) = ucast (fst (hd r))"
    using q(4) assms(2) by (auto simp: rings_ok_def ring_index_def dest: ring_holds_hd)
  then have "collect_one q = Ok (request_data r, q')"
    using q(1) q'(1) by (simp add: collect_one_def sizes_ok_def ucast_u32_u16)
  moreover have "sizes_ok q'" using q(1) by (simp add: sizes_ok_def same)
  moreover have "partition_ok (queue_size q') ?g"
  proof -
    have "mset (free_list ?g @ map fst (in_flight ?g)) = mset (free_list g @ map fst (in_flight g))"
      by (simp add: without_completed_def in_flight_def all_requests_def assms(2) ac_simps)
    from partition_ok_mset [OF this] q(2) show ?thesis by (simp add: same)
  qed
  moreover have "request_ok q' r'" if "r' \<in> set (all_requests ?g)" for r'
  proof -
    have "set (map fst r') \<subseteq> set (map fst (concat (waiting g @ taken g @ rs)))"
      using that by (auto simp: without_completed_def all_requests_def assms(2))
    moreover have "set (map fst (concat (waiting g @ taken g @ rs))) \<inter> set (map fst r) = {}"
      using split by (simp only: distinct_append)
    ultimately have "i \<notin> set (map fst r)" if "i \<in> set (map fst r')" for i
      using that by blast
    then have "request_ok q' r' = request_ok ?q r'" using same(9,10) by (intro request_ok_cong) auto
    moreover have "request_ok ?q r' = request_ok q r'" by (intro request_ok_cong) auto
    ultimately show ?thesis
      using q(5) that by (auto simp: without_completed_def all_requests_def assms(2))
  qed
  moreover have "rings_ok q' ?g"
    using q(4) by (auto simp: rings_ok_def without_completed_def same assms(2) intro: ring_holds_tl)
  ultimately show ?thesis
    using q'(2) by (intro exI [of _ q']) (auto simp: vq_ok_def without_completed_def assms(2))
qed

definition all_collected :: "'a requests \<Rightarrow> 'a requests" where
  "all_collected g = g\<lparr>free_list := rev (map fst (concat (completed g))) @ free_list g, completed := []\<rparr>"

lemma used_idx_eq_iff:
  assumes "vq_ok q g"
  shows "last_used_idx q = used_idx q \<longleftrightarrow> completed g = []"
proof -
  have "length (completed g) < 65536"
    using requests_bound [OF assms] assms by (auto simp: vq_ok_def sizes_ok_def)
  then have "(word_of_nat (length (completed g)) :: u16) = 0 \<longleftrightarrow> completed g = []"
    by (auto simp: word_of_nat_eq_0_iff dest: nat_dvd_not_less)
  moreover have "used_idx q = last_used_idx q + word_of_nat (length (completed g))"
    using assms by (simp add: vq_ok_def rings_ok_def)
  ultimately show ?thesis by simp
qed

lemma collect_ok:
  assumes "vq_ok q g"
  shows "\<exists>q'. collect q = Ok (request_data (concat (completed g)), q') \<and> vq_ok q' (all_collected g)"
  using assms
proof (induction "completed g" arbitrary: q g)
  case Nil
  then have "all_collected g = g" by (cases g) (simp add: all_collected_def)
  with Nil used_idx_eq_iff [OF Nil.prems] show ?case by (subst collect.simps) auto
next
  case (Cons r rs)
  obtain q1 where q1: "collect_one q = Ok (request_data r, q1)" "vq_ok q1 (without_completed g)"
    using collect_one_ok [OF Cons.prems Cons.hyps(2) [symmetric]] by blast
  have rs: "rs = completed (without_completed g)" using Cons.hyps(2) [symmetric] by (simp add: without_completed_def)
  obtain q2 where "collect q1 = Ok (request_data (concat rs), q2)" "vq_ok q2 (all_collected (without_completed g))"
    using Cons.hyps(1) [OF rs q1(2)] rs by auto
  moreover have "all_collected (without_completed g) = all_collected g"
    using Cons.hyps(2) [symmetric] by (simp add: all_collected_def without_completed_def)
  moreover have "last_used_idx q \<noteq> used_idx q" using used_idx_eq_iff [OF Cons.prems] Cons.hyps(2) by auto
  ultimately show ?case
    using q1(1) Cons.hyps(2) [symmetric] by (subst collect.simps) auto
qed

section \<open>Driver and device together\<close>

text \<open>
  The device takes requests from the available ring in order and completes the ones it has taken in any
  order, as the specification of the legacy interface allows.
\<close>

definition device_take :: "'a requests \<Rightarrow> 'a requests" where
  "device_take g = g\<lparr>waiting := tl (waiting g), taken := taken g @ [hd (waiting g)]\<rparr>"

definition device_complete :: "u16 \<Rightarrow> 'a virt_queue \<Rightarrow> 'a virt_queue" where
  "device_complete i q =
     q\<lparr>used_ring := (used_ring q)[ring_index q (used_idx q) := ucast i], used_idx := used_idx q + 1\<rparr>"

definition complete_request :: "'a request \<Rightarrow> 'a requests \<Rightarrow> 'a requests" where
  "complete_request r g = g\<lparr>taken := remove1 r (taken g), completed := completed g @ [r]\<rparr>"

lemma device_take_ok:
  assumes "vq_ok q g" and "waiting g \<noteq> []"
  shows "vq_ok q (device_take g)"
proof -
  obtain r rs where w: "waiting g = r # rs" using assms(2) by (cases "waiting g") auto
  have "mset (free_list (device_take g) @ map fst (in_flight (device_take g))) =
      mset (free_list g @ map fst (in_flight g))"
    by (simp add: device_take_def in_flight_def all_requests_def w ac_simps)
  moreover have "set (all_requests (device_take g)) = set (all_requests g)"
    by (auto simp: device_take_def all_requests_def w)
  moreover have "available_idx q - word_of_nat (length rs)
      = available_idx q - word_of_nat (length (waiting g)) + 1"
    by (simp add: w)
  then have "rings_ok q (device_take g)"
    using assms(1) by (auto simp: vq_ok_def rings_ok_def device_take_def w dest: ring_holds_tl)
  ultimately show ?thesis
    using assms(1) partition_ok_mset [of "device_take g" g]
    by (auto simp: vq_ok_def) (simp add: device_take_def)
qed

lemma device_complete_ok:
  assumes "vq_ok q g" and "r \<in> set (taken g)"
  shows "vq_ok (device_complete (fst (hd r)) q) (complete_request r g)"
proof -
  let ?q = "device_complete (fst (hd r)) q" let ?g = "complete_request r g"
  have perm: "mset (all_requests ?g) = mset (all_requests g)"
    using assms(2) by (simp add: complete_request_def all_requests_def)
  then have "mset (concat (all_requests ?g)) = mset (concat (all_requests g))"
    by (metis mset_concat mset_map sum_mset_sum_list)
  then have "mset (map fst (in_flight ?g)) = mset (map fst (in_flight g))"
    by (simp add: in_flight_def)
  then have "partition_ok (queue_size q) ?g"
    using assms(1) partition_ok_mset [of ?g g] by (simp add: vq_ok_def complete_request_def)
  moreover have "request_ok ?q r' = request_ok q r'" for r'
    by (intro request_ok_cong) (simp_all add: device_complete_def)
  moreover have "rings_ok ?q ?g"
  proof -
    have "0 < length (taken g)" using assms(2) by (cases "taken g") auto
    then have "length (completed g) < queue_size q" using requests_bound [OF assms(1)] by linarith
    then show ?thesis
      using assms(1) ring_holds_snoc [of "used_ring q" "queue_size q" "last_used_idx q"
          "map (\<lambda>r. ucast (fst (hd r))) (completed g)" "ucast (fst (hd r))"]
      by (simp add: rings_ok_def vq_ok_def sizes_ok_def device_complete_def complete_request_def ring_index_def)
  qed
  moreover have "set (all_requests ?g) = set (all_requests g)" using perm by (rule mset_eq_setD)
  ultimately show ?thesis
    using assms(1) by (simp add: vq_ok_def sizes_ok_def free_ok_def)
      (simp add: device_complete_def complete_request_def)
qed

definition initial_requests :: "nat \<Rightarrow> 'a requests" where
  "initial_requests sz = \<lparr>free_list = map word_of_nat [0..<sz], waiting = [], taken = [], completed = []\<rparr>"

inductive vq_reach :: "'a virt_queue \<Rightarrow> 'a requests \<Rightarrow> bool" where
  start: "0 < sz \<Longrightarrow> sz \<le> 32768 \<Longrightarrow> sz dvd 65536 \<Longrightarrow>
    vq_reach (new_virt_queue sz frame) (initial_requests sz)"
| transfers: "vq_reach q g \<Longrightarrow> bs \<noteq> [] \<Longrightarrow> transfer q bs = Ok q' \<Longrightarrow> vq_reach q' (with_request g bs)"
| takes: "vq_reach q g \<Longrightarrow> waiting g \<noteq> [] \<Longrightarrow> vq_reach q (device_take g)"
| completes: "vq_reach q g \<Longrightarrow> r \<in> set (taken g) \<Longrightarrow>
    vq_reach (device_complete (fst (hd r)) q) (complete_request r g)"
| collects_one: "vq_reach q g \<Longrightarrow> completed g \<noteq> [] \<Longrightarrow> collect_one q = Ok (as, q') \<Longrightarrow>
    vq_reach q' (without_completed g)"
| collects: "vq_reach q g \<Longrightarrow> collect q = Ok (as, q') \<Longrightarrow> vq_reach q' (all_collected g)"

lemma vq_reach_ok: "vq_reach q g \<Longrightarrow> vq_ok q g"
proof (induction rule: vq_reach.induct)
  case (start sz frame)
  then show ?case using new_virt_queue_ok by (simp add: initial_requests_def)
next
  case (transfers q g bs q')
  have "length bs \<le> length (free_list g)"
    using transfers transfer_refused [of q "free_list g" bs] by (auto simp: vq_ok_def not_less [symmetric])
  with transfers transfer_ok [of q g bs] show ?case by auto
next
  case (takes q g)
  then show ?case by (simp add: device_take_ok)
next
  case (completes q g r)
  then show ?case by (simp add: device_complete_ok)
next
  case (collects_one q g as q')
  then obtain r rs where "completed g = r # rs" by (cases "completed g") auto
  with collects_one collect_one_ok [of q g r rs] show ?case by auto
next
  case (collects q g as q')
  with collect_ok [of q g] show ?case by auto
qed

text \<open>
  C6: In every state that driver and device reach together, each descriptor is free or belongs to one request,
  and neither \<open>transfer\<close> nor \<open>collect\<close> panics: a transfer succeeds exactly when there are enough free
  descriptors, and a collection hands out exactly the data of the completed requests, in the order of
  their completion.
\<close>

theorem virt_queue_safe:
  assumes "vq_reach q g"
  shows "vq_ok q g
    \<and> (length (free_list g) < length bs \<longrightarrow> transfer q bs = Err bs)
    \<and> (bs \<noteq> [] \<and> length bs \<le> length (free_list g) \<longrightarrow>
        (\<exists>q'. transfer q bs = Ok q' \<and> vq_ok q' (with_request g bs)))
    \<and> (\<exists>q'. collect q = Ok (request_data (concat (completed g)), q') \<and> vq_ok q' (all_collected g))"
proof -
  have ok: "vq_ok q g" using assms by (rule vq_reach_ok)
  then have "free_ok q (free_list g)" by (simp add: vq_ok_def)
  then have "length (free_list g) < length bs \<longrightarrow> transfer q bs = Err bs" by (simp add: transfer_refused)
  with ok transfer_ok [OF ok] collect_ok [OF ok] show ?thesis by blast
qed

definition sample_buffers :: "nat buffer list" where
  "sample_buffers =
     [\<lparr>buf_addr = 0x1000, buf_len = 16, buf_write = False, associated_data = 10\<rparr>,
      \<lparr>buf_addr = 0x2000, buf_len = 512, buf_write = True, associated_data = 11\<rparr>,
      \<lparr>buf_addr = 0x1010, buf_len = 1, buf_write = True, associated_data = 12\<rparr>]"

lemma sample_reach:
  "\<exists>q g. vq_reach q g \<and> length (free_list g) = 1 \<and> map request_data (completed g) = [[10, 11, 12 :: nat]]"
proof -
  let ?q = "new_virt_queue 4 7 :: nat virt_queue" let ?g = "initial_requests 4 :: nat requests"
  have r0: "vq_reach ?q ?g" by (rule start) simp_all
  have sz: "sample_buffers \<noteq> []" "length sample_buffers \<le> length (free_list ?g)"
    by (simp_all add: sample_buffers_def initial_requests_def)
  then obtain q1 where q1: "transfer ?q sample_buffers = Ok q1" using transfer_ok [OF vq_reach_ok [OF r0]] by blast
  let ?g1 = "with_request ?g sample_buffers" let ?r = "zip (map word_of_nat [0..<4]) sample_buffers"
  have "vq_reach q1 ?g1" using r0 sz(1) q1 by (rule transfers)
  then have "vq_reach q1 (device_take ?g1)"
    by (rule takes) (simp add: with_request_def initial_requests_def)
  then have "vq_reach (device_complete (fst (hd ?r)) q1) (complete_request ?r (device_take ?g1))"
    by (rule completes) (simp add: device_take_def with_request_def initial_requests_def)
  moreover have "length (free_list (complete_request ?r (device_take ?g1))) = 1"
    "map request_data (completed (complete_request ?r (device_take ?g1))) = [[10, 11, 12]]"
    by (simp_all add: complete_request_def device_take_def with_request_def initial_requests_def
        sample_buffers_def upt_conv_Cons)
  ultimately show ?thesis by meson
qed

theorem virt_queue_safe_witness:
  "\<exists>q g. vq_ok q g \<and> transfer q (sample_buffers :: nat buffer list) = Err sample_buffers
     \<and> (\<exists>q'. collect q = Ok ([10, 11, 12], q'))"
proof -
  obtain q g where qg: "vq_reach q g" "length (free_list g) = 1" "map request_data (completed g) = [[10, 11, 12 :: nat]]"
    using sample_reach by (elim exE conjE)
  have "request_data (concat (completed g)) = [10, 11, 12]"
    using arg_cong [OF qg(3), of concat] by (simp add: map_concat)
  moreover have "length (free_list g) < length sample_buffers" using qg(2) by (simp add: sample_buffers_def)
  ultimately show ?thesis using virt_queue_safe [OF qg(1), of sample_buffers] by auto
qed

section \<open>The layout in memory\<close>

lemma and_not_mask: "x AND NOT (mask n) = push_bit n (drop_bit n x)" for x :: u64
  by (rule bit_eqI) (auto simp: bit_simps)

lemma unat_align_frame:
  assumes "unat x + 4095 < 2 ^ 64"
  shows "unat (align_frame x) = (unat x + 4095) div 4096 * 4096"
proof -
  have mask: "word_of_nat FRAME_SIZE - 1 = (mask 12 :: u64)" by (simp add: FRAME_SIZE_def mask_eq_exp_minus_1)
  have x: "x + word_of_nat FRAME_SIZE - 1 = x + 4095" by (simp add: FRAME_SIZE_def)
  have ux: "unat (x + 4095) = unat x + 4095" using assms by (simp add: unat_word_ariths)
  have "unat (align_frame x) = take_bit 64 (push_bit 12 (drop_bit 12 (unat x + 4095)))"
    unfolding align_frame_def mask x and_not_mask
    by (simp add: unsigned_push_bit_eq unsigned_drop_bit_eq ux take_bit_nat_eq_self [OF assms])
  also have "push_bit 12 (drop_bit 12 (unat x + 4095)) = (unat x + 4095) div 4096 * 4096"
    by (simp add: push_bit_eq_mult drop_bit_eq_div)
  also have "take_bit 64 \<dots> = \<dots>"
  proof (rule take_bit_nat_eq_self)
    have "(unat x + 4095) div 4096 * 4096 \<le> unat x + 4095" by (rule div_times_less_eq_dividend)
    with assms show "(unat x + 4095) div 4096 * 4096 < 2 ^ 64" by linarith
  qed
  finally show ?thesis .
qed

text \<open>
  C22: The layout of a queue: descriptor table, available ring and used ring do not overlap, the used ring
  starts at a page, the whole fits the frames allocated for it, and less than two frames are wasted.
\<close>

theorem layout_fits:
  assumes "sz \<le> 32768"
  shows "descriptor_table_offset (compute_layout sz) = 0
    \<and> unat (available_ring_offset (compute_layout sz)) = 16 * sz
    \<and> 16 * sz + (6 + 2 * sz) \<le> unat (used_ring_offset (compute_layout sz))
    \<and> FRAME_SIZE dvd unat (used_ring_offset (compute_layout sz))
    \<and> unat (used_ring_offset (compute_layout sz)) + (6 + 8 * sz)
        \<le> unat (num_frames (compute_layout sz)) * FRAME_SIZE
    \<and> unat (num_frames (compute_layout sz)) * FRAME_SIZE < 12 + 26 * sz + 2 * FRAME_SIZE"
proof -
  let ?w = "word_of_nat sz :: u64" let ?x = "16 * ?w + (6 + 2 * ?w)" let ?y = "6 + 8 * ?w"
  have w: "unat ?w = sz" using assms by (simp add: unat_of_nat)
  have t: "unat (16 * ?w) = 16 * sz" using assms w by (simp add: unat_word_ariths)
  have x: "unat ?x = 16 * sz + (6 + 2 * sz)" using assms w by (simp add: unat_word_ariths)
  have y: "unat ?y = 6 + 8 * sz" using assms w by (simp add: unat_word_ariths)
  define a b where "a = (unat ?x + 4095) div 4096" and "b = (unat ?y + 4095) div 4096"
  have a: "unat (align_frame ?x) = a * 4096" "unat ?x \<le> a * 4096" "a * 4096 < unat ?x + 4096"
    using unat_align_frame [of ?x] x assms by (simp_all add: a_def)
  have b: "unat (align_frame ?y) = b * 4096" "unat ?y \<le> b * 4096" "b * 4096 < unat ?y + 4096"
    using unat_align_frame [of ?y] y assms by (simp_all add: b_def)
  have sum: "unat (align_frame ?x + align_frame ?y) = (a + b) * 4096"
    using a b x y assms by (simp add: unat_word_ariths)
  then have "unat ((align_frame ?x + align_frame ?y) div word_of_nat FRAME_SIZE) = a + b"
    by (simp add: unat_div FRAME_SIZE_def)
  then show ?thesis
    using t a b x y by (simp add: compute_layout_def Let_def FRAME_SIZE_def)
qed

theorem layout_fits_witness: "unat (num_frames (compute_layout 256)) = 3"
proof -
  have "(256 :: nat) \<le> 32768" by simp
  from layout_fits [OF this] show ?thesis by (simp add: compute_layout_def Let_def FRAME_SIZE_def align_frame_def)
qed

end
