(* ===== verification/Virtio_Block.thy ===== *)
theory Virtio_Block
  imports Virt_Queue Fat_Low_Level Task_Scheduler Raw_Memory
begin

text \<open>
  The VirtIO block driver, \<open>devices/virtio/block.rs\<close>, and the volume made of a block device,
  \<open>fs/volume/virtio.rs\<close>. The device is a parameter: its ports, and what it does with the memory and the
  queue between the notification and the interrupt. The locale \<open>virtio_block_device\<close> says what the VirtIO
  specification promises of it, and under this promise the volume keeps the contract of the sector cache.

  One request is in flight at a time: the task that makes it blocks until the interrupt handler has collected
  it. The addresses of the header, the footer (both on the stack of the caller) and the buffer are parameters.
\<close>

section \<open>Requests\<close>

datatype block_error = BlockIo | Unsupported | BlockOutOfRange | BlockUnknown

record request_header =
  hdr_ty :: u32
  hdr_reserved :: u32
  hdr_sector :: u64

definition REQUEST_IN :: u32 where
  "REQUEST_IN = 0"

definition REQUEST_OUT :: u32 where
  "REQUEST_OUT = 1"

text \<open>The header in memory (\<open>repr(C)\<close>, little-endian).\<close>

definition header_bytes :: "request_header \<Rightarrow> bytes" where
  "header_bytes h = to_le_bytes 4 (hdr_ty h) @ to_le_bytes 4 (hdr_reserved h) @ to_le_bytes 8 (hdr_sector h)"

text \<open>The status byte of the footer.\<close>

definition into_result :: "u8 \<Rightarrow> (block_error, unit) outcome" where
  "into_result status =
     (if status = 0 then Ok () else if status = 1 then Err BlockIo
      else if status = 2 then Err Unsupported else Err BlockUnknown)"

section \<open>The driver\<close>

record 'd block_device =
  dev_ports :: "'d ports"
  dev_run :: "'d \<Rightarrow> memory \<Rightarrow> int option virt_queue \<Rightarrow> 'd \<times> memory \<times> int option virt_queue"

record 'd block =
  blk_configuration :: configuration
  requestq :: "int option virt_queue"
  blk_memory :: memory
  blk_device :: 'd

record addresses =
  header_addr :: nat
  footer_addr :: nat
  buffer_addr :: nat

definition SECTOR_SIZE :: nat where
  "SECTOR_SIZE = 512"

definition with_device :: "('d, 'e, 'a) io \<Rightarrow> 'd block \<Rightarrow> ('e, 'a) outcome \<times> 'd block" where
  "with_device m b = (let (r, d) = m (blk_device b) in (r, b\<lparr>blk_device := d\<rparr>))"

definition blk_capacity :: "'d block_device \<Rightarrow> 'd block \<Rightarrow> ('e, u64) outcome \<times> 'd block" where
  "blk_capacity D b =
     try_st (with_device (read_device_specific (in32 (dev_ports D)) (blk_configuration b) 0x0) b) (\<lambda>lower b.
     try_st (with_device (read_device_specific (in32 (dev_ports D)) (blk_configuration b) 0x4) b) (\<lambda>upper b.
       (Ok (ucast lower OR push_bit 32 (ucast upper)), b)))"

definition check_capacity ::
    "'d block_device \<Rightarrow> nat \<Rightarrow> nat \<Rightarrow> 'd block \<Rightarrow> (block_error, unit) outcome \<times> 'd block" where
  "check_capacity D sec len b =
     (let num_additional_sectors = (max len 1 - 1) div SECTOR_SIZE
      in if 2 ^ 64 \<le> sec + num_additional_sectors then (Panic, b)
         else try_st (blk_capacity D b) (\<lambda>cap b.
           if sec + num_additional_sectors < unat cap then (Ok (), b) else (Err BlockOutOfRange, b)))"

text \<open>The constructors of \<open>Buffer\<close>: of a value, and of a slice, which must not be empty.\<close>

definition buffer_from_ref :: "nat \<Rightarrow> nat \<Rightarrow> bool \<Rightarrow> 'a \<Rightarrow> 'a buffer option" where
  "buffer_from_ref addr n write a =
     map_option (\<lambda>p. \<lparr>buf_addr = word_of_nat p, buf_len = n, buf_write = write, associated_data = a\<rparr>)
       (as_phys_addr addr)"

definition buffer_from_bytes :: "nat \<Rightarrow> nat \<Rightarrow> bool \<Rightarrow> 'a \<Rightarrow> (block_error, 'a buffer option) outcome" where
  "buffer_from_bytes addr n write a = (if n = 0 then Panic else Ok (buffer_from_ref addr n write a))"

text \<open>
  \<open>request\<close>. When the queue is full the task blocks until requests of others complete; here there are none,
  and it waits forever. After the notification the device runs, its interrupt collects the queue and releases
  the channels of the requests, this one's among them.
\<close>

definition await_completion ::
    "'d block_device \<Rightarrow> nat \<Rightarrow> int \<Rightarrow> 'd block \<Rightarrow> (block_error, unit) outcome \<times> 'd block" where
  "await_completion D footer complete_channel b =
     (let (d, mem, q) = dev_run D (blk_device b) (blk_memory b) (requestq b);
          b' = b\<lparr>blk_device := d, blk_memory := mem, requestq := q\<rparr>
      in case collect q of
           Ok (chans, q') \<Rightarrow>
             (if Some complete_channel \<in> set chans then into_result (mem footer) else Hang,
              b'\<lparr>requestq := q'\<rparr>)
         | Err e \<Rightarrow> (Panic, b')
         | Panic \<Rightarrow> (Panic, b')
         | Hang \<Rightarrow> (Hang, b'))"

definition blk_request ::
    "'d block_device \<Rightarrow> addresses \<Rightarrow> request_header \<Rightarrow> int option buffer \<Rightarrow> 'd block
      \<Rightarrow> (block_error, unit) outcome \<times> 'd block" where
  "blk_request D A header body b0 =
     (let b = b0\<lparr>blk_memory := mem_write (footer_addr A) [0]
                 (mem_write (header_addr A) (header_bytes header) (blk_memory b0))\<rparr>
      in case from_ptr (int (footer_addr A)) of
           Ok complete_channel \<Rightarrow>
             (case (buffer_from_ref (header_addr A) 16 False None,
                    buffer_from_ref (footer_addr A) 1 True (Some complete_channel)) of
                (Some hb, Some fb) \<Rightarrow>
                  (case transfer (requestq b) [hb, body, fb] of
                     Ok q \<Rightarrow>
                       try_st (with_device (set_queue_notify (dev_ports D) (blk_configuration b) 0)
                                (b\<lparr>requestq := q\<rparr>))
                         (\<lambda>_. await_completion D (footer_addr A) complete_channel)
                   | Err _ \<Rightarrow> (Hang, b)
                   | Panic \<Rightarrow> (Panic, b)
                   | Hang \<Rightarrow> (Hang, b))
              | _ \<Rightarrow> (Panic, b))
         | _ \<Rightarrow> (Panic, b))"

text \<open>\<open>Block::read\<close> and \<open>Block::write\<close>, the buffer being in memory at its address.\<close>

definition blk_transfer ::
    "'d block_device \<Rightarrow> addresses \<Rightarrow> u32 \<Rightarrow> bool \<Rightarrow> nat \<Rightarrow> nat \<Rightarrow> 'd block \<Rightarrow> (block_error, unit) outcome \<times> 'd block" where
  "blk_transfer D A ty write sec len b =
     try_st (check_capacity D sec len b) (\<lambda>_ b.
       case buffer_from_bytes (buffer_addr A) len write None of
         Ok (Some body) \<Rightarrow>
           blk_request D A \<lparr>hdr_ty = ty, hdr_reserved = 0, hdr_sector = word_of_nat sec\<rparr> body b
       | _ \<Rightarrow> (Panic, b))"

definition blk_read ::
    "'d block_device \<Rightarrow> addresses \<Rightarrow> nat \<Rightarrow> bytes \<Rightarrow> 'd block \<Rightarrow> (block_error, unit) outcome \<times> bytes \<times> 'd block" where
  "blk_read D A sec buf b =
     (let (r, b') = blk_transfer D A REQUEST_IN True sec (length buf)
            (b\<lparr>blk_memory := mem_write (buffer_addr A) buf (blk_memory b)\<rparr>)
      in (r, mem_read (blk_memory b') (buffer_addr A) (length buf), b'))"

definition blk_write ::
    "'d block_device \<Rightarrow> addresses \<Rightarrow> nat \<Rightarrow> bytes \<Rightarrow> 'd block \<Rightarrow> (block_error, unit) outcome \<times> 'd block" where
  "blk_write D A sec buf b =
     blk_transfer D A REQUEST_OUT False sec (length buf)
       (b\<lparr>blk_memory := mem_write (buffer_addr A) buf (blk_memory b)\<rparr>)"

text \<open>\<open>Block::collect\<close>, the interrupt handler: the channels it releases.\<close>

definition blk_collect :: "int \<Rightarrow> 'd block \<Rightarrow> (unit, int list) outcome \<times> 'd block" where
  "blk_collect queue_wait_channel b = (case collect (requestq b) of
      Ok (chans, q) \<Rightarrow>
        (Ok (concat (map (\<lambda>c. case c of None \<Rightarrow> [] | Some ch \<Rightarrow> [ch]) chans) @ [queue_wait_channel]),
         b\<lparr>requestq := q\<rparr>)
    | Err e \<Rightarrow> (Err e, b)
    | Panic \<Rightarrow> (Panic, b)
    | Hang \<Rightarrow> (Hang, b))"

definition negotiate :: "u32 \<Rightarrow> u32" where
  "negotiate features =
     features AND NOT (push_bit 5 1) AND NOT (push_bit 7 1) AND NOT (push_bit 11 1)
       AND NOT (push_bit 12 1) AND NOT (push_bit 27 1)"

section \<open>The volume\<close>

fun volume_error_kind_from :: "block_error \<Rightarrow> volume_error_kind" where
  "volume_error_kind_from BlockIo = Io"
| "volume_error_kind_from BlockOutOfRange = OutOfRange"
| "volume_error_kind_from _ = UnknownError"

definition volume_error_at :: "nat \<Rightarrow> block_error \<Rightarrow> volume_error" where
  "volume_error_at sec e = \<lparr>err_sector = sec, err_kind = volume_error_kind_from e\<rparr>"

definition virtio_sector_count :: "'d block_device \<Rightarrow> 'd block \<Rightarrow> nat" where
  "virtio_sector_count D b = (case fst (blk_capacity D b) :: (unit, u64) outcome of Ok n \<Rightarrow> unat n | _ \<Rightarrow> 0)"

definition virtio_volume :: "'d block_device \<Rightarrow> addresses \<Rightarrow> 'd block volume_ops" where
  "virtio_volume D A =
     \<lparr>vol_sector_count = virtio_sector_count D,
      vol_sector_size = (\<lambda>b. SECTOR_SIZE),
      vol_read = (\<lambda>b n buf. let (r, buf', b') = blk_read D A n buf b
                            in (map_err (volume_error_at n) r, buf', b')),
      vol_write = (\<lambda>b n bs. let (r, b') = blk_write D A n bs b in (map_err (volume_error_at n) r, b'))\<rparr>"

section \<open>What the device promises\<close>

text \<open>
  The only request of the queue is a chain of a header, a sector and a status byte, and lies at apart
  addresses.
\<close>

definition sector_request :: "int option requests \<Rightarrow> u16 \<Rightarrow> int option buffer \<Rightarrow> int option buffer \<Rightarrow> int option buffer \<Rightarrow> bool" where
  "sector_request g i hb db fb \<longleftrightarrow>
     taken g = [] \<and> completed g = [] \<and> (\<exists>j k. waiting g = [[(i, hb), (j, db), (k, fb)]])
     \<and> buf_len hb = 16 \<and> \<not> buf_write hb \<and> buf_len db = 512 \<and> buf_len fb = 1 \<and> buf_write fb
     \<and> apart (unat (buf_addr hb)) 16 (unat (buf_addr db)) 512
     \<and> apart (unat (buf_addr hb)) 16 (unat (buf_addr fb)) 1
     \<and> apart (unat (buf_addr db)) 512 (unat (buf_addr fb)) 1"

definition addresses_ok :: "addresses \<Rightarrow> bool" where
  "addresses_ok A \<longleftrightarrow>
     header_addr A < 2 ^ 36 \<and> footer_addr A < 2 ^ 36 \<and> buffer_addr A < 2 ^ 36
     \<and> apart (header_addr A) 16 (buffer_addr A) 512
     \<and> apart (header_addr A) 16 (footer_addr A) 1
     \<and> apart (buffer_addr A) 512 (footer_addr A) 1"

locale virtio_block_device =
  fixes D :: "'d block_device" and A :: addresses and c :: configuration
    and dgood :: "'d \<Rightarrow> bool" and disk :: "'d \<Rightarrow> nat \<Rightarrow> bytes" and cap :: nat
  assumes placed: "addresses_ok A"
    and port_range: "unat (cfg_addr c) + 0x20 < 65536"
    and cap_range: "cap < 2 ^ 64"
    and sector_length: "dgood d \<Longrightarrow> n < cap \<Longrightarrow> length (disk d n) = 512"
    and capacity_low: "dgood d \<Longrightarrow>
      \<exists>d'. in32 (dev_ports D) (cfg_addr c + word_of_nat (device_specific_offset c)) d = (word_of_nat cap, d')
        \<and> dgood d' \<and> disk d' = disk d"
    and capacity_high: "dgood d \<Longrightarrow>
      \<exists>d'. in32 (dev_ports D) (cfg_addr c + word_of_nat (device_specific_offset c + 4)) d
          = (word_of_nat (cap div 2 ^ 32), d')
        \<and> dgood d' \<and> disk d' = disk d"
    and notify: "dgood d \<Longrightarrow>
      dgood (out16 (dev_ports D) (cfg_addr c + 0x10) 0 d) \<and> disk (out16 (dev_ports D) (cfg_addr c + 0x10) 0 d) = disk d"
    and serve_in: "dgood d \<Longrightarrow> vq_ok q g \<Longrightarrow> sector_request g i hb db fb \<Longrightarrow> buf_write db \<Longrightarrow> n < cap \<Longrightarrow>
      mem_read mem (unat (buf_addr hb)) 16
        = header_bytes \<lparr>hdr_ty = REQUEST_IN, hdr_reserved = 0, hdr_sector = word_of_nat n\<rparr> \<Longrightarrow>
      \<exists>d'. dev_run D d mem q =
          (d', mem_write (unat (buf_addr fb)) [0] (mem_write (unat (buf_addr db)) (disk d n) mem), device_complete i q)
        \<and> dgood d' \<and> disk d' = disk d"
    and serve_out: "dgood d \<Longrightarrow> vq_ok q g \<Longrightarrow> sector_request g i hb db fb \<Longrightarrow> \<not> buf_write db \<Longrightarrow> n < cap \<Longrightarrow>
      mem_read mem (unat (buf_addr hb)) 16
        = header_bytes \<lparr>hdr_ty = REQUEST_OUT, hdr_reserved = 0, hdr_sector = word_of_nat n\<rparr> \<Longrightarrow>
      \<exists>d'. dev_run D d mem q = (d', mem_write (unat (buf_addr fb)) [0] mem, device_complete i q)
        \<and> dgood d' \<and> disk d' = (disk d)(n := mem_read mem (unat (buf_addr db)) 512)"

text \<open>The states of the volume between requests, and its contents.\<close>

definition idle :: "int option virt_queue \<Rightarrow> bool" where
  "idle q \<longleftrightarrow> (\<exists>g. vq_ok q g \<and> waiting g = [] \<and> taken g = [] \<and> completed g = [] \<and> 3 \<le> length (free_list g))"

definition virtio_spec ::
    "configuration \<Rightarrow> ('d \<Rightarrow> bool) \<Rightarrow> ('d \<Rightarrow> nat \<Rightarrow> bytes) \<Rightarrow> nat \<Rightarrow> 'd block volume_spec" where
  "virtio_spec c dgood disk cap =
     \<lparr>good = (\<lambda>b. blk_configuration b = c \<and> dgood (blk_device b) \<and> idle (requestq b)),
      content = (\<lambda>b. disk (blk_device b)), nsec = cap, ssize = SECTOR_SIZE\<rparr>"

lemma length_header_bytes [simp]: "length (header_bytes h) = 16"
  by (simp add: header_bytes_def)

section \<open>The driver on such a device\<close>

text \<open>A request of three buffers on an idle queue: the queue the device sees, and the one after the interrupt.\<close>

lemma idle_transfer:
  assumes "idle q"
  obtains q' g i j k where "transfer q [hb, db, fb] = Ok q'" and "vq_ok q' g"
    and "waiting g = [[(i, hb), (j, db), (k, fb)]]" and "taken g = []" and "completed g = []"
proof -
  obtain g where g: "vq_ok q g" "waiting g = []" "taken g = []" "completed g = []" "3 \<le> length (free_list g)"
    using assms by (auto simp: idle_def)
  then obtain i j k fs where fs: "free_list g = i # j # k # fs"
    by (metis Suc_le_length_iff numeral_3_eq_3)
  have "length [hb, db, fb] \<le> length (free_list g)" using g(5) by simp
  then obtain q' where "transfer q [hb, db, fb] = Ok q'" "vq_ok q' (with_request g [hb, db, fb])"
    using transfer_ok [OF g(1), of "[hb, db, fb]"] by auto
  with that [of q' "with_request g [hb, db, fb]" i j k] g fs show ?thesis by (simp add: with_request_def)
qed

lemma collect_request:
  assumes "vq_ok q g" and "waiting g = [r]" and "taken g = []" and "completed g = []" and "3 \<le> length r"
  obtains q' where "collect (device_complete (fst (hd r)) q) = Ok (request_data r, q')" and "idle q'"
proof -
  have "vq_ok q (device_take g)" using assms by (intro device_take_ok) auto
  moreover have "taken (device_take g) = [r]" using assms by (simp add: device_take_def)
  ultimately have "vq_ok (device_complete (fst (hd r)) q) (complete_request r (device_take g))"
    by (intro device_complete_ok) auto
  from collect_ok [OF this] obtain q' where
    "collect (device_complete (fst (hd r)) q) = Ok (request_data r, q')"
    "vq_ok q' (all_collected (complete_request r (device_take g)))"
    using assms by (auto simp: complete_request_def device_take_def)
  with that assms show ?thesis
    by (fastforce simp: idle_def all_collected_def complete_request_def device_take_def)
qed

lemma join_u32:
  "ucast (word_of_nat n :: u32) OR push_bit 32 (ucast (word_of_nat (n div 2 ^ 32) :: u32)) = (word_of_nat n :: u64)"
proof (rule bit_word_eqI)
  fix k assume "k < LENGTH(64)"
  moreover have "bit (n div 2 ^ 32) (k - 32) = bit n k" if "32 \<le> k"
    using that bit_drop_bit_eq [of 32 n] by (simp add: drop_bit_eq_div)
  ultimately show "bit (ucast (word_of_nat n :: u32) OR push_bit 32 (ucast (word_of_nat (n div 2 ^ 32) :: u32)) :: u64) k
    = bit (word_of_nat n :: u64) k"
    by (cases "32 \<le> k") (auto simp: bit_simps bit_of_nat_iff)
qed

text \<open>The cap on addresses: identity mapped, and their channels and words are themselves.\<close>

lemma small_address:
  assumes "a < 2 ^ 36"
  shows "as_phys_addr a = Some a" and "unat (word_of_nat a :: u64) = a" and "from_ptr (int a) = Ok (int a)"
  using assms by (simp_all add: as_phys_addr_def SIZE_1GIB_def unat_of_nat from_ptr_def from_ptr_index_def)

context virtio_block_device
begin

abbreviation S :: "'d block volume_spec" where
  "S \<equiv> virtio_spec c dgood disk cap"

lemma placed_simps:
  "header_addr A < 2 ^ 36" "footer_addr A < 2 ^ 36" "buffer_addr A < 2 ^ 36"
  "apart (header_addr A) 16 (buffer_addr A) 512" "apart (header_addr A) 16 (footer_addr A) 1"
  "apart (buffer_addr A) 512 (footer_addr A) 1"
  using placed by (simp_all add: addresses_ok_def)

lemma capacity_ok:
  assumes "good S b"
  shows "\<exists>d. blk_capacity D b = (Ok (word_of_nat cap) :: ('e, u64) outcome, b\<lparr>blk_device := d\<rparr>) \<and> dgood d \<and> disk d = disk (blk_device b)"
proof -
  have b: "blk_configuration b = c" "dgood (blk_device b)" using assms by (simp_all add: virtio_spec_def)
  obtain d1 where d1: "in32 (dev_ports D) (cfg_addr c + word_of_nat (device_specific_offset c)) (blk_device b) = (word_of_nat cap, d1)"
    "dgood d1" "disk d1 = disk (blk_device b)"
    using capacity_low [OF b(2)] by blast
  obtain d2 where d2: "in32 (dev_ports D) (cfg_addr c + word_of_nat (device_specific_offset c + 4)) d1
      = (word_of_nat (cap div 2 ^ 32), d2)" "dgood d2" "disk d2 = disk d1"
    using capacity_high [OF d1(2)] by blast
  have "device_specific_offset c \<le> 0x18" by (simp add: device_specific_offset_def)
  then have "unat (cfg_addr c) + device_specific_offset c < 65536" "unat (cfg_addr c) + (device_specific_offset c + 4) < 65536"
    using port_range by linarith+
  then show ?thesis
    using b d1 d2 join_u32 [of cap]
    by (auto simp: blk_capacity_def with_device_def read_device_specific_def cfg_read_def)
qed

lemma check_capacity_ok:
  assumes "good S b" and "n < cap"
  shows "\<exists>d. check_capacity D n 512 b = (Ok (), b\<lparr>blk_device := d\<rparr>) \<and> dgood d \<and> disk d = disk (blk_device b)"
proof -
  have "unat (word_of_nat cap :: u64) = cap" using cap_range by (simp add: unat_of_nat)
  then show ?thesis
    using capacity_ok [OF assms(1), where 'e = block_error] assms(2) cap_range
    by (auto simp: check_capacity_def SECTOR_SIZE_def Let_def)
qed

text \<open>A request goes through when the device serves it.\<close>

lemma request_served:
  assumes "good S b"
    and served: "\<And>q g i j k d. vq_ok q g \<Longrightarrow> sector_request g i
          \<lparr>buf_addr = word_of_nat (header_addr A), buf_len = 16, buf_write = False, associated_data = None\<rparr>
          \<lparr>buf_addr = word_of_nat (buffer_addr A), buf_len = 512, buf_write = w, associated_data = None\<rparr>
          \<lparr>buf_addr = word_of_nat (footer_addr A), buf_len = 1, buf_write = True,
            associated_data = Some (int (footer_addr A))\<rparr> \<Longrightarrow>
        dgood d \<Longrightarrow> disk d = disk (blk_device b) \<Longrightarrow>
        \<exists>d'. dev_run D d (mem_write (footer_addr A) [0] (mem_write (header_addr A) (header_bytes h) (blk_memory b))) q
            = (d', mem_write (footer_addr A) [0] mem', device_complete i q) \<and> dgood d' \<and> disk d' = disk'"
  shows "\<exists>b'. blk_request D A h
      \<lparr>buf_addr = word_of_nat (buffer_addr A), buf_len = 512, buf_write = w, associated_data = None\<rparr> b = (Ok (), b')
    \<and> good S b' \<and> content S b' = disk' \<and> blk_memory b' = mem_write (footer_addr A) [0] mem'"
proof -
  let ?hb = "\<lparr>buf_addr = word_of_nat (header_addr A), buf_len = 16, buf_write = False, associated_data = None\<rparr>"
  let ?db = "\<lparr>buf_addr = word_of_nat (buffer_addr A), buf_len = 512, buf_write = w, associated_data = None\<rparr>"
  let ?fb = "\<lparr>buf_addr = word_of_nat (footer_addr A), buf_len = 1, buf_write = True,
      associated_data = Some (int (footer_addr A))\<rparr>"
  have b: "blk_configuration b = c" "dgood (blk_device b)" "idle (requestq b)"
    using assms(1) by (simp_all add: virtio_spec_def)
  obtain q g i j k where q: "transfer (requestq b) [?hb, ?db, ?fb] = Ok q" "vq_ok q g"
    "waiting g = [[(i, ?hb), (j, ?db), (k, ?fb)]]" "taken g = []" "completed g = []"
    using idle_transfer [OF b(3)] by blast
  have "sector_request g i ?hb ?db ?fb"
    using q(3-5) placed_simps by (simp add: sector_request_def small_address)
  moreover define d where "d = out16 (dev_ports D) (cfg_addr c + 0x10) 0 (blk_device b)"
  ultimately obtain d' where d': "dev_run D d (mem_write (footer_addr A) [0]
      (mem_write (header_addr A) (header_bytes h) (blk_memory b))) q
        = (d', mem_write (footer_addr A) [0] mem', device_complete i q)" "dgood d'" "disk d' = disk'"
    using served [OF q(2)] notify [OF b(2)] by blast
  obtain q' where q': "collect (device_complete i q) = Ok ([None, None, Some (int (footer_addr A))], q')" "idle q'"
    using collect_request [OF q(2-5)] by auto
  have "unat (cfg_addr c) + 0x10 < 65536" using port_range by linarith
  then show ?thesis
    using b q(1) d' q' placed_simps(1-3)
    by (simp add: blk_request_def buffer_from_ref_def small_address with_device_def set_queue_notify_def
        cfg_write_def await_completion_def virtio_spec_def mem_write_at into_result_def Let_def flip: d_def)
qed

lemma header_in_memory:
  "mem_read (mem_write (footer_addr A) [0] (mem_write (header_addr A) (header_bytes h) mem)) (header_addr A) 16
    = header_bytes h"
  using placed_simps mem_read_write_same [of "header_addr A" "header_bytes h" mem]
  by (simp add: mem_read_write_apart)

text \<open>What \<open>blk_read\<close> and \<open>blk_write\<close> do before the request.\<close>

lemma transfer_prepared:
  assumes "good S b" and "n < cap"
  obtains d where "dgood d" and "disk d = disk (blk_device b)"
    and "blk_transfer D A ty w n 512 b =
      blk_request D A \<lparr>hdr_ty = ty, hdr_reserved = 0, hdr_sector = word_of_nat n\<rparr>
        \<lparr>buf_addr = word_of_nat (buffer_addr A), buf_len = 512, buf_write = w, associated_data = None\<rparr>
        (b\<lparr>blk_device := d\<rparr>)"
    and "good S (b\<lparr>blk_device := d\<rparr>)"
proof -
  obtain d where d: "check_capacity D n 512 b = (Ok (), b\<lparr>blk_device := d\<rparr>)" "dgood d" "disk d = disk (blk_device b)"
    using check_capacity_ok [OF assms] by blast
  then show ?thesis
    using assms(1) placed_simps(3)
    by (intro that [of d])
      (simp_all add: blk_transfer_def buffer_from_bytes_def buffer_from_ref_def small_address virtio_spec_def)
qed

lemma good_memory [simp]: "good S (b\<lparr>blk_memory := m\<rparr>) = good S b"
  by (simp add: virtio_spec_def)

lemma blk_read_ok:
  assumes "good S b" and "n < cap" and "length buf = 512"
  shows "\<exists>b'. blk_read D A n buf b = (Ok (), disk (blk_device b) n, b') \<and> good S b' \<and> content S b' = content S b"
proof -
  let ?b = "b\<lparr>blk_memory := mem_write (buffer_addr A) buf (blk_memory b)\<rparr>"
  let ?h = "\<lparr>hdr_ty = REQUEST_IN, hdr_reserved = 0, hdr_sector = word_of_nat n\<rparr>"
  have "good S ?b" using assms(1) by simp
  then obtain d where d: "dgood d" "disk d = disk (blk_device ?b)"
    "blk_transfer D A REQUEST_IN True n 512 ?b = blk_request D A ?h
        \<lparr>buf_addr = word_of_nat (buffer_addr A), buf_len = 512, buf_write = True, associated_data = None\<rparr>
        (?b\<lparr>blk_device := d\<rparr>)"
    "good S (?b\<lparr>blk_device := d\<rparr>)"
    using assms(2) by (rule transfer_prepared)
  let ?m = "mem_write (footer_addr A) [0] (mem_write (header_addr A) (header_bytes ?h) (blk_memory ?b))"
  have "\<exists>b'. blk_transfer D A REQUEST_IN True n 512 ?b = (Ok (), b') \<and> good S b' \<and> content S b' = disk (blk_device b)
    \<and> blk_memory b' = mem_write (footer_addr A) [0] (mem_write (buffer_addr A) (disk (blk_device b) n) ?m)"
    unfolding d(3)
  proof (rule request_served [OF d(4)])
    fix q g i d1
    assume "vq_ok q g" "dgood d1" "disk d1 = disk (blk_device (?b\<lparr>blk_device := d\<rparr>))"
      "sector_request g i
          \<lparr>buf_addr = word_of_nat (header_addr A), buf_len = 16, buf_write = False, associated_data = None\<rparr>
          \<lparr>buf_addr = word_of_nat (buffer_addr A), buf_len = 512, buf_write = True, associated_data = None\<rparr>
          \<lparr>buf_addr = word_of_nat (footer_addr A), buf_len = 1, buf_write = True,
            associated_data = Some (int (footer_addr A))\<rparr>"
    from serve_in [OF this(2,1,4), of n ?m] this(3) header_in_memory d(2) assms(2) placed_simps(1-3)
    show "\<exists>d'. dev_run D d1 (mem_write (footer_addr A) [0]
          (mem_write (header_addr A) (header_bytes ?h) (blk_memory (?b\<lparr>blk_device := d\<rparr>)))) q
        = (d', mem_write (footer_addr A) [0] (mem_write (buffer_addr A) (disk (blk_device b) n) ?m), device_complete i q)
        \<and> dgood d' \<and> disk d' = disk (blk_device b)"
      by (simp add: small_address)
  qed
  then obtain b' where b': "blk_transfer D A REQUEST_IN True n 512 ?b = (Ok (), b')" "good S b'"
    "content S b' = disk (blk_device b)"
    "blk_memory b' = mem_write (footer_addr A) [0] (mem_write (buffer_addr A) (disk (blk_device b) n) ?m)"
    by blast
  have "length (disk (blk_device b) n) = 512" using assms(1,2) sector_length by (simp add: virtio_spec_def)
  then have "mem_read (blk_memory b') (buffer_addr A) 512 = disk (blk_device b) n"
    using b'(4) placed_simps(6) mem_read_write_same [of "buffer_addr A" "disk (blk_device b) n" ?m]
    by (simp add: mem_read_write_apart)
  with b' assms(3) show ?thesis by (simp add: blk_read_def virtio_spec_def)
qed

lemma blk_write_ok:
  assumes "good S b" and "n < cap" and "length buf = 512"
  shows "\<exists>b'. blk_write D A n buf b = (Ok (), b') \<and> good S b' \<and> content S b' = (content S b)(n := buf)"
proof -
  let ?b = "b\<lparr>blk_memory := mem_write (buffer_addr A) buf (blk_memory b)\<rparr>"
  let ?h = "\<lparr>hdr_ty = REQUEST_OUT, hdr_reserved = 0, hdr_sector = word_of_nat n\<rparr>"
  have "good S ?b" using assms(1) by simp
  then obtain d where d: "dgood d" "disk d = disk (blk_device ?b)"
    "blk_transfer D A REQUEST_OUT False n 512 ?b = blk_request D A ?h
        \<lparr>buf_addr = word_of_nat (buffer_addr A), buf_len = 512, buf_write = False, associated_data = None\<rparr>
        (?b\<lparr>blk_device := d\<rparr>)"
    "good S (?b\<lparr>blk_device := d\<rparr>)"
    using assms(2) by (rule transfer_prepared)
  let ?m = "mem_write (footer_addr A) [0] (mem_write (header_addr A) (header_bytes ?h) (blk_memory ?b))"
  have buf: "mem_read ?m (buffer_addr A) 512 = buf"
    using placed_simps(4,6) assms(3) mem_read_write_same [of "buffer_addr A" buf "blk_memory b"]
    by (simp add: mem_read_write_apart apart_sym [of "buffer_addr A" 512 "header_addr A"])
  have "\<exists>b'. blk_transfer D A REQUEST_OUT False n 512 ?b = (Ok (), b') \<and> good S b'
    \<and> content S b' = (disk (blk_device b))(n := buf) \<and> blk_memory b' = mem_write (footer_addr A) [0] ?m"
    unfolding d(3)
  proof (rule request_served [OF d(4)])
    fix q g i d1
    assume "vq_ok q g" "dgood d1" "disk d1 = disk (blk_device (?b\<lparr>blk_device := d\<rparr>))"
      "sector_request g i
          \<lparr>buf_addr = word_of_nat (header_addr A), buf_len = 16, buf_write = False, associated_data = None\<rparr>
          \<lparr>buf_addr = word_of_nat (buffer_addr A), buf_len = 512, buf_write = False, associated_data = None\<rparr>
          \<lparr>buf_addr = word_of_nat (footer_addr A), buf_len = 1, buf_write = True,
            associated_data = Some (int (footer_addr A))\<rparr>"
    from serve_out [OF this(2,1,4), of n ?m] this(3) header_in_memory d(2) assms(2) placed_simps(1-3) buf
    show "\<exists>d'. dev_run D d1 (mem_write (footer_addr A) [0]
          (mem_write (header_addr A) (header_bytes ?h) (blk_memory (?b\<lparr>blk_device := d\<rparr>)))) q
        = (d', mem_write (footer_addr A) [0] ?m, device_complete i q)
        \<and> dgood d' \<and> disk d' = (disk (blk_device b))(n := buf)"
      by (simp add: small_address)
  qed
  with assms(3) show ?thesis by (auto simp: blk_write_def virtio_spec_def)
qed

lemma volume_laws: "volume_trait (virtio_volume D A) S"
proof
  fix b :: "'d block" and n :: nat and buf :: bytes
  assume b: "good S b"
  show "vol_sector_count (virtio_volume D A) b = nsec S \<and> vol_sector_size (virtio_volume D A) b = ssize S"
    using capacity_ok [OF b, where 'e = unit] cap_range
    by (auto simp: virtio_volume_def virtio_sector_count_def virtio_spec_def unat_of_nat)
  assume n: "n < nsec S"
  show "length (content S b n) = ssize S"
    using b n sector_length by (simp add: virtio_spec_def SECTOR_SIZE_def)
  assume buf: "length buf = ssize S"
  show "\<exists>b'. vol_read (virtio_volume D A) b n buf = (Ok (), content S b n, b') \<and> good S b' \<and> content S b' = content S b"
    using blk_read_ok [OF b, of n buf] n buf by (auto simp: virtio_volume_def virtio_spec_def SECTOR_SIZE_def)
  show "\<exists>b'. vol_write (virtio_volume D A) b n buf = (Ok (), b') \<and> good S b' \<and> content S b' = (content S b)(n := buf)"
    using blk_write_ok [OF b, of n buf] n buf by (auto simp: virtio_volume_def virtio_spec_def SECTOR_SIZE_def)
qed

lemma blk_out_of_range:
  assumes "good S b" and "cap \<le> k" and "k < 2 ^ 64" and "length buf = 512"
  shows "\<exists>b'. blk_write D A k buf b = (Err BlockOutOfRange, b') \<and> content S b' = content S b"
proof -
  let ?b = "b\<lparr>blk_memory := mem_write (buffer_addr A) buf (blk_memory b)\<rparr>"
  have "unat (word_of_nat cap :: u64) = cap" using cap_range by (simp add: unat_of_nat)
  moreover obtain d where "blk_capacity D ?b = (Ok (word_of_nat cap) :: (block_error, u64) outcome, ?b\<lparr>blk_device := d\<rparr>)"
    "disk d = disk (blk_device b)"
    using capacity_ok [of ?b, where 'e = block_error] assms(1) by auto
  ultimately show ?thesis
    using assms by (auto simp: blk_write_def blk_transfer_def check_capacity_def SECTOR_SIZE_def virtio_spec_def Let_def)
qed

end

sublocale virtio_block_device \<subseteq> block_volume: volume_trait "virtio_volume D A" "virtio_spec c dgood disk cap"
  by (rule volume_laws)

section \<open>A device that keeps the promise\<close>

text \<open>
  A disk in memory that works like the device of the specification: it follows the newest entry of the
  available ring to its descriptors, reads the header, moves the sector, writes the status and the used ring.
\<close>

definition ram_ports :: "bytes list ports" where
  "ram_ports =
     \<lparr>in8 = (\<lambda>p d. (0, d)), in16 = (\<lambda>p d. (0, d)),
      in32 = (\<lambda>p d. (if p = 0xc018 then word_of_nat (length d) else 0, d)),
      out8 = (\<lambda>p v d. d), out16 = (\<lambda>p v d. d), out32 = (\<lambda>p v d. d)\<rparr>"

definition ram_run :: "bytes list \<Rightarrow> memory \<Rightarrow> int option virt_queue \<Rightarrow> bytes list \<times> memory \<times> int option virt_queue" where
  "ram_run d mem q =
     (let i = available_ring q ! ring_index q (available_idx q - 1);
          hd = descriptor_at q i; dd = descriptor_at q (desc_next hd); fd = descriptor_at q (desc_next dd);
          h = mem_read mem (unat (desc_addr hd)) 16;
          n = unat (from_le_bytes (drop 8 h) :: u64)
      in if (from_le_bytes (take 4 h) :: u32) = REQUEST_IN
         then (d, mem_write (unat (desc_addr fd)) [0] (mem_write (unat (desc_addr dd)) (d ! n) mem), device_complete i q)
         else (d[n := mem_read mem (unat (desc_addr dd)) (unat (desc_len dd))],
               mem_write (unat (desc_addr fd)) [0] mem, device_complete i q))"

definition ram_device :: "bytes list block_device" where
  "ram_device = \<lparr>dev_ports = ram_ports, dev_run = ram_run\<rparr>"

definition ram_config :: configuration where
  "ram_config = \<lparr>cfg_addr = 0xc000, msi_x_enabled = True\<rparr>"

definition ram_addresses :: addresses where
  "ram_addresses = \<lparr>header_addr = 0x9000, footer_addr = 0x9010, buffer_addr = 0xa000\<rparr>"

definition ram_sectors :: "bytes list \<Rightarrow> nat \<Rightarrow> bytes" where
  "ram_sectors d n = (if n < 64 then d ! n else [])"

lemma request_in_queue:
  assumes "vq_ok q g" and "waiting g = [[(i, hb), (j, db), (k, fb)]]"
  shows "available_ring q ! ring_index q (available_idx q - 1) = i"
    and "desc_next (descriptor_at q i) = j" and "desc_next (descriptor_at q j) = k"
    and "desc_addr (descriptor_at q i) = buf_addr hb" and "desc_addr (descriptor_at q j) = buf_addr db"
    and "desc_addr (descriptor_at q k) = buf_addr fb" and "desc_len (descriptor_at q j) = word_of_nat (buf_len db)"
proof -
  have r: "request_ok q [(i, hb), (j, db), (k, fb)]" and rings: "rings_ok q g"
    using assms by (auto simp: vq_ok_def all_requests_def)
  show "available_ring q ! ring_index q (available_idx q - 1) = i"
    using rings assms(2) by (auto simp: rings_ok_def ring_index_def dest: ring_holds_hd)
  show "desc_next (descriptor_at q i) = j" "desc_next (descriptor_at q j) = k"
    using r by (auto simp: request_ok_def next_of_def descriptor_at_def split: if_splits)
  show "desc_addr (descriptor_at q i) = buf_addr hb" "desc_addr (descriptor_at q j) = buf_addr db"
    "desc_addr (descriptor_at q k) = buf_addr fb" "desc_len (descriptor_at q j) = word_of_nat (buf_len db)"
    using r by (auto simp: request_ok_def describes_def)
qed

lemma header_decoded:
  assumes "h = header_bytes \<lparr>hdr_ty = ty, hdr_reserved = 0, hdr_sector = w\<rparr>"
  shows "from_le_bytes (take 4 h) = ty" and "from_le_bytes (drop 8 h) = w"
  using assms from_to_le_bytes [of 8 w] by (simp_all add: header_bytes_def)

lemma ram_run_request:
  assumes "vq_ok q g" and "sector_request g i hb db fb"
    and "mem_read mem (unat (buf_addr hb)) 16 = header_bytes \<lparr>hdr_ty = ty, hdr_reserved = 0, hdr_sector = word_of_nat n\<rparr>"
    and "n < 64"
  shows "ram_run d mem q =
    (if ty = REQUEST_IN
     then (d, mem_write (unat (buf_addr fb)) [0] (mem_write (unat (buf_addr db)) (d ! n) mem), device_complete i q)
     else (d[n := mem_read mem (unat (buf_addr db)) 512], mem_write (unat (buf_addr fb)) [0] mem, device_complete i q))"
proof -
  obtain j k where g: "waiting g = [[(i, hb), (j, db), (k, fb)]]" "buf_len db = 512"
    using assms(2) by (auto simp: sector_request_def)
  note header = header_decoded [OF assms(3)]
  have "unat (word_of_nat n :: u64) = n" using assms(4) by (simp add: unat_of_nat)
  then show ?thesis
    by (simp add: ram_run_def request_in_queue [OF assms(1) g(1)] header g(2) Let_def)
qed

interpretation ram_block: virtio_block_device ram_device ram_addresses ram_config disk_ok ram_sectors 64
proof
  show "addresses_ok ram_addresses" by (simp add: addresses_ok_def apart_def ram_addresses_def)
  show "unat (cfg_addr ram_config) + 0x20 < 65536" by (simp add: ram_config_def)
  fix d :: "bytes list" and n :: nat
  assume d: "disk_ok d"
  show "n < 64 \<Longrightarrow> length (ram_sectors d n) = 512" using d by (simp add: disk_ok_def ram_sectors_def)
  show "\<exists>d'. in32 (dev_ports ram_device) (cfg_addr ram_config + word_of_nat (device_specific_offset ram_config)) d
      = (word_of_nat 64, d') \<and> disk_ok d' \<and> ram_sectors d' = ram_sectors d"
    "\<exists>d'. in32 (dev_ports ram_device) (cfg_addr ram_config + word_of_nat (device_specific_offset ram_config + 4)) d
      = (word_of_nat (64 div 2 ^ 32), d') \<and> disk_ok d' \<and> ram_sectors d' = ram_sectors d"
    "disk_ok (out16 (dev_ports ram_device) (cfg_addr ram_config + 0x10) 0 d)
      \<and> ram_sectors (out16 (dev_ports ram_device) (cfg_addr ram_config + 0x10) 0 d) = ram_sectors d"
    using d by (simp_all add: ram_device_def ram_ports_def ram_config_def device_specific_offset_def disk_ok_def)
  fix q g i hb db fb mem
  assume q: "vq_ok q g" and r: "sector_request g i hb db fb" and n: "n < 64"
  show "mem_read mem (unat (buf_addr hb)) 16
        = header_bytes \<lparr>hdr_ty = REQUEST_IN, hdr_reserved = 0, hdr_sector = word_of_nat n\<rparr> \<Longrightarrow>
      \<exists>d'. dev_run ram_device d mem q =
          (d', mem_write (unat (buf_addr fb)) [0] (mem_write (unat (buf_addr db)) (ram_sectors d n) mem), device_complete i q)
        \<and> disk_ok d' \<and> ram_sectors d' = ram_sectors d"
    using ram_run_request [OF q r _ n] d n by (simp add: ram_device_def ram_sectors_def)
  show "mem_read mem (unat (buf_addr hb)) 16
        = header_bytes \<lparr>hdr_ty = REQUEST_OUT, hdr_reserved = 0, hdr_sector = word_of_nat n\<rparr> \<Longrightarrow>
      \<exists>d'. dev_run ram_device d mem q = (d', mem_write (unat (buf_addr fb)) [0] mem, device_complete i q)
        \<and> disk_ok d' \<and> ram_sectors d' = (ram_sectors d)(n := mem_read mem (unat (buf_addr db)) 512)"
    using ram_run_request [OF q r _ n] d n
    by (auto simp: ram_device_def ram_sectors_def disk_ok_def REQUEST_IN_def REQUEST_OUT_def fun_eq_iff
        dest!: set_update_subset_insert [THEN subsetD])
qed simp_all

text \<open>The file system on the block device.\<close>

interpretation ram_fat: fat_volume "virtio_volume ram_device ram_addresses" "virtio_spec ram_config disk_ok ram_sectors 64" sample_bs
  by unfold_locales
    (simp_all add: sample_bs_def sample_boot_sector_geometry sample_boot_sector_fields virtio_spec_def
      bs_sector_size_def SECTOR_SIZE_def)

text \<open>
  C13: On every device that serves requests as the VirtIO specification says, writing a sector and reading it
  back through the driver and its queue returns what was written, and reading another sector what it held
  before; both end with the driver ready for the next request. A sector beyond the capacity is refused and
  nothing is written.
\<close>

theorem virtio_write_read:
  assumes "virtio_block_device D A c dgood disk cap"
    and "good (virtio_spec c dgood disk cap) b"
    and "n < cap" and "m < cap" and "cap \<le> k" and "k < 2 ^ 64" and "length bs = 512" and "length buf = 512"
  shows "\<exists>b1 b2 b3. blk_write D A n bs b = (Ok (), b1)
    \<and> blk_read D A m buf b1 = (Ok (), if m = n then bs else disk (blk_device b) m, b2)
    \<and> good (virtio_spec c dgood disk cap) b2
    \<and> blk_write D A k bs b2 = (Err BlockOutOfRange, b3) \<and> disk (blk_device b3) = disk (blk_device b2)"
proof -
  let ?S = "virtio_spec c dgood disk cap"
  have content: "content ?S x = disk (blk_device x)" for x by (simp add: virtio_spec_def)
  obtain b1 where b1: "blk_write D A n bs b = (Ok (), b1)" "good ?S b1" "disk (blk_device b1) = (disk (blk_device b))(n := bs)"
    using virtio_block_device.blk_write_ok [OF assms(1,2,3,7)] content by metis
  obtain b2 where b2: "blk_read D A m buf b1 = (Ok (), disk (blk_device b1) m, b2)" "good ?S b2"
    using virtio_block_device.blk_read_ok [OF assms(1) b1(2) assms(4,8)] by blast
  obtain b3 where "blk_write D A k bs b2 = (Err BlockOutOfRange, b3)" "disk (blk_device b3) = disk (blk_device b2)"
    using virtio_block_device.blk_out_of_range [OF assms(1) b2(2) assms(5,6,7)] content by metis
  with b1 b2 show ?thesis by (cases "m = n") auto
qed

definition ram_blk :: "bytes list block" where
  "ram_blk = \<lparr>blk_configuration = ram_config, requestq = new_virt_queue 4 7, blk_memory = (\<lambda>_. 0), blk_device = blank_disk\<rparr>"

lemma ram_blk_good: "good (virtio_spec ram_config disk_ok ram_sectors 64) ram_blk"
proof -
  have "idle (new_virt_queue 4 7)"
    unfolding idle_def by (rule exI, rule conjI, rule new_virt_queue_ok) simp_all
  moreover have "disk_ok blank_disk" by (simp add: disk_ok_def blank_disk_def)
  ultimately show ?thesis by (simp add: virtio_spec_def ram_blk_def)
qed

theorem virtio_write_read_witness:
  "\<exists>b1 b2. blk_write ram_device ram_addresses 5 (replicate 512 7) ram_blk = (Ok (), b1)
     \<and> blk_read ram_device ram_addresses 5 (replicate 512 0) b1 = (Ok (), replicate 512 7, b2)"
  using virtio_write_read [OF ram_block.virtio_block_device_axioms ram_blk_good,
      of 5 5 64 "replicate 512 7" "replicate 512 0"]
  by auto

end
