(* ===== verification/Frame_Buffer.thy ===== *)
theory Frame_Buffer
  imports Ors_Prelude
begin

text \<open>
  Rectangles and frame buffers: \<open>graphics/rect.rs\<close>, \<open>graphics/frame_buffer.rs\<close>, \<open>graphics/color.rs\<close> and
  \<open>FrameBufferExt\<close> of \<open>graphics.rs\<close>. Coordinates are \<open>i32\<close>: a sum that leaves their range panics, and so does
  a slice that leaves the bytes of a buffer. The trait \<open>FrameBuffer\<close> gives the bytes, the size, the stride and
  the format of a buffer; the record holds just these, for the buffer in a vector and the one of the screen.
\<close>

section \<open>Colors\<close>

record color =
  red :: u8
  green :: u8
  blue :: u8

definition new_color :: "u8 \<Rightarrow> u8 \<Rightarrow> u8 \<Rightarrow> color" where
  "new_color r g b = \<lparr>red = r, green = g, blue = b\<rparr>"

fun color_from :: "u8 \<times> u8 \<times> u8 \<Rightarrow> color" where
  "color_from (r, g, b) = new_color r g b"

datatype frame_buffer_format = Rgbx | Bgrx

datatype raw_pixel_format = RawRgb | RawBgr

fun encoder :: "frame_buffer_format \<Rightarrow> color \<Rightarrow> bytes" where
  "encoder Rgbx c = [red c, green c, blue c, 255]"
| "encoder Bgrx c = [blue c, green c, red c, 255]"

fun decoder :: "frame_buffer_format \<Rightarrow> bytes \<Rightarrow> color" where
  "decoder Rgbx a = new_color (a ! 0) (a ! 1) (a ! 2)"
| "decoder Bgrx a = new_color (a ! 2) (a ! 1) (a ! 0)"

fun format_from :: "raw_pixel_format \<Rightarrow> frame_buffer_format" where
  "format_from RawRgb = Rgbx"
| "format_from RawBgr = Bgrx"

section \<open>Rectangles\<close>

record rect =
  rect_x :: int
  rect_y :: int
  rect_w :: nat
  rect_h :: nat

text \<open>\<open>as i32\<close> of a \<open>u32\<close>, and addition and subtraction of \<open>i32\<close> with the overflow check.\<close>

definition as_i32 :: "nat \<Rightarrow> int" where
  "as_i32 n = (let m = int (n mod 2 ^ 32) in if m < 2 ^ 31 then m else m - 2 ^ 32)"

definition i32_range :: "int \<Rightarrow> bool" where
  "i32_range z \<longleftrightarrow> - (2 ^ 31) \<le> z \<and> z < 2 ^ 31"

definition add_i32 :: "int \<Rightarrow> int \<Rightarrow> ('e, int) outcome" where
  "add_i32 a b = (if i32_range (a + b) then Ok (a + b) else Panic)"

definition sub_i32 :: "int \<Rightarrow> int \<Rightarrow> ('e, int) outcome" where
  "sub_i32 a b = (if i32_range (a - b) then Ok (a - b) else Panic)"

definition intersect :: "rect \<Rightarrow> rect \<Rightarrow> (unit, rect option) outcome" where
  "intersect r s =
     (let lx = max (rect_x r) (rect_x s); ly = max (rect_y r) (rect_y s) in
      try_then (add_i32 (rect_x r) (as_i32 (rect_w r))) (\<lambda>rx1.
      try_then (add_i32 (rect_x s) (as_i32 (rect_w s))) (\<lambda>rx2.
      try_then (add_i32 (rect_y r) (as_i32 (rect_h r))) (\<lambda>ry1.
      try_then (add_i32 (rect_y s) (as_i32 (rect_h s))) (\<lambda>ry2.
        let rx = min rx1 rx2; ry = min ry1 ry2 in
        if rx < lx \<or> ry < ly then Ok None
        else try_then (sub_i32 rx lx) (\<lambda>w. try_then (sub_i32 ry ly) (\<lambda>h.
          Ok (Some \<lparr>rect_x = lx, rect_y = ly, rect_w = nat w, rect_h = nat h\<rparr>))))))))"

definition contains :: "rect \<Rightarrow> int \<Rightarrow> int \<Rightarrow> (unit, bool) outcome" where
  "contains r x y =
     (if rect_x r \<le> x
      then try_then (add_i32 (rect_x r) (as_i32 (rect_w r))) (\<lambda>ex.
        if x < ex \<and> rect_y r \<le> y
        then try_then (add_i32 (rect_y r) (as_i32 (rect_h r))) (\<lambda>ey. Ok (y < ey))
        else Ok False)
      else Ok False)"

definition offset :: "rect \<Rightarrow> int \<Rightarrow> int \<Rightarrow> (unit, rect) outcome" where
  "offset r x y =
     try_then (add_i32 (rect_x r) x) (\<lambda>x'. try_then (add_i32 (rect_y r) y) (\<lambda>y'.
       Ok (r\<lparr>rect_x := x', rect_y := y'\<rparr>)))"

section \<open>Frame buffers\<close>

record frame_buffer =
  fb_bytes :: bytes
  fb_width :: nat
  fb_height :: nat
  fb_stride :: nat
  fb_format :: frame_buffer_format

definition new_vec_buffer :: "nat \<Rightarrow> nat \<Rightarrow> frame_buffer_format \<Rightarrow> frame_buffer" where
  "new_vec_buffer w h f =
     \<lparr>fb_bytes = replicate (w * h * 4) 0, fb_width = w, fb_height = h, fb_stride = w, fb_format = f\<rparr>"

text \<open>The raw buffer the loader passes, with the memory at its address.\<close>

record raw_frame_buffer =
  raw_memory :: "nat \<Rightarrow> u8"
  raw_stride :: u32
  raw_resolution :: "u32 \<times> u32"
  raw_format :: raw_pixel_format

definition screen_buffer_from :: "raw_frame_buffer \<Rightarrow> frame_buffer" where
  "screen_buffer_from r =
     \<lparr>fb_bytes = map (raw_memory r) [0..<unat (raw_stride r) * unat (snd (raw_resolution r)) * 4],
      fb_width = unat (fst (raw_resolution r)), fb_height = unat (snd (raw_resolution r)),
      fb_stride = unat (raw_stride r), fb_format = format_from (raw_format r)\<rparr>"

definition fb_rect :: "frame_buffer \<Rightarrow> rect" where
  "fb_rect fb = \<lparr>rect_x = 0, rect_y = 0, rect_w = fb_width fb mod 2 ^ 32, rect_h = fb_height fb mod 2 ^ 32\<rparr>"

definition pixel_index :: "frame_buffer \<Rightarrow> int \<Rightarrow> int \<Rightarrow> (unit, nat option) outcome" where
  "pixel_index fb x y =
     try_then (contains (fb_rect fb) x y) (\<lambda>b.
       Ok (if b then Some ((nat y * fb_stride fb + nat x) * 4) else None))"

text \<open>\<open>xs[i..i + n]\<close> and \<open>copy_from_slice\<close>, with the checks.\<close>

definition read_slice :: "nat \<Rightarrow> nat \<Rightarrow> bytes \<Rightarrow> (unit, bytes) outcome" where
  "read_slice i n xs = (if in_range i n xs then Ok (array n i xs) else Panic)"

definition write_slice :: "nat \<Rightarrow> bytes \<Rightarrow> bytes \<Rightarrow> (unit, bytes) outcome" where
  "write_slice i ys xs = (if in_range i (length ys) xs then Ok (copy_from_array i ys xs) else Panic)"

definition read_pixel :: "frame_buffer \<Rightarrow> int \<Rightarrow> int \<Rightarrow> (unit, color option) outcome" where
  "read_pixel fb x y =
     try_then (pixel_index fb x y) (\<lambda>i. case i of
         None \<Rightarrow> Ok None
       | Some i \<Rightarrow> try_then (read_slice i 4 (fb_bytes fb)) (\<lambda>px. Ok (Some (decoder (fb_format fb) px))))"

definition write_pixel :: "frame_buffer \<Rightarrow> int \<Rightarrow> int \<Rightarrow> color \<Rightarrow> (unit, bool \<times> frame_buffer) outcome" where
  "write_pixel fb x y c =
     try_then (pixel_index fb x y) (\<lambda>i. case i of
         None \<Rightarrow> Ok (False, fb)
       | Some i \<Rightarrow> try_then (write_slice i (encoder (fb_format fb) c) (fb_bytes fb)) (\<lambda>bs.
           Ok (True, fb\<lparr>fb_bytes := bs\<rparr>)))"

fun blit_rows :: "bytes \<Rightarrow> nat \<Rightarrow> nat \<Rightarrow> nat \<Rightarrow> nat \<Rightarrow> nat \<Rightarrow> nat \<Rightarrow> nat \<Rightarrow> nat list \<Rightarrow> bytes \<Rightarrow> (unit, bytes) outcome" where
  "blit_rows src src_stride ox oy dest_stride x y l [] dest = Ok dest"
| "blit_rows src src_stride ox oy dest_stride x y l (dy # dys) dest =
    (let i = ((y + dy) * dest_stride + x) * 4; j = ((oy + dy) * src_stride + ox) * 4
     in try_then (read_slice j l src) (\<lambda>row.
        try_then (write_slice i row dest) (\<lambda>dest'.
          blit_rows src src_stride ox oy dest_stride x y l dys dest')))"

definition blit :: "frame_buffer \<Rightarrow> int \<Rightarrow> int \<Rightarrow> frame_buffer \<Rightarrow> (unit, frame_buffer) outcome" where
  "blit fb x y src =
     try_then (offset (fb_rect src) x y) (\<lambda>r.
     try_then (intersect (fb_rect fb) r) (\<lambda>c. case c of
         None \<Rightarrow> Ok fb
       | Some rect \<Rightarrow>
           try_then (sub_i32 (rect_y rect) y) (\<lambda>oy.
           try_then (sub_i32 (rect_x rect) x) (\<lambda>ox.
           try_then (blit_rows (fb_bytes src) (fb_stride src) (nat ox) (nat oy) (fb_stride fb)
                       (nat (rect_x rect)) (nat (rect_y rect)) (rect_w rect * 4) [0..<rect_h rect] (fb_bytes fb))
             (\<lambda>bs. Ok (fb\<lparr>fb_bytes := bs\<rparr>))))))"

text \<open>
  \<open>fill_rect\<close>: the first row is filled by 16 pixels, copies of them, and a copy of the remainder; every other
  row is a copy of the row above.
\<close>

definition CHUNK :: nat where
  "CHUNK = 16"

definition copy_within :: "nat \<Rightarrow> nat \<Rightarrow> nat \<Rightarrow> bytes \<Rightarrow> (unit, bytes) outcome" where
  "copy_within j i n xs = try_then (read_slice j n (take i xs)) (\<lambda>s. write_slice i s xs)"

fun fill_pixels :: "nat \<Rightarrow> bytes \<Rightarrow> nat list \<Rightarrow> bytes \<Rightarrow> (unit, bytes) outcome" where
  "fill_pixels i px [] dest = Ok dest"
| "fill_pixels i px (ox # oxs) dest =
    try_then (write_slice (i + ox * 4) px dest) (\<lambda>dest'. fill_pixels i px oxs dest')"

fun copy_chunks :: "nat \<Rightarrow> nat list \<Rightarrow> bytes \<Rightarrow> (unit, bytes) outcome" where
  "copy_chunks i [] dest = Ok dest"
| "copy_chunks i (n # ns) dest =
    try_then (copy_within i (i + n * CHUNK * 4) (CHUNK * 4) dest) (\<lambda>dest'. copy_chunks i ns dest')"

definition fill_first_row :: "nat \<Rightarrow> nat \<Rightarrow> bytes \<Rightarrow> bytes \<Rightarrow> (unit, bytes) outcome" where
  "fill_first_row i w px dest =
     try_then (fill_pixels i px [0..<min w CHUNK] dest) (\<lambda>dest.
       if 16 < w
       then try_then (copy_chunks i [1..<w div CHUNK] dest) (\<lambda>dest.
         copy_within i (i + (w - w mod CHUNK) * 4) (w mod CHUNK * 4) dest)
       else Ok dest)"

fun copy_rows :: "nat \<Rightarrow> nat \<Rightarrow> nat \<Rightarrow> nat \<Rightarrow> nat list \<Rightarrow> bytes \<Rightarrow> (unit, bytes) outcome" where
  "copy_rows stride x y w [] dest = Ok dest"
| "copy_rows stride x y w (oy # oys) dest =
    (let i = ((y + oy) * stride + x) * 4
     in if stride < w then Panic
        else try_then (copy_within (i - stride * 4) i (w * 4) dest) (\<lambda>dest'. copy_rows stride x y w oys dest'))"

definition fill_rect :: "frame_buffer \<Rightarrow> rect \<Rightarrow> color \<Rightarrow> (unit, frame_buffer) outcome" where
  "fill_rect fb rect0 c =
     try_then (intersect (fb_rect fb) rect0) (\<lambda>r. case r of
         None \<Rightarrow> Ok fb
       | Some rect \<Rightarrow>
           (let x = nat (rect_x rect); y = nat (rect_y rect); w = rect_w rect; h = rect_h rect;
                stride = fb_stride fb; px = encoder (fb_format fb) c
            in if h = 0 then Ok fb
               else try_then (fill_first_row ((y * stride + x) * 4) w px (fb_bytes fb)) (\<lambda>bs.
                 try_then (copy_rows stride x y w [1..<h] bs) (\<lambda>bs. Ok (fb\<lparr>fb_bytes := bs\<rparr>)))))"

definition clear_buffer :: "frame_buffer \<Rightarrow> color \<Rightarrow> (unit, frame_buffer) outcome" where
  "clear_buffer fb c = fill_rect fb (fb_rect fb) c"

section \<open>Pixels\<close>

text \<open>The bytes of the pixel in column \<open>u\<close> and row \<open>v\<close>.\<close>

definition pixel :: "nat \<Rightarrow> nat \<Rightarrow> nat \<Rightarrow> bytes \<Rightarrow> bytes" where
  "pixel stride u v xs = array 4 ((v * stride + u) * 4) xs"

definition fb_ok :: "frame_buffer \<Rightarrow> bool" where
  "fb_ok fb \<longleftrightarrow> fb_width fb \<le> fb_stride fb \<and> fb_width fb < 2 ^ 31 \<and> fb_height fb < 2 ^ 31
     \<and> length (fb_bytes fb) = fb_stride fb * fb_height fb * 4"

abbreviation fb_pixel :: "frame_buffer \<Rightarrow> nat \<Rightarrow> nat \<Rightarrow> bytes" where
  "fb_pixel fb u v \<equiv> pixel (fb_stride fb) u v (fb_bytes fb)"

text \<open>Two buffers of the same shape.\<close>

definition same_shape :: "frame_buffer \<Rightarrow> frame_buffer \<Rightarrow> bool" where
  "same_shape fb fb' \<longleftrightarrow> fb_width fb' = fb_width fb \<and> fb_height fb' = fb_height fb
     \<and> fb_stride fb' = fb_stride fb \<and> fb_format fb' = fb_format fb \<and> length (fb_bytes fb') = length (fb_bytes fb)"

lemma same_shape_ok: "same_shape fb fb' \<Longrightarrow> fb_ok fb \<Longrightarrow> fb_ok fb'"
  by (simp add: same_shape_def fb_ok_def)

lemma same_shape_trans: "same_shape a b \<Longrightarrow> same_shape b c \<Longrightarrow> same_shape a c"
  by (simp add: same_shape_def)

lemma same_shape_refl [simp]: "same_shape a a"
  by (simp add: same_shape_def)

lemma array_copy_inside:
  assumes "off + length ys \<le> length xs" and "off \<le> k" and "k + n \<le> off + length ys"
  shows "array n k (copy_from_array off ys xs) = array n (k - off) ys"
  using assms by (intro nth_equalityI) (auto simp: slice_simps)

lemma row_end:
  assumes "(v :: nat) < h" and "u + n \<le> stride"
  shows "(v * stride + u) * 4 + n * 4 \<le> stride * h * 4"
proof -
  have "Suc v * stride \<le> h * stride" using assms(1) by (intro mult_le_mono1) simp
  with assms(2) show ?thesis by (simp add: algebra_simps)
qed

lemma row_order:
  assumes "(v :: nat) < v'" and "u < stride"
  shows "(v * stride + u) * 4 + 4 \<le> (v' * stride + u') * 4"
proof -
  have "Suc v * stride \<le> v' * stride" using assms(1) by (intro mult_le_mono1) simp
  with assms(2) show ?thesis by (simp add: algebra_simps)
qed

text \<open>Copying into one row changes just the pixels there.\<close>

lemma pixel_copy_row:
  assumes "length xs = stride * h * 4" and "y < h" and "length row = w * 4" and "x + w \<le> stride"
    and "u < stride" and "v < h"
  shows "pixel stride u v (copy_from_array ((y * stride + x) * 4) row xs) =
    (if v = y \<and> x \<le> u \<and> u < x + w then array 4 ((u - x) * 4) row else pixel stride u v xs)"
proof -
  have fits: "(y * stride + x) * 4 + length row \<le> length xs"
    using row_end [OF assms(2), of x w stride] assms(1,3,4) by simp
  have fits': "(v * stride + u) * 4 + 4 \<le> length xs"
    using row_end [OF assms(6), of u 1 stride] assms(1,5) by simp
  show ?thesis
  proof (cases "v = y \<and> x \<le> u \<and> u < x + w")
    case True
    then have "(y * stride + x) * 4 \<le> (v * stride + u) * 4" "(v * stride + u) * 4 + 4 \<le> (y * stride + x) * 4 + length row"
      using assms(3) by (simp_all add: algebra_simps)
    moreover have "(v * stride + u) * 4 - (y * stride + x) * 4 = (u - x) * 4" using True by (simp add: algebra_simps)
    ultimately show ?thesis using array_copy_inside [OF fits] True by (simp add: pixel_def)
  next
    case False
    then consider "v < y" | "y < v" | "v = y" "u < x" | "v = y" "x + w \<le> u" by linarith
    then have "(v * stride + u) * 4 + 4 \<le> (y * stride + x) * 4
        \<or> (y * stride + x) * 4 + length row \<le> (v * stride + u) * 4"
    proof cases
      case 1
      with row_order [of v y u stride x] assms(5) show ?thesis by simp
    next
      case 2
      have "Suc y * stride \<le> v * stride" using 2 by (intro mult_le_mono1) simp
      with assms(3,4) show ?thesis by (simp add: algebra_simps)
    qed (use assms(3) in \<open>simp_all add: algebra_simps\<close>)
    with array_copy_other [OF fits fits'] False show ?thesis by (auto simp: pixel_def)
  qed
qed

text \<open>Rows copied one after the other.\<close>

definition copy_row :: "nat \<Rightarrow> nat \<Rightarrow> nat \<Rightarrow> (nat \<Rightarrow> bytes) \<Rightarrow> nat \<Rightarrow> bytes \<Rightarrow> bytes" where
  "copy_row stride x y rows dy xs = copy_from_array (((y + dy) * stride + x) * 4) (rows dy) xs"

lemma copy_rows_pixels:
  assumes "length xs = stride * h * 4" and "\<forall>dy\<in>set dys. y + dy < h \<and> length (rows dy) = w * 4" and "x + w \<le> stride"
  shows "length (fold (copy_row stride x y rows) dys xs) = length xs"
    and "u < stride \<Longrightarrow> v < h \<Longrightarrow> pixel stride u v (fold (copy_row stride x y rows) dys xs) =
      (if y \<le> v \<and> v - y \<in> set dys \<and> x \<le> u \<and> u < x + w then array 4 ((u - x) * 4) (rows (v - y))
       else pixel stride u v xs)"
proof -
  have "length (fold (copy_row stride x y rows) dys xs) = length xs
    \<and> (u < stride \<longrightarrow> v < h \<longrightarrow> pixel stride u v (fold (copy_row stride x y rows) dys xs) =
      (if y \<le> v \<and> v - y \<in> set dys \<and> x \<le> u \<and> u < x + w then array 4 ((u - x) * 4) (rows (v - y))
       else pixel stride u v xs))"
    using assms(1,2)
  proof (induction dys arbitrary: xs)
    case (Cons dy dys)
    have dy: "y + dy < h" "length (rows dy) = w * 4" using Cons.prems by auto
    have "((y + dy) * stride + x) * 4 + length (rows dy) \<le> length xs"
      using row_end [OF dy(1), of x w stride] dy(2) assms(3) Cons.prems(1) by simp
    then have len: "length (copy_row stride x y rows dy xs) = length xs" by (simp add: copy_row_def)
    have one: "pixel stride u v (copy_row stride x y rows dy xs) =
        (if v = y + dy \<and> x \<le> u \<and> u < x + w then array 4 ((u - x) * 4) (rows dy) else pixel stride u v xs)"
      if "u < stride" "v < h"
      using pixel_copy_row [OF Cons.prems(1) dy assms(3) that] by (simp add: copy_row_def)
    show ?case using Cons.IH [of "copy_row stride x y rows dy xs"] Cons.prems len one by auto
  qed simp
  then show "length (fold (copy_row stride x y rows) dys xs) = length xs"
    "u < stride \<Longrightarrow> v < h \<Longrightarrow> pixel stride u v (fold (copy_row stride x y rows) dys xs) =
      (if y \<le> v \<and> v - y \<in> set dys \<and> x \<le> u \<and> u < x + w then array 4 ((u - x) * 4) (rows (v - y))
       else pixel stride u v xs)"
    by blast+
qed

lemma blit_rows_ok:
  assumes "length xs = stride * h * 4" and "\<forall>dy\<in>set dys. y + dy < h" and "x + w \<le> stride"
    and "length src = src_stride * src_h * 4" and "\<forall>dy\<in>set dys. oy + dy < src_h" and "ox + w \<le> src_stride"
  shows "blit_rows src src_stride ox oy stride x y (w * 4) dys xs =
    Ok (fold (copy_row stride x y (\<lambda>dy. array (w * 4) (((oy + dy) * src_stride + ox) * 4) src)) dys xs)"
  using assms(1,2,5)
proof (induction dys arbitrary: xs)
  case (Cons dy dys)
  have src: "((oy + dy) * src_stride + ox) * 4 + w * 4 \<le> length src"
    using row_end [of "oy + dy" src_h ox w src_stride] Cons.prems(3) assms(4,6) by simp
  have dest: "((y + dy) * stride + x) * 4 + w * 4 \<le> length xs"
    using row_end [of "y + dy" h x w stride] Cons.prems(1,2) assms(3) by simp
  with src Cons show ?case
    by (simp add: read_slice_def write_slice_def in_range_def Let_def copy_row_def)
qed simp

section \<open>Rectangles on a buffer\<close>

lemma as_i32_small [simp]: "n < 2 ^ 31 \<Longrightarrow> as_i32 n = int n"
  by (simp add: as_i32_def Let_def zmod_int)

text \<open>A rectangle whose corners are in the range of the coordinates.\<close>

definition rect_ok :: "rect \<Rightarrow> bool" where
  "rect_ok r \<longleftrightarrow> i32_range (rect_x r) \<and> i32_range (rect_y r) \<and> rect_w r < 2 ^ 31 \<and> rect_h r < 2 ^ 31
     \<and> i32_range (rect_x r + int (rect_w r)) \<and> i32_range (rect_y r + int (rect_h r))"

definition in_rect :: "rect \<Rightarrow> int \<Rightarrow> int \<Rightarrow> bool" where
  "in_rect r x y \<longleftrightarrow> rect_x r \<le> x \<and> x < rect_x r + int (rect_w r) \<and> rect_y r \<le> y \<and> y < rect_y r + int (rect_h r)"

lemma contains_ok: "rect_ok r \<Longrightarrow> contains r x y = Ok (in_rect r x y)"
  by (auto simp: rect_ok_def contains_def in_rect_def add_i32_def)

lemma fb_rect_simps [simp]:
  "fb_ok fb \<Longrightarrow> fb_rect fb = \<lparr>rect_x = 0, rect_y = 0, rect_w = fb_width fb, rect_h = fb_height fb\<rparr>"
  by (simp add: fb_rect_def fb_ok_def)

lemma fb_rect_ok: "fb_ok fb \<Longrightarrow> rect_ok (fb_rect fb)"
  by (simp add: rect_ok_def i32_range_def) (simp add: fb_ok_def)

text \<open>The intersection contains exactly the common points.\<close>

lemma intersect_ok:
  assumes "rect_ok r" and "rect_ok s" and "0 \<le> rect_x r" and "0 \<le> rect_y r"
  obtains (none) "intersect r s = Ok None" and "\<And>x y. \<not> (in_rect r x y \<and> in_rect s x y)"
  | (some) t where "intersect r s = Ok (Some t)" and "rect_x t = max (rect_x r) (rect_x s)"
    and "rect_y t = max (rect_y r) (rect_y s)"
    and "rect_x t + int (rect_w t) = min (rect_x r + int (rect_w r)) (rect_x s + int (rect_w s))"
    and "rect_y t + int (rect_h t) = min (rect_y r + int (rect_h r)) (rect_y s + int (rect_h s))"
proof -
  define lx ly rx ry where "lx = max (rect_x r) (rect_x s)" and "ly = max (rect_y r) (rect_y s)"
    and "rx = min (rect_x r + int (rect_w r)) (rect_x s + int (rect_w s))"
    and "ry = min (rect_y r + int (rect_h r)) (rect_y s + int (rect_h s))"
  have eq: "intersect r s = (if rx < lx \<or> ry < ly then Ok None
      else try_then (sub_i32 rx lx) (\<lambda>w. try_then (sub_i32 ry ly) (\<lambda>h.
        Ok (Some \<lparr>rect_x = lx, rect_y = ly, rect_w = nat w, rect_h = nat h\<rparr>))))"
    using assms(1,2) by (simp add: intersect_def rect_ok_def add_i32_def lx_def ly_def rx_def ry_def Let_def)
  show ?thesis
  proof (cases "rx < lx \<or> ry < ly")
    case True
    then show ?thesis using eq
      by (intro none) (auto simp: in_rect_def lx_def ly_def rx_def ry_def)
  next
    case False
    have "i32_range (rx - lx)" "i32_range (ry - ly)"
      using assms False by (auto simp: i32_range_def rect_ok_def rx_def lx_def ry_def ly_def)
    then have "intersect r s = Ok (Some \<lparr>rect_x = lx, rect_y = ly, rect_w = nat (rx - lx), rect_h = nat (ry - ly)\<rparr>)"
      using eq False by (simp add: sub_i32_def)
    then show ?thesis
      by (rule some) (use False in \<open>simp_all flip: lx_def ly_def rx_def ry_def\<close>)
  qed
qed

section \<open>Blitting\<close>

lemma fb_bytes_update [simp]:
  "length bs = length (fb_bytes fb) \<Longrightarrow> same_shape fb (fb\<lparr>fb_bytes := bs\<rparr>)"
  by (simp add: same_shape_def)

lemma array_array: "i + n \<le> m \<Longrightarrow> j + m \<le> length xs \<Longrightarrow> array n i (array m j xs) = array n (j + i) xs"
  by (intro nth_equalityI) (auto simp: slice_simps ac_simps)

text \<open>The place of a buffer on another one.\<close>

definition placed_at :: "frame_buffer \<Rightarrow> int \<Rightarrow> int \<Rightarrow> nat \<Rightarrow> nat \<Rightarrow> bool" where
  "placed_at src x y u v \<longleftrightarrow> x \<le> int u \<and> int u < x + int (fb_width src) \<and> y \<le> int v \<and> int v < y + int (fb_height src)"

definition blit_spec :: "frame_buffer \<Rightarrow> int \<Rightarrow> int \<Rightarrow> frame_buffer \<Rightarrow> frame_buffer \<Rightarrow> bool" where
  "blit_spec fb x y src fb' \<longleftrightarrow> same_shape fb fb'
     \<and> (\<forall>u v. u < fb_stride fb \<longrightarrow> v < fb_height fb \<longrightarrow> fb_pixel fb' u v =
         (if u < fb_width fb \<and> placed_at src x y u v then fb_pixel src (nat (int u - x)) (nat (int v - y))
          else fb_pixel fb u v))"

lemma in_rows_iff:
  fixes t :: rect
  assumes "0 \<le> rect_x t" and "0 \<le> rect_y t"
  shows "nat (rect_y t) \<le> v \<and> v - nat (rect_y t) \<in> set [0..<rect_h t]
      \<and> nat (rect_x t) \<le> u \<and> u < nat (rect_x t) + rect_w t \<longleftrightarrow> in_rect t (int u) (int v)"
proof -
  have "nat (rect_y t) \<le> v \<and> v - nat (rect_y t) < rect_h t \<longleftrightarrow> rect_y t \<le> int v \<and> int v < rect_y t + int (rect_h t)"
    "nat (rect_x t) \<le> u \<and> u < nat (rect_x t) + rect_w t \<longleftrightarrow> rect_x t \<le> int u \<and> int u < rect_x t + int (rect_w t)"
    using assms by linarith+
  then show ?thesis by (auto simp: in_rect_def)
qed

lemma blit_clipped:
  fixes t :: rect
  assumes "fb_ok fb" and "fb_ok src" and "rect_x t = max 0 x" and "rect_y t = max 0 y"
    and "rect_x t + int (rect_w t) = min (int (fb_width fb)) (x + int (fb_width src))"
    and "rect_y t + int (rect_h t) = min (int (fb_height fb)) (y + int (fb_height src))"
  shows "\<exists>bs. blit_rows (fb_bytes src) (fb_stride src) (nat (rect_x t - x)) (nat (rect_y t - y)) (fb_stride fb)
      (nat (rect_x t)) (nat (rect_y t)) (rect_w t * 4) [0..<rect_h t] (fb_bytes fb) = Ok bs
    \<and> blit_spec fb x y src (fb\<lparr>fb_bytes := bs\<rparr>)"
proof -
  let ?ox = "nat (rect_x t - x)" let ?oy = "nat (rect_y t - y)" let ?x = "nat (rect_x t)" let ?y = "nat (rect_y t)"
  let ?rows = "\<lambda>dy. array (rect_w t * 4) (((?oy + dy) * fb_stride src + ?ox) * 4) (fb_bytes src)"
  let ?bs = "fold (copy_row (fb_stride fb) ?x ?y ?rows) [0..<rect_h t] (fb_bytes fb)"
  have x: "int ?x = rect_x t" "int ?y = rect_y t" "int ?ox = rect_x t - x" "int ?oy = rect_y t - y"
    using assms(3,4) by auto
  have pos: "0 \<le> rect_x t" "0 \<le> rect_y t" using assms(3,4) by simp_all
  have le: "rect_x t + int (rect_w t) \<le> int (fb_width fb)" "rect_x t + int (rect_w t) \<le> x + int (fb_width src)"
    "rect_y t + int (rect_h t) \<le> int (fb_height fb)" "rect_y t + int (rect_h t) \<le> y + int (fb_height src)"
    using assms(5,6) by simp_all
  have w: "fb_width fb \<le> fb_stride fb" "fb_width src \<le> fb_stride src" using assms(1,2) by (simp_all add: fb_ok_def)
  have fit: "?x + rect_w t \<le> fb_stride fb" "?ox + rect_w t \<le> fb_stride src" using x le w by linarith+
  have rows_in: "?y + dy < fb_height fb \<and> ?oy + dy < fb_height src" if "dy < rect_h t" for dy
    using that x le by linarith
  have len: "length (fb_bytes fb) = fb_stride fb * fb_height fb * 4"
    "length (fb_bytes src) = fb_stride src * fb_height src * 4"
    using assms(1,2) by (simp_all add: fb_ok_def)
  have rows: "\<forall>dy\<in>set [0..<rect_h t]. ?y + dy < fb_height fb \<and> length (?rows dy) = rect_w t * 4"
  proof
    fix dy assume "dy \<in> set [0..<rect_h t]"
    then have "?y + dy < fb_height fb" "?oy + dy < fb_height src" using rows_in by simp_all
    with row_end [OF this(2) fit(2)] len(2)
    show "?y + dy < fb_height fb \<and> length (?rows dy) = rect_w t * 4" by simp
  qed
  note px = copy_rows_pixels [OF len(1) rows fit(1)]
  have "fb_pixel (fb\<lparr>fb_bytes := ?bs\<rparr>) u v =
      (if u < fb_width fb \<and> placed_at src x y u v then fb_pixel src (nat (int u - x)) (nat (int v - y))
       else fb_pixel fb u v)"
    if "u < fb_stride fb" "v < fb_height fb" for u v
  proof -
    have iff: "?y \<le> v \<and> v - ?y \<in> set [0..<rect_h t] \<and> ?x \<le> u \<and> u < ?x + rect_w t
        \<longleftrightarrow> u < fb_width fb \<and> placed_at src x y u v"
      unfolding in_rows_iff [OF pos] using that(2) assms(3-6) by (auto simp: in_rect_def placed_at_def)
    show ?thesis
    proof (cases "u < fb_width fb \<and> placed_at src x y u v")
      case True
      with iff have v: "?y \<le> v" "v - ?y < rect_h t" "?x \<le> u" "u < ?x + rect_w t" by auto
      have "?oy + (v - ?y) = nat (int v - y)" "?ox + (u - ?x) = nat (int u - x)" using v x by linarith+
      then have e1: "((?oy + (v - ?y)) * fb_stride src + ?ox) * 4 + (u - ?x) * 4
          = (nat (int v - y) * fb_stride src + nat (int u - x)) * 4"
        by (metis add.assoc add_mult_distrib)
      have e2: "((?oy + (v - ?y)) * fb_stride src + ?ox) * 4 + rect_w t * 4 \<le> length (fb_bytes src)"
        using row_end [of "?oy + (v - ?y)" "fb_height src" ?ox "rect_w t" "fb_stride src"] fit rows_in [OF v(2)] len(2) by simp
      have "(u - ?x) * 4 + 4 \<le> rect_w t * 4" using v by linarith
      from array_array [OF this e2]
      have "array 4 ((u - ?x) * 4) (?rows (v - ?y)) = fb_pixel src (nat (int u - x)) (nat (int v - y))"
        by (simp only: e1 pixel_def)
      with px(2) [OF that] iff True show ?thesis by simp
    next
      case False
      with px(2) [OF that] iff show ?thesis by auto
    qed
  qed
  then have "blit_spec fb x y src (fb\<lparr>fb_bytes := ?bs\<rparr>)"
    using px(1) by (simp add: blit_spec_def)
  moreover have "blit_rows (fb_bytes src) (fb_stride src) ?ox ?oy (fb_stride fb) ?x ?y (rect_w t * 4) [0..<rect_h t]
      (fb_bytes fb) = Ok ?bs"
    using fit rows_in by (intro blit_rows_ok [OF len(1) _ _ len(2)]) auto
  ultimately show ?thesis by blast
qed

lemma blit_ok:
  assumes "fb_ok fb" and "fb_ok src" and "i32_range x" and "i32_range y"
    and "i32_range (x + int (fb_width src))" and "i32_range (y + int (fb_height src))"
  shows "\<exists>fb'. blit fb x y src = Ok fb' \<and> blit_spec fb x y src fb'"
proof -
  let ?r = "\<lparr>rect_x = x, rect_y = y, rect_w = fb_width src, rect_h = fb_height src\<rparr>"
  have off: "offset (fb_rect src) x y = Ok ?r" using assms by (simp add: offset_def add_i32_def)
  have "rect_ok ?r" using assms by (simp add: rect_ok_def fb_ok_def)
  moreover have "0 \<le> rect_x (fb_rect fb)" "0 \<le> rect_y (fb_rect fb)" by (simp_all add: fb_rect_def)
  ultimately show ?thesis
  proof (rule intersect_ok [OF fb_rect_ok [OF assms(1)]], goal_cases)
    case none: 1
    have "\<not> (u < fb_width fb \<and> placed_at src x y u v)" if "v < fb_height fb" for u v
      using none(2) [of "int u" "int v"] that assms(1) by (auto simp: in_rect_def placed_at_def)
    then have "blit_spec fb x y src fb" by (auto simp: blit_spec_def)
    then show ?thesis using none(1) off by (simp add: blit_def)
  next
    case some: (2 t)
    then have t: "rect_x t = max 0 x" "rect_y t = max 0 y"
      "rect_x t + int (rect_w t) = min (int (fb_width fb)) (x + int (fb_width src))"
      "rect_y t + int (rect_h t) = min (int (fb_height fb)) (y + int (fb_height src))"
      using assms(1) by simp_all
    have "i32_range (rect_y t - y)" "i32_range (rect_x t - x)"
      using t assms(2-4) by (auto simp: i32_range_def fb_ok_def)
    with blit_clipped [OF assms(1,2) t] some(1) off show ?thesis
      by (auto simp: blit_def sub_i32_def)
  qed
qed

section \<open>Filling\<close>

abbreviation run_of :: "nat \<Rightarrow> bytes \<Rightarrow> bytes" where
  "run_of n px \<equiv> concat (replicate n px)"

lemma length_run_of [simp]: "length (run_of n px) = n * length px"
  by (induction n) auto

lemma run_of_add: "run_of m px @ run_of n px = run_of (m + n) px"
  by (simp add: replicate_add)

lemma run_of_array:
  "m * length px + n * length px \<le> k * length px \<Longrightarrow> array (n * length px) (m * length px) (run_of k px) = run_of n px"
proof (cases "px = []")
  case False
  assume "m * length px + n * length px \<le> k * length px"
  then have "(m + n) * length px \<le> k * length px" by (simp add: add_mult_distrib)
  with False have "m + n \<le> k" by simp
  then obtain r where k: "k = m + (n + r)" using le_Suc_ex by (metis add.assoc)
  show ?thesis unfolding k by (simp add: replicate_add array_def)
qed (simp add: array_def)

lemma array_take: "j + n \<le> i \<Longrightarrow> array n j (take i xs) = array n j xs"
  by (simp add: array_def drop_take min_def)

text \<open>A run written so far grows by a copy of pixels from its beginning.\<close>

lemma copy_within_run:
  assumes "length px = 4" and "i + (m + n) * 4 \<le> length xs" and "n \<le> m"
  shows "copy_within i (i + m * 4) (n * 4) (copy_from_array i (run_of m px) xs)
    = Ok (copy_from_array i (run_of (m + n) px) xs)"
proof -
  let ?ys = "copy_from_array i (run_of m px) xs"
  have len: "length ?ys = length xs" using assms by simp
  have "array (n * 4) i (take (i + m * 4) ?ys) = array (n * 4) i ?ys"
    using assms(3) by (intro array_take) simp
  also have "\<dots> = array (n * 4) 0 (run_of m px)"
    using assms array_copy_inside [of i "run_of m px" xs i "n * 4"] by simp
  also have "\<dots> = run_of n px" using run_of_array [of 0 px n m] assms by simp
  finally have "read_slice i (n * 4) (take (i + m * 4) ?ys) = Ok (run_of n px)"
    using assms len by (simp add: read_slice_def in_range_def)
  moreover have "write_slice (i + m * 4) (run_of n px) ?ys = Ok (copy_from_array i (run_of (m + n) px) xs)"
    using assms len copy_copy_append [of i "run_of m px" "run_of n px" xs]
    by (simp add: write_slice_def in_range_def run_of_add add_mult_distrib)
  ultimately show ?thesis by (simp add: copy_within_def)
qed

lemma fill_pixels_run:
  assumes "length px = 4" and "i + n * 4 \<le> length xs" and "m \<le> n"
  shows "fill_pixels i px [m..<n] (copy_from_array i (run_of m px) xs) = Ok (copy_from_array i (run_of n px) xs)"
  using assms(3)
proof (induction "n - m" arbitrary: m)
  case (Suc k)
  then have m: "m < n" by simp
  have "i + m * 4 + 4 \<le> length xs" using m assms(2) by linarith
  then have "write_slice (i + m * 4) px (copy_from_array i (run_of m px) xs)
      = Ok (copy_from_array i (run_of (Suc m) px) xs)"
    using assms(1) copy_copy_append [of i "run_of m px" px xs] run_of_add [of m px 1]
    by (simp add: write_slice_def in_range_def)
  moreover have "fill_pixels i px [Suc m..<n] (copy_from_array i (run_of (Suc m) px) xs)
      = Ok (copy_from_array i (run_of n px) xs)"
    by (rule Suc.hyps(1)) (use Suc.hyps(2) m in simp_all)
  ultimately show ?case using m by (simp add: upt_conv_Cons)
qed (simp add: assms)

lemma copy_chunks_run:
  assumes "length px = 4" and "i + k * CHUNK * 4 \<le> length xs" and "1 \<le> m" and "m \<le> k"
  shows "copy_chunks i [m..<k] (copy_from_array i (run_of (m * CHUNK) px) xs)
    = Ok (copy_from_array i (run_of (k * CHUNK) px) xs)"
  using assms(3,4)
proof (induction "k - m" arbitrary: m)
  case (Suc n)
  then have m: "m < k" by simp
  then have "Suc m * CHUNK \<le> k * CHUNK" by (intro mult_le_mono1) simp
  then have "i + (m * CHUNK + CHUNK) * 4 \<le> length xs" using assms(2) by simp
  moreover have "CHUNK \<le> m * CHUNK" using Suc.prems(1) by simp
  ultimately have "copy_within i (i + m * CHUNK * 4) (CHUNK * 4) (copy_from_array i (run_of (m * CHUNK) px) xs)
      = Ok (copy_from_array i (run_of (m * CHUNK + CHUNK) px) xs)"
    by (rule copy_within_run [OF assms(1)])
  moreover have "m * CHUNK + CHUNK = Suc m * CHUNK" by simp
  moreover have "copy_chunks i [Suc m..<k] (copy_from_array i (run_of (Suc m * CHUNK) px) xs)
      = Ok (copy_from_array i (run_of (k * CHUNK) px) xs)"
    by (rule Suc.hyps(1)) (use Suc.hyps(2) m in simp_all)
  ultimately show ?case using m by (simp only: upt_conv_Cons copy_chunks.simps try_then.simps)
qed simp

lemma fill_first_row_run:
  assumes "length px = 4" and "i + w * 4 \<le> length xs"
  shows "fill_first_row i w px xs = Ok (copy_from_array i (run_of w px) xs)"
proof (cases "16 < w")
  case False
  then have "min w CHUNK = w" by (simp add: CHUNK_def)
  moreover have "copy_from_array i (run_of 0 px) xs = xs" by (simp add: copy_from_array_def)
  ultimately show ?thesis
    using False fill_pixels_run [OF assms, of 0] by (simp add: fill_first_row_def)
next
  case True
  let ?k = "w div CHUNK" and ?r = "w mod CHUNK"
  have k1: "1 \<le> ?k" "?k * CHUNK + ?r = w" "?r < CHUNK" "CHUNK = 16" using True by (simp_all add: CHUNK_def)
  have "1 * CHUNK \<le> ?k * CHUNK" using k1(1) by (rule mult_le_mono1)
  with k1 have k: "1 \<le> ?k" "?k * CHUNK + ?r = w" "?r \<le> ?k * CHUNK" "w - ?r = ?k * CHUNK" by linarith+
  have "copy_from_array i (run_of 0 px) xs = xs" by (simp add: copy_from_array_def)
  then have "fill_pixels i px [0..<min w CHUNK] xs = Ok (copy_from_array i (run_of (1 * CHUNK) px) xs)"
    using fill_pixels_run [OF assms(1), of i CHUNK xs 0] True assms(2) by (simp add: CHUNK_def)
  moreover have "copy_chunks i [1..<?k] (copy_from_array i (run_of (1 * CHUNK) px) xs)
      = Ok (copy_from_array i (run_of (?k * CHUNK) px) xs)"
    using copy_chunks_run [OF assms(1), of i ?k xs 1] k(1,2) assms(2) by simp
  moreover have "copy_within i (i + (w - ?r) * 4) (?r * 4) (copy_from_array i (run_of (?k * CHUNK) px) xs)
      = Ok (copy_from_array i (run_of w px) xs)"
    using copy_within_run [OF assms(1), of i "?k * CHUNK" ?r xs] k assms(2) by simp
  ultimately show ?thesis using True by (simp add: fill_first_row_def)
qed

text \<open>The row above is already filled, so the copied rows are all the same run.\<close>

lemma copy_rows_run:
  assumes "length px = 4" and "length xs = stride * h0 * 4" and "y + h \<le> h0" and "x + w \<le> stride" and "1 \<le> m" and "m \<le> h"
  defines "rows \<equiv> \<lambda>dy :: nat. run_of w px"
  assumes "array (w * 4) (((y + (m - 1)) * stride + x) * 4) xs = run_of w px"
  shows "copy_rows stride x y w [m..<h] xs = Ok (fold (copy_row stride x y rows) [m..<h] xs)"
  using assms(2,5,6,8)
proof (induction "h - m" arbitrary: m xs)
  case (Suc n)
  then have m: "m < h" by simp
  let ?i = "((y + m) * stride + x) * 4" and ?ys = "copy_row stride x y rows m xs"
  have prev: "?i - stride * 4 = ((y + (m - 1)) * stride + x) * 4"
    using Suc.prems(2) by (cases m) (simp_all add: algebra_simps)
  have i: "?i + w * 4 \<le> length xs"
    using row_end [of "y + m" h0 x w stride] m assms(3,4) Suc.prems(1) by simp
  have above: "((y + (m - 1)) * stride + x) * 4 + w * 4 \<le> ?i"
    using Suc.prems(2) assms(4) by (cases m) (simp_all add: algebra_simps)
  have "array (w * 4) (?i - stride * 4) (take ?i xs) = run_of w px"
    using above Suc.prems(4) prev array_take by metis
  then have "copy_within (?i - stride * 4) ?i (w * 4) xs = Ok ?ys"
    using i above prev assms(1)
    by (simp add: copy_within_def read_slice_def write_slice_def in_range_def copy_row_def rows_def)
  moreover have "copy_rows stride x y w [Suc m..<h] ?ys = Ok (fold (copy_row stride x y rows) [Suc m..<h] ?ys)"
  proof (rule Suc.hyps(1))
    show "n = h - Suc m" "1 \<le> Suc m" "Suc m \<le> h" using Suc.hyps(2) m by simp_all
    show "length ?ys = stride * h0 * 4" using i Suc.prems(1) assms(1) by (simp add: copy_row_def rows_def)
    show "array (w * 4) (((y + (Suc m - 1)) * stride + x) * 4) ?ys = run_of w px"
      using i assms(1) by (simp add: copy_row_def rows_def)
  qed
  moreover have "\<not> stride < w" using assms(4) by simp
  ultimately show ?case using m by (simp add: upt_conv_Cons Let_def)
qed simp

definition fill_spec :: "frame_buffer \<Rightarrow> rect \<Rightarrow> color \<Rightarrow> frame_buffer \<Rightarrow> bool" where
  "fill_spec fb r c fb' \<longleftrightarrow> same_shape fb fb'
     \<and> (\<forall>u v. u < fb_stride fb \<longrightarrow> v < fb_height fb \<longrightarrow> fb_pixel fb' u v =
         (if u < fb_width fb \<and> in_rect r (int u) (int v) then encoder (fb_format fb) c else fb_pixel fb u v))"

lemma length_encoder [simp]: "length (encoder f c) = 4"
  by (cases f) simp_all

lemma fill_clipped:
  assumes "fb_ok fb" and "0 \<le> rect_x t" and "0 \<le> rect_y t" and "rect_x t + int (rect_w t) \<le> int (fb_width fb)"
    and "rect_y t + int (rect_h t) \<le> int (fb_height fb)" and "rect_h t \<noteq> 0"
  shows "\<exists>bs1 bs. fill_first_row ((nat (rect_y t) * fb_stride fb + nat (rect_x t)) * 4) (rect_w t)
        (encoder (fb_format fb) c) (fb_bytes fb) = Ok bs1
    \<and> copy_rows (fb_stride fb) (nat (rect_x t)) (nat (rect_y t)) (rect_w t) [1..<rect_h t] bs1 = Ok bs
    \<and> fill_spec fb t c (fb\<lparr>fb_bytes := bs\<rparr>)"
proof -
  let ?x = "nat (rect_x t)" let ?y = "nat (rect_y t)" let ?px = "encoder (fb_format fb) c"
  let ?rows = "\<lambda>dy :: nat. run_of (rect_w t) ?px"
  let ?row = "copy_row (fb_stride fb) ?x ?y ?rows"
  have x: "int ?x = rect_x t" "int ?y = rect_y t" using assms(2,3) by simp_all
  have w: "fb_width fb \<le> fb_stride fb" and len: "length (fb_bytes fb) = fb_stride fb * fb_height fb * 4"
    using assms(1) by (simp_all add: fb_ok_def)
  have fit: "?x + rect_w t \<le> fb_stride fb" "?y + rect_h t \<le> fb_height fb" "?y < fb_height fb"
    using x assms(4-6) w by linarith+
  have i: "(?y * fb_stride fb + ?x) * 4 + rect_w t * 4 \<le> length (fb_bytes fb)"
    using row_end [OF fit(3,1)] len by simp
  have first: "fill_first_row ((?y * fb_stride fb + ?x) * 4) (rect_w t) ?px (fb_bytes fb) = Ok (?row 0 (fb_bytes fb))"
    using fill_first_row_run [OF _ i, of ?px] by (simp add: copy_row_def)
  have "copy_rows (fb_stride fb) ?x ?y (rect_w t) [1..<rect_h t] (?row 0 (fb_bytes fb))
      = Ok (fold ?row [1..<rect_h t] (?row 0 (fb_bytes fb)))"
    using i len fit assms(6) by (intro copy_rows_run [where ?h0.0 = "fb_height fb"]) (simp_all add: copy_row_def)
  also have "fold ?row [1..<rect_h t] (?row 0 (fb_bytes fb)) = fold ?row [0..<rect_h t] (fb_bytes fb)"
    using assms(6) by (simp add: upt_conv_Cons)
  finally have rest: "copy_rows (fb_stride fb) ?x ?y (rect_w t) [1..<rect_h t] (?row 0 (fb_bytes fb))
      = Ok (fold ?row [0..<rect_h t] (fb_bytes fb))" .
  have rows: "\<forall>dy\<in>set [0..<rect_h t]. ?y + dy < fb_height fb \<and> length (?rows dy) = rect_w t * 4" using fit by auto
  note px = copy_rows_pixels [OF len rows fit(1)]
  have "fb_pixel (fb\<lparr>fb_bytes := fold ?row [0..<rect_h t] (fb_bytes fb)\<rparr>) u v =
      (if u < fb_width fb \<and> in_rect t (int u) (int v) then ?px else fb_pixel fb u v)"
    if "u < fb_stride fb" "v < fb_height fb" for u v
  proof -
    have iff: "?y \<le> v \<and> v - ?y \<in> set [0..<rect_h t] \<and> ?x \<le> u \<and> u < ?x + rect_w t
        \<longleftrightarrow> u < fb_width fb \<and> in_rect t (int u) (int v)"
      unfolding in_rows_iff [OF assms(2,3)] using assms(4) by (auto simp: in_rect_def)
    have "array 4 ((u - ?x) * 4) (run_of (rect_w t) ?px) = ?px" if "?x \<le> u" "u < ?x + rect_w t"
      using run_of_array [of "u - ?x" ?px 1 "rect_w t"] that by simp
    with px(2) [OF that] iff show ?thesis by auto
  qed
  then have "fill_spec fb t c (fb\<lparr>fb_bytes := fold ?row [0..<rect_h t] (fb_bytes fb)\<rparr>)"
    using px(1) by (simp add: fill_spec_def)
  with first rest show ?thesis by blast
qed

lemma fill_rect_ok:
  assumes "fb_ok fb" and "rect_ok r"
  shows "\<exists>fb'. fill_rect fb r c = Ok fb' \<and> fill_spec fb r c fb'"
proof -
  have "0 \<le> rect_x (fb_rect fb)" "0 \<le> rect_y (fb_rect fb)" by (simp_all add: fb_rect_def)
  with assms(2) show ?thesis
  proof (rule intersect_ok [OF fb_rect_ok [OF assms(1)]], goal_cases)
    case none: 1
    have "\<not> (u < fb_width fb \<and> in_rect r (int u) (int v))" if "v < fb_height fb" for u v
      using none(2) [of "int u" "int v"] that assms(1) by (auto simp: in_rect_def)
    then have "fill_spec fb r c fb" by (auto simp: fill_spec_def)
    with none(1) show ?thesis by (simp add: fill_rect_def)
  next
    case some: (2 t)
    then have t: "rect_x t = max 0 (rect_x r)" "rect_y t = max 0 (rect_y r)"
      "rect_x t + int (rect_w t) = min (int (fb_width fb)) (rect_x r + int (rect_w r))"
      "rect_y t + int (rect_h t) = min (int (fb_height fb)) (rect_y r + int (rect_h r))"
      using assms(1) by simp_all
    have "u < fb_width fb \<and> in_rect t (int u) (int v) \<longleftrightarrow> u < fb_width fb \<and> in_rect r (int u) (int v)"
      if "v < fb_height fb" for u v
      using that t by (auto simp: in_rect_def)
    then have spec: "fill_spec fb t c fb' = fill_spec fb r c fb'" for fb'
      unfolding fill_spec_def by (intro conj_cong refl all_cong imp_cong) auto
    show ?thesis
    proof (cases "rect_h t = 0")
      case True
      then have "fill_spec fb t c fb" by (auto simp: fill_spec_def in_rect_def)
      with True some(1) spec show ?thesis by (auto simp: fill_rect_def Let_def)
    next
      case False
      have "0 \<le> rect_x t" "0 \<le> rect_y t" "rect_x t + int (rect_w t) \<le> int (fb_width fb)"
        "rect_y t + int (rect_h t) \<le> int (fb_height fb)"
        using t by simp_all
      from fill_clipped [OF assms(1) this False] False some(1) spec show ?thesis
        by (fastforce simp: fill_rect_def Let_def)
    qed
  qed
qed

section \<open>Single pixels\<close>

lemma decode_encode [simp]: "decoder f (encoder f c) = c"
  by (cases f) (simp_all add: new_color_def)

lemma pixel_index_ok:
  assumes "fb_ok fb"
  shows "pixel_index fb x y = Ok (if in_rect (fb_rect fb) x y then Some ((nat y * fb_stride fb + nat x) * 4) else None)"
  using contains_ok [OF fb_rect_ok [OF assms]] by (simp add: pixel_index_def)

definition write_pixel_spec :: "frame_buffer \<Rightarrow> int \<Rightarrow> int \<Rightarrow> color \<Rightarrow> frame_buffer \<Rightarrow> bool" where
  "write_pixel_spec fb x y c fb' \<longleftrightarrow> same_shape fb fb'
     \<and> (\<forall>u v. u < fb_stride fb \<longrightarrow> v < fb_height fb \<longrightarrow> fb_pixel fb' u v =
         (if u < fb_width fb \<and> int u = x \<and> int v = y then encoder (fb_format fb) c else fb_pixel fb u v))"

lemma write_pixel_ok:
  assumes "fb_ok fb"
  shows "\<exists>fb'. write_pixel fb x y c = Ok (in_rect (fb_rect fb) x y, fb') \<and> write_pixel_spec fb x y c fb'"
proof (cases "in_rect (fb_rect fb) x y")
  case False
  then have "write_pixel_spec fb x y c fb" using assms by (auto simp: write_pixel_spec_def in_rect_def)
  with False pixel_index_ok [OF assms] show ?thesis by (simp add: write_pixel_def)
next
  case True
  then have xy: "0 \<le> x" "nat x < fb_width fb" "0 \<le> y" "nat y < fb_height fb"
    using assms by (auto simp: in_rect_def)
  have w: "fb_width fb \<le> fb_stride fb" and len: "length (fb_bytes fb) = fb_stride fb * fb_height fb * 4"
    using assms by (simp_all add: fb_ok_def)
  let ?i = "(nat y * fb_stride fb + nat x) * 4" let ?px = "encoder (fb_format fb) c"
  have fits: "?i + 4 \<le> length (fb_bytes fb)"
    using row_end [OF xy(4), of "nat x" 1 "fb_stride fb"] xy(2) w len by simp
  have one: "pixel (fb_stride fb) u v (copy_from_array ?i ?px (fb_bytes fb)) =
      (if v = nat y \<and> nat x \<le> u \<and> u < nat x + 1 then array 4 ((u - nat x) * 4) ?px else fb_pixel fb u v)"
    if "u < fb_stride fb" "v < fb_height fb" for u v
    using pixel_copy_row [OF len xy(4), of ?px 1 "nat x" u v] that xy(2) w by simp
  have "write_pixel_spec fb x y c (fb\<lparr>fb_bytes := copy_from_array ?i ?px (fb_bytes fb)\<rparr>)"
    unfolding write_pixel_spec_def
  proof (intro conjI allI impI)
    show "same_shape fb (fb\<lparr>fb_bytes := copy_from_array ?i ?px (fb_bytes fb)\<rparr>)" using fits by simp
    fix u v assume uv: "u < fb_stride fb" "v < fb_height fb"
    have "v = nat y \<and> nat x \<le> u \<and> u < nat x + 1 \<longleftrightarrow> u < fb_width fb \<and> int u = x \<and> int v = y" using xy by auto
    moreover have "array 4 0 ?px = ?px" by (simp add: array_def)
    ultimately show "fb_pixel (fb\<lparr>fb_bytes := copy_from_array ?i ?px (fb_bytes fb)\<rparr>) u v =
        (if u < fb_width fb \<and> int u = x \<and> int v = y then ?px else fb_pixel fb u v)"
      using one [OF uv] by auto
  qed
  moreover have "write_slice ?i ?px (fb_bytes fb) = Ok (copy_from_array ?i ?px (fb_bytes fb))"
    using fits by (simp add: write_slice_def in_range_def)
  ultimately show ?thesis using True pixel_index_ok [OF assms] by (simp add: write_pixel_def)
qed

lemma read_pixel_ok:
  assumes "fb_ok fb"
  shows "read_pixel fb x y = Ok (if in_rect (fb_rect fb) x y
    then Some (decoder (fb_format fb) (fb_pixel fb (nat x) (nat y))) else None)"
proof (cases "in_rect (fb_rect fb) x y")
  case True
  then have xy: "nat x < fb_width fb" "nat y < fb_height fb" using assms by (auto simp: in_rect_def)
  then have "(nat y * fb_stride fb + nat x) * 4 + 4 \<le> length (fb_bytes fb)"
    using row_end [OF xy(2), of "nat x" 1 "fb_stride fb"] assms by (simp add: fb_ok_def)
  with True pixel_index_ok [OF assms] show ?thesis
    by (simp add: read_pixel_def read_slice_def in_range_def pixel_def)
qed (use pixel_index_ok [OF assms] in \<open>simp add: read_pixel_def\<close>)

lemma new_vec_buffer_ok: "w < 2 ^ 31 \<Longrightarrow> h < 2 ^ 31 \<Longrightarrow> fb_ok (new_vec_buffer w h f)"
  by (simp add: new_vec_buffer_def fb_ok_def)

text \<open>
  C19: Filling a rectangle (16 pixels, copies of them, and copies of the first row) has the effect of writing
  the color to every pixel of the rectangle that lies on the buffer, and to no other, for rectangles of any
  size and position whose corners are \<open>i32\<close> values; in particular the bytes between the rows stay as they are.
\<close>

theorem fill_rect_pixels:
  assumes "fb_ok fb" and "rect_ok r"
  shows "\<exists>fb'. fill_rect fb r c = Ok fb' \<and> same_shape fb fb'
    \<and> (\<forall>u<fb_stride fb. \<forall>v<fb_height fb. fb_pixel fb' u v =
        (if u < fb_width fb \<and> in_rect r (int u) (int v) then encoder (fb_format fb) c else fb_pixel fb u v))"
  using fill_rect_ok [OF assms, of c] by (simp add: fill_spec_def)

theorem fill_rect_pixels_witness:
  "\<exists>fb'. fill_rect (new_vec_buffer 40 2 Bgrx) \<lparr>rect_x = - 1, rect_y = 0, rect_w = 30, rect_h = 9\<rparr> (new_color 1 2 3) = Ok fb'
     \<and> fb_pixel fb' 28 1 = [3, 2, 1, 255] \<and> fb_pixel fb' 29 1 = [0, 0, 0, 0]"
proof -
  have "fb_ok (new_vec_buffer 40 2 Bgrx)" "rect_ok \<lparr>rect_x = - 1, rect_y = 0, rect_w = 30, rect_h = 9\<rparr>"
    by (simp_all add: new_vec_buffer_ok rect_ok_def i32_range_def)
  from fill_rect_pixels [OF this, of "new_color 1 2 3"] obtain fb' where fb':
    "fill_rect (new_vec_buffer 40 2 Bgrx) \<lparr>rect_x = - 1, rect_y = 0, rect_w = 30, rect_h = 9\<rparr> (new_color 1 2 3) = Ok fb'"
    "same_shape (new_vec_buffer 40 2 Bgrx) fb'"
    "\<forall>u<40. \<forall>v<2. fb_pixel fb' u v = (if u < 40
        \<and> in_rect \<lparr>rect_x = - 1, rect_y = 0, rect_w = 30, rect_h = 9\<rparr> (int u) (int v)
       then encoder Bgrx (new_color 1 2 3) else fb_pixel (new_vec_buffer 40 2 Bgrx) u v)"
    by (auto simp: new_vec_buffer_def)
  moreover have "fb_pixel (new_vec_buffer 40 2 Bgrx) 29 1 = [0, 0, 0, 0]"
    by (simp add: new_vec_buffer_def pixel_def array_def numeral_eq_Suc)
  ultimately show ?thesis by (simp add: in_rect_def new_color_def)
qed

end
