(* ===== verification/Mono_Font.thy ===== *)
theory Mono_Font
  imports Frame_Buffer Unicode
begin

text \<open>
  The monospace font, \<open>graphics/font.rs\<close>: glyphs are rasterised by the \<open>ab_glyph\<close> crate and kept in a cache.
  The crate is a parameter: for a character in a style it gives the corner of the outline and the pixels it
  draws, with their coverage; so is \<open>Color::mix\<close>, which computes with floating point numbers.
\<close>

datatype font_style = NormalStyle | BoldStyle

definition is_bold :: "font_style \<Rightarrow> bool" where
  "is_bold s \<longleftrightarrow> s = BoldStyle"

record 'c font_face =
  outline_glyph :: "rchar \<Rightarrow> font_style \<Rightarrow> ((int \<times> int) \<times> (nat \<times> nat \<times> 'c) list) option"
  mix_color :: "color \<Rightarrow> color \<Rightarrow> 'c \<Rightarrow> color"

record cache_key =
  key_ch :: rchar
  key_fg :: color
  key_bg :: color
  key_style :: font_style

record font =
  font_size :: nat
  font_format :: frame_buffer_format
  font_cache :: "(cache_key \<times> frame_buffer) list"

definition new_font :: "nat \<Rightarrow> frame_buffer_format \<Rightarrow> font" where
  "new_font sz f = \<lparr>font_size = sz, font_format = f, font_cache = []\<rparr>"

definition unit_width :: "font \<Rightarrow> nat" where
  "unit_width f = (font_size f + 1) div 2"

definition unit_height :: "font \<Rightarrow> nat" where
  "unit_height f = font_size f"

fun draw_pixels :: "'c font_face \<Rightarrow> color \<Rightarrow> color \<Rightarrow> int \<Rightarrow> int \<Rightarrow> (nat \<times> nat \<times> 'c) list \<Rightarrow> frame_buffer
    \<Rightarrow> (unit, frame_buffer) outcome" where
  "draw_pixels F fg bg min_x min_y [] buf = Ok buf"
| "draw_pixels F fg bg min_x min_y ((x, y, c) # pxs) buf =
    try_then (add_i32 min_x (as_i32 x)) (\<lambda>px.
    try_then (add_i32 min_y (as_i32 y)) (\<lambda>py.
    try_then (write_pixel buf px py (mix_color F bg fg c)) (\<lambda>(_, buf').
      draw_pixels F fg bg min_x min_y pxs buf')))"

text \<open>What \<open>or_insert_with\<close> computes for a key that is not in the cache.\<close>

definition render_glyph :: "'c font_face \<Rightarrow> font \<Rightarrow> cache_key \<Rightarrow> (unit, frame_buffer) outcome" where
  "render_glyph F f k =
     try_then (clear_buffer (new_vec_buffer (unit_width f) (unit_height f) (font_format f)) (key_bg k)) (\<lambda>buf.
       case outline_glyph F (key_ch k) (key_style k) of
         None \<Rightarrow> Ok buf
       | Some ((min_x, min_y), pxs) \<Rightarrow> draw_pixels F (key_fg k) (key_bg k) min_x min_y pxs buf)"

definition font_get :: "'c font_face \<Rightarrow> font \<Rightarrow> rchar \<Rightarrow> color \<Rightarrow> color \<Rightarrow> font_style
    \<Rightarrow> (unit, frame_buffer \<times> font) outcome" where
  "font_get F f ch fg bg style =
     (let key = \<lparr>key_ch = ch, key_fg = fg, key_bg = bg, key_style = style\<rparr> in
      case map_of (font_cache f) key of
        Some buf \<Rightarrow> Ok (buf, f)
      | None \<Rightarrow> try_then (render_glyph F f key) (\<lambda>buf.
          Ok (buf, f\<lparr>font_cache := (key, buf) # font_cache f\<rparr>)))"

section \<open>Glyphs\<close>

text \<open>The crate draws within the range of the coordinates.\<close>

definition face_ok :: "'c font_face \<Rightarrow> bool" where
  "face_ok F \<longleftrightarrow> (\<forall>ch style corner pxs. outline_glyph F ch style = Some (corner, pxs) \<longrightarrow>
     (\<forall>(x, y, c)\<in>set pxs. i32_range (fst corner + as_i32 x) \<and> i32_range (snd corner + as_i32 y)))"

definition font_wf :: "font \<Rightarrow> bool" where
  "font_wf f \<longleftrightarrow> 0 < font_size f \<and> font_size f < 2 ^ 31"

lemma unit_range:
  assumes "font_wf f"
  shows "0 < unit_width f" and "unit_width f < 2 ^ 31" and "0 < unit_height f" and "unit_height f < 2 ^ 31"
  using assms by (auto simp: font_wf_def unit_width_def unit_height_def)

lemma draw_pixels_ok:
  assumes "fb_ok buf" and "\<forall>(x, y, c)\<in>set pxs. i32_range (min_x + as_i32 x) \<and> i32_range (min_y + as_i32 y)"
  shows "\<exists>buf'. draw_pixels F fg bg min_x min_y pxs buf = Ok buf' \<and> same_shape buf buf'"
  using assms
proof (induction pxs arbitrary: buf)
  case (Cons p pxs)
  obtain x y c where p: "p = (x, y, c)" by (cases p)
  obtain buf1 where buf1: "write_pixel buf (min_x + as_i32 x) (min_y + as_i32 y) (mix_color F bg fg c)
      = Ok (in_rect (fb_rect buf) (min_x + as_i32 x) (min_y + as_i32 y), buf1)" "same_shape buf buf1"
    using write_pixel_ok [OF Cons.prems(1), of "min_x + as_i32 x" "min_y + as_i32 y" "mix_color F bg fg c"]
    by (auto simp: write_pixel_spec_def)
  obtain buf2 where "draw_pixels F fg bg min_x min_y pxs buf1 = Ok buf2" "same_shape buf1 buf2"
    using Cons.IH [of buf1] Cons.prems same_shape_ok [OF buf1(2)] by auto
  with p buf1 Cons.prems(2) same_shape_trans [OF buf1(2)] show ?case by (auto simp: add_i32_def)
qed simp

lemma render_glyph_ok:
  assumes "face_ok F" and "font_wf f"
  shows "\<exists>g. render_glyph F f k = Ok g \<and> same_shape (new_vec_buffer (unit_width f) (unit_height f) (font_format f)) g"
proof -
  let ?b = "new_vec_buffer (unit_width f) (unit_height f) (font_format f)"
  have b: "fb_ok ?b" using unit_range [OF assms(2)] by (simp add: new_vec_buffer_ok)
  obtain b1 where b1: "clear_buffer ?b (key_bg k) = Ok b1" "same_shape ?b b1"
    using fill_rect_ok [OF b fb_rect_ok [OF b], of "key_bg k"] by (auto simp: clear_buffer_def fill_spec_def)
  show ?thesis
  proof (cases "outline_glyph F (key_ch k) (key_style k)")
    case None
    with b1 show ?thesis by (simp add: render_glyph_def)
  next
    case (Some o')
    obtain min_x min_y pxs where o: "o' = ((min_x, min_y), pxs)" by (metis surj_pair)
    have "\<forall>(x, y, c)\<in>set pxs. i32_range (min_x + as_i32 x) \<and> i32_range (min_y + as_i32 y)"
      using assms(1) Some o by (fastforce simp: face_ok_def)
    from draw_pixels_ok [OF same_shape_ok [OF b1(2) b] this] obtain b2 where
      "draw_pixels F (key_fg k) (key_bg k) min_x min_y pxs b1 = Ok b2" "same_shape b1 b2" by blast
    with b1 Some o same_shape_trans show ?thesis by (auto simp: render_glyph_def)
  qed
qed

text \<open>The cache holds what rendering would give; \<open>font_get\<close> is rendering, with a memory.\<close>

definition cache_sound :: "'c font_face \<Rightarrow> font \<Rightarrow> bool" where
  "cache_sound F f \<longleftrightarrow> (\<forall>k buf. map_of (font_cache f) k = Some buf \<longrightarrow> render_glyph F f k = Ok buf)"

definition glyph :: "'c font_face \<Rightarrow> font \<Rightarrow> rchar \<Rightarrow> color \<Rightarrow> color \<Rightarrow> font_style \<Rightarrow> frame_buffer" where
  "glyph F f ch fg bg style =
     (case render_glyph F f \<lparr>key_ch = ch, key_fg = fg, key_bg = bg, key_style = style\<rparr> of
        Ok g \<Rightarrow> g | _ \<Rightarrow> new_vec_buffer 0 0 (font_format f))"

lemma render_glyph_cache [simp]: "render_glyph F (f\<lparr>font_cache := c\<rparr>) k = render_glyph F f k"
  by (simp add: render_glyph_def unit_width_def unit_height_def)

text \<open>Nothing of a font changes but its cache.\<close>

definition same_font :: "font \<Rightarrow> font \<Rightarrow> bool" where
  "same_font f f' \<longleftrightarrow> (\<exists>c. f' = f\<lparr>font_cache := c\<rparr>)"

lemma same_font_simps:
  assumes "same_font f f'"
  shows "font_size f' = font_size f" and "font_format f' = font_format f" and "unit_width f' = unit_width f"
    and "unit_height f' = unit_height f" and "glyph F f' = glyph F f" and "font_wf f' = font_wf f"
  using assms by (auto simp: same_font_def unit_width_def unit_height_def glyph_def font_wf_def fun_eq_iff
      split: outcome.split)

lemma same_font_refl [simp]: "same_font f f"
  unfolding same_font_def by (rule exI [of _ "font_cache f"]) simp

lemma same_font_trans: "same_font f g \<Longrightarrow> same_font g h \<Longrightarrow> same_font f h"
  by (auto simp: same_font_def)

lemma font_get_ok:
  assumes "face_ok F" and "font_wf f" and "cache_sound F f"
  shows "\<exists>f'. font_get F f ch fg bg style = Ok (glyph F f ch fg bg style, f') \<and> same_font f f' \<and> cache_sound F f'"
proof -
  let ?k = "\<lparr>key_ch = ch, key_fg = fg, key_bg = bg, key_style = style\<rparr>"
  obtain g where g: "render_glyph F f ?k = Ok g" using render_glyph_ok [OF assms(1,2)] by blast
  then have gl: "glyph F f ch fg bg style = g" by (simp add: glyph_def)
  show ?thesis
  proof (cases "map_of (font_cache f) ?k")
    case None
    have "cache_sound F (f\<lparr>font_cache := (?k, g) # font_cache f\<rparr>)"
      using assms(3) g by (auto simp: cache_sound_def)
    moreover have "same_font f (f\<lparr>font_cache := (?k, g) # font_cache f\<rparr>)" by (auto simp: same_font_def)
    ultimately show ?thesis using None g gl by (auto simp: font_get_def Let_def)
  next
    case (Some buf)
    then have "buf = g" using assms(3) g by (auto simp: cache_sound_def)
    with Some gl assms(3) show ?thesis by (auto simp: font_get_def Let_def)
  qed
qed

lemma glyph_shape:
  assumes "face_ok F" and "font_wf f"
  shows "same_shape (new_vec_buffer (unit_width f) (unit_height f) (font_format f)) (glyph F f ch fg bg style)"
  using render_glyph_ok [OF assms, of "\<lparr>key_ch = ch, key_fg = fg, key_bg = bg, key_style = style\<rparr>"]
  by (auto simp: glyph_def)

lemma new_font_sound [simp]: "cache_sound F (new_font sz fmt)"
  by (simp add: cache_sound_def new_font_def)

end
