(* ===== verification/Text_Buffer.thy ===== *)
theory Text_Buffer
  imports Mono_Font
begin

text \<open>
  The text on the screen, \<open>graphics/text_buffer.rs\<close>: lines of characters, each with a picture of its own, and
  the ranges of characters and lines that changed since they were last drawn. \<open>render\<close> draws only these; the
  theorem at the end says that the screen then shows all the characters.
\<close>

section \<open>Characters and lines\<close>

record cell =
  cell_value :: rchar
  cell_fg :: color
  cell_bg :: color
  cell_style :: font_style

definition new_cell :: "rchar \<Rightarrow> color \<Rightarrow> color \<Rightarrow> font_style \<Rightarrow> cell" where
  "new_cell v fg bg style = \<lparr>cell_value = v, cell_fg = fg, cell_bg = bg, cell_style = style\<rparr>"

definition void_cell :: cell where
  "void_cell = new_cell 0 (new_color 255 255 255) (new_color 0 0 0) NormalStyle"

definition update_cell :: "cell \<Rightarrow> rchar \<Rightarrow> color \<Rightarrow> color \<Rightarrow> font_style \<Rightarrow> bool \<times> cell" where
  "update_cell c v fg bg style =
     (let new_self = new_cell v fg bg style in if c \<noteq> new_self then (True, new_self) else (False, c))"

definition erase_cell :: "cell \<Rightarrow> color \<Rightarrow> bool \<times> cell" where
  "erase_cell c bg = update_cell c 32 (cell_fg c) bg (cell_style c)"

type_synonym render_diff = "(nat \<times> nat) option"

definition extend_render_diff :: "render_diff \<Rightarrow> nat \<Rightarrow> nat \<Rightarrow> render_diff" where
  "extend_render_diff d start fin =
     (case d of None \<Rightarrow> Some (start, fin) | Some (a, b) \<Rightarrow> Some (min a start, max b fin))"

record line =
  line_chars :: "cell list"
  line_buf :: frame_buffer
  line_diff :: render_diff

definition new_line :: "frame_buffer \<Rightarrow> font \<Rightarrow> line" where
  "new_line parent f =
     (let width = fb_width parent div unit_width f in
      \<lparr>line_chars = replicate width void_cell,
       line_buf = new_vec_buffer (width * unit_width f) (unit_height f) (fb_format parent),
       line_diff = None\<rparr>)"

text \<open>\<open>usize::MAX\<close>, the initial value of \<open>start\<close>, and the loop over the characters from \<open>a\<close> up to \<open>b\<close>.\<close>

definition USIZE_MAX :: nat where
  "USIZE_MAX = 2 ^ 64 - 1"

fun erase_cells :: "color \<Rightarrow> nat \<Rightarrow> nat \<Rightarrow> nat \<Rightarrow> cell list \<Rightarrow> nat \<Rightarrow> nat \<Rightarrow> cell list \<times> nat \<times> nat" where
  "erase_cells bg a b i [] start fin = ([], start, fin)"
| "erase_cells bg a b i (c # cs) start fin =
    (if a \<le> i \<and> i < b
     then let (changed, c') = erase_cell c bg;
              (cs', start', fin') = (if changed then erase_cells bg a b (i + 1) cs (min start i) (max fin (i + 1))
                                     else erase_cells bg a b (i + 1) cs start fin)
          in (c' # cs', start', fin')
     else let (cs', start', fin') = erase_cells bg a b (i + 1) cs start fin in (c # cs', start', fin'))"

definition line_erase :: "line \<Rightarrow> color \<Rightarrow> nat \<Rightarrow> nat \<Rightarrow> bool \<times> line" where
  "line_erase l bg a b0 =
     (let b = min (b0 + 1) USIZE_MAX;
          (cs, start, fin) = erase_cells bg a b 0 (line_chars l) USIZE_MAX 0;
          l' = l\<lparr>line_chars := cs\<rparr>
      in if start < fin then (True, l'\<lparr>line_diff := extend_render_diff (line_diff l) start fin\<rparr>) else (False, l'))"

datatype line_put_result = LineFeed | Wrapping | NextCell bool nat

definition line_put :: "line \<Rightarrow> rchar \<Rightarrow> color \<Rightarrow> color \<Rightarrow> font_style \<Rightarrow> nat \<Rightarrow> line_put_result \<times> line" where
  "line_put l c fg bg style i =
     (if c = 10 then (LineFeed, l)
      else if length (line_chars l) \<le> i then (Wrapping, l)
      else let (changed, cell) = update_cell (line_chars l ! i) c fg bg style;
               l' = l\<lparr>line_chars := (line_chars l)[i := cell]\<rparr>
        in if changed then (NextCell True (i + 1), l'\<lparr>line_diff := extend_render_diff (line_diff l) i (i + 1)\<rparr>)
           else (NextCell False (i + 1), l'))"

definition render_to :: "'c font_face \<Rightarrow> cell \<Rightarrow> frame_buffer \<Rightarrow> int \<Rightarrow> int \<Rightarrow> font \<Rightarrow> (unit, frame_buffer \<times> font) outcome" where
  "render_to F c buf x y f =
     try_then (font_get F f (cell_value c) (cell_fg c) (cell_bg c) (cell_style c)) (\<lambda>(g, f').
       try_then (blit buf x y g) (\<lambda>buf'. Ok (buf', f')))"

fun render_cells :: "'c font_face \<Rightarrow> nat \<Rightarrow> nat \<Rightarrow> nat \<Rightarrow> cell list \<Rightarrow> frame_buffer \<Rightarrow> font
    \<Rightarrow> (unit, frame_buffer \<times> font) outcome" where
  "render_cells F a b i [] buf f = Ok (buf, f)"
| "render_cells F a b i (c # cs) buf f =
    (if a \<le> i \<and> i < b
     then try_then (render_to F c buf (as_i32 (i * unit_width f)) 0 f) (\<lambda>(buf', f').
       render_cells F a b (i + 1) cs buf' f')
     else render_cells F a b (i + 1) cs buf f)"

definition line_render :: "'c font_face \<Rightarrow> line \<Rightarrow> font \<Rightarrow> (unit, line \<times> font) outcome" where
  "line_render F l f = (case line_diff l of
      None \<Rightarrow> Ok (l, f)
    | Some (a, b) \<Rightarrow> try_then (render_cells F a b 0 (line_chars l) (line_buf l) f) (\<lambda>(buf, f').
        Ok (l\<lparr>line_buf := buf, line_diff := None\<rparr>, f')))"

section \<open>The text buffer\<close>

record text_buffer =
  tb_lines :: "line list"
  tb_buf :: frame_buffer
  tb_diff :: render_diff
  tb_font :: font
  tb_cursor :: "nat \<times> nat"

definition new_text_buffer :: "frame_buffer \<Rightarrow> font \<Rightarrow> (unit, text_buffer) outcome" where
  "new_text_buffer buf f =
     (if fb_format buf \<noteq> font_format f \<or> unit_height f = 0 \<or> unit_width f = 0 then Panic
      else Ok \<lparr>tb_lines = replicate (fb_height buf div unit_height f) (new_line buf f), tb_buf = buf,
               tb_diff = None, tb_font = f, tb_cursor = (0, 0)\<rparr>)"

text \<open>\<open>Ord::clamp\<close> panics when its bounds are not in order.\<close>

definition clamp_i32 :: "int \<Rightarrow> int \<Rightarrow> int \<Rightarrow> (unit, int) outcome" where
  "clamp_i32 lo hi z = (if lo \<le> hi then Ok (max lo (min hi z)) else Panic)"

definition move_cursor :: "int \<Rightarrow> int \<Rightarrow> text_buffer \<Rightarrow> (unit, text_buffer) outcome" where
  "move_cursor dx dy tb =
     (let (x, y) = tb_cursor tb in
      try_then (add_i32 (as_i32 y) dy) (\<lambda>y'.
      try_then (clamp_i32 0 (as_i32 (length (tb_lines tb)) - 1) y') (\<lambda>y''.
      try_then (add_i32 (as_i32 x) dx) (\<lambda>x'.
      try_then (clamp_i32 0 (as_i32 (length (line_chars (tb_lines tb ! nat y''))) - 1) x') (\<lambda>x''.
        Ok (tb\<lparr>tb_cursor := (nat x'', nat y'')\<rparr>))))))"

definition set_cursor :: "nat option \<Rightarrow> nat option \<Rightarrow> text_buffer \<Rightarrow> (unit, text_buffer) outcome" where
  "set_cursor x y tb =
     (if tb_lines tb = [] then Panic
      else let y' = min (length (tb_lines tb) - 1) (case y of Some n \<Rightarrow> n | None \<Rightarrow> snd (tb_cursor tb));
               cs = line_chars (tb_lines tb ! y')
        in if cs = [] then Panic
           else Ok (tb\<lparr>tb_cursor := (min (length cs - 1) (case x of Some n \<Rightarrow> n | None \<Rightarrow> fst (tb_cursor tb)), y')\<rparr>))"

text \<open>The loop over the lines from \<open>i\<close> on that satisfy \<open>P\<close>.\<close>

fun erase_lines :: "color \<Rightarrow> (nat \<Rightarrow> bool) \<Rightarrow> nat \<Rightarrow> line list \<Rightarrow> nat \<Rightarrow> nat \<Rightarrow> line list \<times> nat \<times> nat" where
  "erase_lines bg P i [] start fin = ([], start, fin)"
| "erase_lines bg P i (l # ls) start fin =
    (if P i
     then let (changed, l') = line_erase l bg 0 USIZE_MAX;
              (ls', start', fin') = (if changed then erase_lines bg P (i + 1) ls (min start i) (max fin (i + 1))
                                     else erase_lines bg P (i + 1) ls start fin)
          in (l' # ls', start', fin')
     else let (ls', start', fin') = erase_lines bg P (i + 1) ls start fin in (l # ls', start', fin'))"

definition erase_text :: "color \<Rightarrow> bool \<Rightarrow> bool \<Rightarrow> bool \<Rightarrow> bool \<Rightarrow> text_buffer \<Rightarrow> (unit, text_buffer) outcome" where
  "erase_text bg before_lines before_chars after_chars after_lines tb =
     (let (x, y) = tb_cursor tb;
          (ls1, s1, e1) = (if before_lines then erase_lines bg (\<lambda>i. i < y) 0 (tb_lines tb) USIZE_MAX 0
                           else (tb_lines tb, USIZE_MAX, 0))
      in if length ls1 \<le> y then Panic
         else let a = (if before_chars then 0 else x); b = (if after_chars then USIZE_MAX else x);
                  (changed, l) = line_erase (ls1 ! y) bg a b;
                  ls2 = ls1[y := l];
                  (s2, e2) = (if changed then (min s1 y, max e1 (y + 1)) else (s1, e1));
                  (ls3, s3, e3) = (if after_lines then erase_lines bg (\<lambda>i. y + 1 \<le> i) 0 ls2 s2 e2 else (ls2, s2, e2));
                  tb' = tb\<lparr>tb_lines := ls3\<rparr>
           in Ok (if s3 < e3 then tb'\<lparr>tb_diff := extend_render_diff (tb_diff tb) s3 e3\<rparr> else tb'))"

definition next_text_line :: "color \<Rightarrow> text_buffer \<Rightarrow> (unit, text_buffer) outcome" where
  "next_text_line bg tb =
     (let (x, y) = tb_cursor tb in
      if length (tb_lines tb) \<le> y + 1
      then (case tb_lines tb of
          [] \<Rightarrow> Panic
        | first # rest \<Rightarrow>
            (let ls = rest @ [snd (line_erase first bg 0 USIZE_MAX)]
             in Ok (tb\<lparr>tb_lines := ls, tb_diff := Some (0, length ls), tb_cursor := (0, length ls - 1)\<rparr>)))
      else Ok (tb\<lparr>tb_cursor := (0, y + 1)\<rparr>))"

text \<open>
  \<open>put\<close> calls itself after a wrap; on lines of no width it would wrap forever. The first argument bounds the
  calls; two are enough, see below.
\<close>

fun put_text :: "nat \<Rightarrow> rchar \<Rightarrow> color \<Rightarrow> color \<Rightarrow> font_style \<Rightarrow> text_buffer \<Rightarrow> (unit, text_buffer) outcome" where
  "put_text 0 c fg bg style tb = Hang"
| "put_text (Suc n) c fg bg style tb =
    (let (x, y) = tb_cursor tb in
     if length (tb_lines tb) \<le> y then Panic
     else let (r, l) = line_put (tb_lines tb ! y) c fg bg style x;
              tb' = tb\<lparr>tb_lines := (tb_lines tb)[y := l]\<rparr>
       in case r of
            LineFeed \<Rightarrow> next_text_line bg tb'
          | Wrapping \<Rightarrow> try_then (next_text_line bg tb') (\<lambda>tb''. put_text n c fg bg style tb'')
          | NextCell changed x' \<Rightarrow>
              (let tb'' = tb'\<lparr>tb_cursor := (x', y)\<rparr>
               in Ok (if changed then tb''\<lparr>tb_diff := extend_render_diff (tb_diff tb) y (y + 1)\<rparr> else tb'')))"

definition half_i32 :: "int \<Rightarrow> int" where
  "half_i32 z = (if 0 \<le> z then z div 2 else - ((- z) div 2))"

fun render_lines :: "'c font_face \<Rightarrow> int \<Rightarrow> nat \<Rightarrow> nat \<Rightarrow> nat \<Rightarrow> line list \<Rightarrow> frame_buffer \<Rightarrow> font
    \<Rightarrow> (unit, line list \<times> frame_buffer \<times> font) outcome" where
  "render_lines F pad_y a b i [] buf f = Ok ([], buf, f)"
| "render_lines F pad_y a b i (l # ls) buf f =
    (if a \<le> i \<and> i < b
     then try_then (line_render F l f) (\<lambda>(l', f').
       if fb_width buf < length (line_chars l') * unit_width f' then Panic
       else let pad_x = as_i32 (fb_width buf - length (line_chars l') * unit_width f');
                ofs_y = as_i32 (i * unit_height f')
         in try_then (add_i32 (half_i32 pad_y) ofs_y) (\<lambda>y.
            try_then (blit buf (half_i32 pad_x) y (line_buf l')) (\<lambda>buf'.
            try_then (render_lines F pad_y a b (i + 1) ls buf' f') (\<lambda>(ls', buf'', f'').
              Ok (l' # ls', buf'', f'')))))
     else try_then (render_lines F pad_y a b (i + 1) ls buf f) (\<lambda>(ls', buf', f'). Ok (l # ls', buf', f')))"

definition render_text :: "'c font_face \<Rightarrow> text_buffer \<Rightarrow> (unit, text_buffer) outcome" where
  "render_text F tb = (case tb_diff tb of
      None \<Rightarrow> Ok tb
    | Some (a, b) \<Rightarrow>
        if fb_height (tb_buf tb) < length (tb_lines tb) * unit_height (tb_font tb) \<or> b < a then Panic
        else try_then
          (render_lines F (as_i32 (fb_height (tb_buf tb) - length (tb_lines tb) * unit_height (tb_font tb)))
             a b 0 (tb_lines tb) (tb_buf tb) (tb_font tb))
          (\<lambda>(ls, buf, f). Ok (tb\<lparr>tb_lines := ls, tb_buf := buf, tb_diff := None, tb_font := f\<rparr>)))"

section \<open>Shapes\<close>

text \<open>The columns and rows of text a buffer has room for.\<close>

definition columns :: "frame_buffer \<Rightarrow> font \<Rightarrow> nat" where
  "columns buf f = fb_width buf div unit_width f"

definition rows_of :: "frame_buffer \<Rightarrow> font \<Rightarrow> nat" where
  "rows_of buf f = fb_height buf div unit_height f"

definition line_wf :: "frame_buffer \<Rightarrow> font \<Rightarrow> line \<Rightarrow> bool" where
  "line_wf buf f l \<longleftrightarrow> length (line_chars l) = columns buf f
     \<and> same_shape (new_vec_buffer (columns buf f * unit_width f) (unit_height f) (font_format f)) (line_buf l)"

definition tb_wf :: "'c font_face \<Rightarrow> text_buffer \<Rightarrow> bool" where
  "tb_wf F tb \<longleftrightarrow> fb_ok (tb_buf tb) \<and> font_wf (tb_font tb) \<and> cache_sound F (tb_font tb)
     \<and> 0 < columns (tb_buf tb) (tb_font tb) \<and> 0 < rows_of (tb_buf tb) (tb_font tb)
     \<and> length (tb_lines tb) = rows_of (tb_buf tb) (tb_font tb)
     \<and> (\<forall>l\<in>set (tb_lines tb). line_wf (tb_buf tb) (tb_font tb) l)
     \<and> fst (tb_cursor tb) \<le> columns (tb_buf tb) (tb_font tb) \<and> snd (tb_cursor tb) < rows_of (tb_buf tb) (tb_font tb)"

text \<open>A buffer shows a picture at a place.\<close>

definition shows_at :: "frame_buffer \<Rightarrow> nat \<Rightarrow> nat \<Rightarrow> frame_buffer \<Rightarrow> bool" where
  "shows_at fb x y src \<longleftrightarrow>
     (\<forall>u<fb_width src. \<forall>v<fb_height src. fb_pixel fb (x + u) (y + v) = fb_pixel src u v)"

lemma blit_shows:
  assumes "blit_spec fb (int x) (int y) src fb'" and "fb_ok fb" and "x + fb_width src \<le> fb_width fb" and "y + fb_height src \<le> fb_height fb"
  shows "shows_at fb' x y src"
  unfolding shows_at_def
proof (intro allI impI)
  fix u v assume uv: "u < fb_width src" "v < fb_height src"
  have "x + u < fb_stride fb" "y + v < fb_height fb" "x + u < fb_width fb"
    using uv assms(2-4) by (auto simp: fb_ok_def)
  moreover have "placed_at src (int x) (int y) (x + u) (y + v)" using uv by (simp add: placed_at_def)
  ultimately show "fb_pixel fb' (x + u) (y + v) = fb_pixel src u v"
    using assms(1) by (simp add: blit_spec_def)
qed

text \<open>What is beside, above or below the place of a blit stays on the screen.\<close>

lemma blit_keeps:
  assumes "blit_spec fb (int x) (int y) src fb'" and "fb_ok fb" and "shows_at fb x' y' pic"
    and "x' + fb_width pic \<le> fb_width fb" and "y' + fb_height pic \<le> fb_height fb"
    and "x' + fb_width pic \<le> x \<or> x + fb_width src \<le> x' \<or> y' + fb_height pic \<le> y \<or> y + fb_height src \<le> y'"
  shows "shows_at fb' x' y' pic"
  unfolding shows_at_def
proof (intro allI impI)
  fix u v assume uv: "u < fb_width pic" "v < fb_height pic"
  have "x' + u < fb_stride fb" "y' + v < fb_height fb" using uv assms(2,4,5) by (auto simp: fb_ok_def)
  moreover have "\<not> placed_at src (int x) (int y) (x' + u) (y' + v)" using uv assms(6) by (auto simp: placed_at_def)
  ultimately have "fb_pixel fb' (x' + u) (y' + v) = fb_pixel fb (x' + u) (y' + v)"
    using assms(1) by (simp add: blit_spec_def)
  with assms(3) uv show "fb_pixel fb' (x' + u) (y' + v) = fb_pixel pic u v" by (simp add: shows_at_def)
qed

lemma blit_at:
  assumes "fb_ok fb" and "fb_ok src" and "x + fb_width src \<le> fb_width fb" and "y + fb_height src \<le> fb_height fb"
  obtains fb' where "blit fb (int x) (int y) src = Ok fb'" and "blit_spec fb (int x) (int y) src fb'"
proof -
  have "x + fb_width src < 2 ^ 31" "y + fb_height src < 2 ^ 31" using assms by (auto simp: fb_ok_def)
  then have "i32_range (int x)" "i32_range (int y)" "i32_range (int x + int (fb_width src))"
    "i32_range (int y + int (fb_height src))"
    by (auto simp: i32_range_def)
  from blit_ok [OF assms(1,2) this] that show ?thesis by blast
qed

section \<open>Changes are recorded\<close>

fun diff_in :: "render_diff \<Rightarrow> nat \<Rightarrow> bool" where
  "diff_in None i \<longleftrightarrow> False"
| "diff_in (Some (a, b)) i \<longleftrightarrow> a \<le> i \<and> i < b"

lemma diff_in_extend:
  "diff_in d i \<or> s \<le> i \<and> i < e \<Longrightarrow> diff_in (extend_render_diff d s e) i"
  by (cases d) (auto simp: extend_render_diff_def)

text \<open>From \<open>l\<close> to \<open>l'\<close>, only characters in the range recorded have changed.\<close>

definition line_upd :: "line \<Rightarrow> line \<Rightarrow> bool" where
  "line_upd l l' \<longleftrightarrow> line_buf l' = line_buf l \<and> length (line_chars l') = length (line_chars l)
     \<and> (\<forall>i<length (line_chars l). diff_in (line_diff l) i \<or> line_chars l' ! i \<noteq> line_chars l ! i \<longrightarrow> diff_in (line_diff l') i)"

lemma erase_cells_spec:
  "erase_cells bg a b i cs start fin = (cs', s, e) \<Longrightarrow>
    length cs' = length cs \<and> s \<le> start \<and> fin \<le> e
    \<and> (\<forall>k<length cs. cs' ! k \<noteq> cs ! k \<longrightarrow> s \<le> i + k \<and> i + k < e)"
proof (induction bg a b i cs start fin arbitrary: cs' s e rule: erase_cells.induct)
  case (2 bg a b i c cs start fin)
  consider (out) "\<not> (a \<le> i \<and> i < b)" | (same) "a \<le> i \<and> i < b" "\<not> fst (erase_cell c bg)"
    | (changed) "a \<le> i \<and> i < b" "fst (erase_cell c bg)" by blast
  then show ?case
  proof cases
    case out
    with 2(4) obtain ds where "erase_cells bg a b (i + 1) cs start fin = (ds, s, e)" "cs' = c # ds"
      by (auto split: prod.splits)
    with 2(3) [OF out] show ?thesis by (auto simp: nth_Cons split: nat.splits)
  next
    case same
    then have c: "erase_cell c bg = (False, c)" by (auto simp: erase_cell_def update_cell_def Let_def split: if_splits)
    with 2(4) same obtain ds where "erase_cells bg a b (i + 1) cs start fin = (ds, s, e)" "cs' = c # ds"
      by (auto split: prod.splits)
    with 2(2) [OF same(1) c [symmetric]] show ?thesis by (auto simp: nth_Cons split: nat.splits)
  next
    case changed
    then obtain c' where c: "erase_cell c bg = (True, c')" by (cases "erase_cell c bg") auto
    with 2(4) changed obtain ds where "erase_cells bg a b (i + 1) cs (min start i) (max fin (i + 1)) = (ds, s, e)" "cs' = c' # ds"
      by (auto split: prod.splits)
    with 2(1) [OF changed(1) c [symmetric]] show ?thesis by (fastforce simp: nth_Cons split: nat.splits)
  qed
qed simp

lemma line_erase_upd: "line_erase l bg a b = (changed, l') \<Longrightarrow> line_upd l l' \<and> (\<not> changed \<longrightarrow> l' = l)"
proof -
  assume l': "line_erase l bg a b = (changed, l')"
  obtain cs s e where cs: "erase_cells bg a (min (b + 1) USIZE_MAX) 0 (line_chars l) USIZE_MAX 0 = (cs, s, e)"
    by (metis surj_pair)
  note spec = erase_cells_spec [OF cs]
  show ?thesis
  proof (cases "s < e")
    case True
    with l' cs have "changed" "l' = l\<lparr>line_chars := cs, line_diff := extend_render_diff (line_diff l) s e\<rparr>"
      by (auto simp: line_erase_def Let_def)
    with spec show ?thesis by (auto simp: line_upd_def intro: diff_in_extend)
  next
    case False
    with l' cs have l: "\<not> changed" "l' = l\<lparr>line_chars := cs\<rparr>" by (auto simp: line_erase_def Let_def)
    have "cs ! k = line_chars l ! k" if "k < length cs" for k
    proof (rule ccontr)
      assume "cs ! k \<noteq> line_chars l ! k"
      with spec that have "s \<le> k" "k < e" by auto
      with False show False by simp
    qed
    with spec have "cs = line_chars l" by (intro nth_equalityI) auto
    with l show ?thesis by (cases l) (simp add: line_upd_def)
  qed
qed

lemma line_put_upd:
  assumes "line_put l c fg bg style i = (r, l')"
  shows "line_upd l l' \<and> (r \<noteq> NextCell True (i + 1) \<longrightarrow> l' = l)
    \<and> (r = Wrapping \<longrightarrow> length (line_chars l) \<le> i) \<and> (\<forall>ch x. r = NextCell ch x \<longrightarrow> x = i + 1 \<and> i < length (line_chars l))"
proof -
  consider (feed) "c = 10" | (wrap) "c \<noteq> 10" "length (line_chars l) \<le> i" | (cell) "c \<noteq> 10" "i < length (line_chars l)"
    by linarith
  then show ?thesis
  proof cases
    case cell
    show ?thesis
    proof (cases "line_chars l ! i = new_cell c fg bg style")
      case True
      then have "(line_chars l)[i := new_cell c fg bg style] = line_chars l" by (metis list_update_id)
      then have "l\<lparr>line_chars := (line_chars l)[i := new_cell c fg bg style]\<rparr> = l" by simp
      with True cell assms have "r = NextCell False (i + 1)" "l' = l"
        by (auto simp: line_put_def update_cell_def)
      with cell show ?thesis by (simp add: line_upd_def)
    next
      case False
      with cell assms have r: "r = NextCell True (i + 1)" "l' = l\<lparr>line_chars := (line_chars l)[i := new_cell c fg bg style],
          line_diff := extend_render_diff (line_diff l) i (i + 1)\<rparr>"
        by (auto simp: line_put_def update_cell_def)
      have "line_upd l l'"
        unfolding line_upd_def r(2)
      proof (intro conjI allI impI; simp)
        fix j assume "diff_in (line_diff l) j \<or> (line_chars l)[i := new_cell c fg bg style] ! j \<noteq> line_chars l ! j"
        then have "diff_in (line_diff l) j \<or> i \<le> j \<and> j < Suc i" by (cases "j = i") auto
        then show "diff_in (extend_render_diff (line_diff l) i (Suc i)) j" by (rule diff_in_extend)
      qed
      with r cell show ?thesis by simp
    qed
  qed (use assms in \<open>auto simp: line_put_def line_upd_def\<close>)
qed

section \<open>Drawing a line\<close>

abbreviation glyph_at :: "'c font_face \<Rightarrow> font \<Rightarrow> cell \<Rightarrow> frame_buffer" where
  "glyph_at F f c \<equiv> glyph F f (cell_value c) (cell_fg c) (cell_bg c) (cell_style c)"

text \<open>Every character that is not to be drawn again has its glyph in the picture, or was never set.\<close>

definition line_ok :: "'c font_face \<Rightarrow> font \<Rightarrow> line \<Rightarrow> bool" where
  "line_ok F f l \<longleftrightarrow> (\<forall>i<length (line_chars l). diff_in (line_diff l) i \<or> line_chars l ! i = void_cell
     \<or> shows_at (line_buf l) (i * unit_width f) 0 (glyph_at F f (line_chars l ! i)))"

lemma line_ok_upd: "line_ok F f l \<Longrightarrow> line_upd l l' \<Longrightarrow> line_ok F f l'"
  unfolding line_ok_def line_upd_def by metis

lemma line_wf_upd: "line_wf buf f l \<Longrightarrow> line_upd l l' \<Longrightarrow> line_wf buf f l'"
  by (simp add: line_wf_def line_upd_def)

lemma glyph_simps:
  assumes "face_ok F" and "font_wf f"
  shows "fb_ok (glyph_at F f c)" and "fb_width (glyph_at F f c) = unit_width f" and "fb_height (glyph_at F f c) = unit_height f"
  using glyph_shape [OF assms, of "cell_value c" "cell_fg c" "cell_bg c" "cell_style c"] unit_range [OF assms(2)]
  by (auto simp: same_shape_def new_vec_buffer_def fb_ok_def)

lemma render_to_ok:
  assumes "face_ok F" and "font_wf f" and "cache_sound F f" and "fb_ok buf"
    and "x + unit_width f \<le> fb_width buf" and "unit_height f \<le> fb_height buf"
  obtains buf' f' where "render_to F c buf (as_i32 x) 0 f = Ok (buf', f')" and "same_font f f'" and "cache_sound F f'"
    and "blit_spec buf (int x) (int 0) (glyph_at F f c) buf'"
proof -
  note g = glyph_simps [OF assms(1,2), of c]
  obtain f' where f': "font_get F f (cell_value c) (cell_fg c) (cell_bg c) (cell_style c) = Ok (glyph_at F f c, f')"
    "same_font f f'" "cache_sound F f'"
    using font_get_ok [OF assms(1-3)] by blast
  obtain buf' where "blit buf (int x) (int 0) (glyph_at F f c) = Ok buf'" "blit_spec buf (int x) (int 0) (glyph_at F f c) buf'"
    using blit_at [OF assms(4) g(1), of x 0] assms(5,6) g(2,3) by auto
  moreover have "x < 2 ^ 31" using assms(4,5) by (auto simp: fb_ok_def)
  ultimately show ?thesis using f' that [of buf' f'] by (auto simp: render_to_def)
qed

definition cells_drawn :: "'c font_face \<Rightarrow> font \<Rightarrow> nat \<Rightarrow> nat \<Rightarrow> nat \<Rightarrow> cell list \<Rightarrow> frame_buffer \<Rightarrow> frame_buffer \<Rightarrow> bool" where
  "cells_drawn F f a b i cs buf buf' \<longleftrightarrow> same_shape buf buf'
     \<and> (\<forall>k<length cs. a \<le> i + k \<and> i + k < b \<longrightarrow> shows_at buf' ((i + k) * unit_width f) 0 (glyph_at F f (cs ! k)))
     \<and> (\<forall>j c. (j + 1) * unit_width f \<le> fb_width buf \<longrightarrow> shows_at buf (j * unit_width f) 0 (glyph_at F f c) \<longrightarrow>
          j < i \<or> \<not> (a \<le> j \<and> j < b) \<longrightarrow> shows_at buf' (j * unit_width f) 0 (glyph_at F f c))"

lemma render_cells_ok:
  assumes "face_ok F" and "font_wf f" and "cache_sound F f" and "fb_ok buf"
    and "(i + length cs) * unit_width f \<le> fb_width buf" and "fb_height buf = unit_height f"
  shows "\<exists>buf' f'. render_cells F a b i cs buf f = Ok (buf', f') \<and> same_font f f' \<and> cache_sound F f'
    \<and> cells_drawn F f a b i cs buf buf'"
  using assms(2-6)
proof (induction cs arbitrary: i buf f)
  case Nil
  then show ?case by (auto simp: cells_drawn_def)
next
  case (Cons c cs)
  show ?case
  proof (cases "a \<le> i \<and> i < b")
    case False
    have "(i + 1 + length cs) * unit_width f \<le> fb_width buf" using Cons.prems(4) by simp
    from Cons.IH [OF Cons.prems(1-3) this Cons.prems(5)] obtain buf' f' where
      r: "render_cells F a b (i + 1) cs buf f = Ok (buf', f')" "same_font f f'" "cache_sound F f'"
      "cells_drawn F f a b (i + 1) cs buf buf'" by blast
    note d = r(4) [unfolded cells_drawn_def]
    have "cells_drawn F f a b i (c # cs) buf buf'"
      unfolding cells_drawn_def
    proof (intro conjI allI impI)
      show "same_shape buf buf'" using d by blast
      show "shows_at buf' ((i + k) * unit_width f) 0 (glyph_at F f ((c # cs) ! k))"
        if "k < length (c # cs)" "a \<le> i + k \<and> i + k < b" for k
      proof -
        have "k \<noteq> 0" using that False by (cases k) auto
        then obtain m where k: "k = Suc m" using not0_implies_Suc by blast
        with that have "m < length cs" "a \<le> i + 1 + m \<and> i + 1 + m < b" by simp_all
        with d have "shows_at buf' ((i + 1 + m) * unit_width f) 0 (glyph_at F f (cs ! m))" by blast
        with k show ?thesis by simp
      qed
      show "shows_at buf' (j * unit_width f) 0 (glyph_at F f d')"
        if "(j + 1) * unit_width f \<le> fb_width buf" "shows_at buf (j * unit_width f) 0 (glyph_at F f d')"
          "j < i \<or> \<not> (a \<le> j \<and> j < b)" for j d'
      proof -
        have "j < i + 1 \<or> \<not> (a \<le> j \<and> j < b)" using that(3) by auto
        with d that(1,2) show ?thesis by blast
      qed
    qed
    with r False show ?thesis by auto
  next
    case True
    have iw: "i * unit_width f + unit_width f \<le> fb_width buf"
      using Cons.prems(4) by (simp add: add_mult_distrib)
    obtain buf1 f1 where b1: "render_to F c buf (as_i32 (i * unit_width f)) 0 f = Ok (buf1, f1)" "same_font f f1"
      "cache_sound F f1" "blit_spec buf (int (i * unit_width f)) (int 0) (glyph_at F f c) buf1"
      using render_to_ok [OF assms(1) Cons.prems(1-3) iw] Cons.prems(5) by auto
    note f1 = same_font_simps [OF b1(2)]
    have shape: "same_shape buf buf1" using b1(4) by (simp add: blit_spec_def)
    have b1_ok: "fb_ok buf1" using same_shape_ok [OF shape Cons.prems(3)] .
    have "(i + 1 + length cs) * unit_width f1 \<le> fb_width buf1" "fb_height buf1 = unit_height f1"
      using Cons.prems(4,5) shape f1 by (simp_all add: same_shape_def)
    from Cons.IH [OF _ b1(3) b1_ok this] obtain buf' f' where
      r: "render_cells F a b (i + 1) cs buf1 f1 = Ok (buf', f')" "same_font f1 f'" "cache_sound F f'"
      "cells_drawn F f1 a b (i + 1) cs buf1 buf'" using Cons.prems(1) f1 by auto
    note g = glyph_simps [OF assms(1) Cons.prems(1)]
    have here: "shows_at buf1 (i * unit_width f) 0 (glyph_at F f c)"
      using blit_shows [OF b1(4) Cons.prems(3)] iw Cons.prems(5) g by simp
    have keep: "shows_at buf1 (j * unit_width f) 0 (glyph_at F f d)"
      if "(j + 1) * unit_width f \<le> fb_width buf" "shows_at buf (j * unit_width f) 0 (glyph_at F f d)" "j \<noteq> i" for j d
    proof (rule blit_keeps [OF b1(4) Cons.prems(3) that(2)])
      have "(j + 1) * unit_width f \<le> i * unit_width f \<or> (i + 1) * unit_width f \<le> j * unit_width f"
        using that(3) by (metis Suc_eq_plus1 Suc_leI linorder_neqE_nat mult_le_mono1)
      then show "j * unit_width f + fb_width (glyph_at F f d) \<le> i * unit_width f
          \<or> i * unit_width f + fb_width (glyph_at F f c) \<le> j * unit_width f
          \<or> 0 + fb_height (glyph_at F f d) \<le> 0 \<or> 0 + fb_height (glyph_at F f c) \<le> 0"
        by (auto simp: g add_mult_distrib)
      show "j * unit_width f + fb_width (glyph_at F f d) \<le> fb_width buf" "0 + fb_height (glyph_at F f d) \<le> fb_height buf"
        using that(1) Cons.prems(5) by (simp_all add: g add_mult_distrib)
    qed
    have "cells_drawn F f a b i (c # cs) buf buf'"
      unfolding cells_drawn_def
    proof (intro conjI allI impI)
      note d = r(4) [unfolded cells_drawn_def f1]
      show "same_shape buf buf'" using d shape same_shape_trans by blast
      show "shows_at buf' ((i + k) * unit_width f) 0 (glyph_at F f ((c # cs) ! k))"
        if "k < length (c # cs)" "a \<le> i + k \<and> i + k < b" for k
      proof (cases k)
        case 0
        have "(i + 1) * unit_width f \<le> fb_width buf1" using iw shape by (simp add: same_shape_def)
        moreover have "i < i + 1 \<or> \<not> (a \<le> i \<and> i < b)" by simp
        ultimately have "shows_at buf' (i * unit_width f) 0 (glyph_at F f c)" using d here by blast
        with 0 show ?thesis by simp
      next
        case (Suc m)
        with that have "m < length cs" "a \<le> i + 1 + m \<and> i + 1 + m < b" by simp_all
        with d have "shows_at buf' ((i + 1 + m) * unit_width f) 0 (glyph_at F f (cs ! m))" by blast
        with Suc show ?thesis by simp
      qed
      show "shows_at buf' (j * unit_width f) 0 (glyph_at F f d')"
        if "(j + 1) * unit_width f \<le> fb_width buf" "shows_at buf (j * unit_width f) 0 (glyph_at F f d')"
          "j < i \<or> \<not> (a \<le> j \<and> j < b)" for j d'
      proof -
        have "j \<noteq> i" using that(3) True by auto
        then have "shows_at buf1 (j * unit_width f) 0 (glyph_at F f d')" using keep that by blast
        moreover have "(j + 1) * unit_width f \<le> fb_width buf1" using that(1) shape by (simp add: same_shape_def)
        moreover have "j < i + 1 \<or> \<not> (a \<le> j \<and> j < b)" using that(3) by auto
        ultimately show ?thesis using d by blast
      qed
    qed
    with r(1,3) b1 True same_font_trans [OF b1(2) r(2)] show ?thesis by auto
  qed
qed

lemma line_wf_simps:
  assumes "line_wf buf f l" and "fb_ok buf" and "font_wf f"
  shows "fb_ok (line_buf l)" and "fb_width (line_buf l) = columns buf f * unit_width f"
    and "fb_height (line_buf l) = unit_height f" and "length (line_chars l) = columns buf f"
proof -
  have "columns buf f * unit_width f \<le> fb_width buf" by (simp add: columns_def)
  then have "columns buf f * unit_width f < 2 ^ 31" using assms(2) by (auto simp: fb_ok_def)
  then show "fb_ok (line_buf l)" "fb_width (line_buf l) = columns buf f * unit_width f"
    "fb_height (line_buf l) = unit_height f" "length (line_chars l) = columns buf f"
    using assms(1) unit_range [OF assms(3)]
    by (auto simp: line_wf_def same_shape_def new_vec_buffer_def fb_ok_def)
qed

lemma line_render_ok:
  assumes "face_ok F" and "font_wf f" and "cache_sound F f" and "fb_ok buf" and "line_wf buf f l" and "line_ok F f l"
  obtains l' f' where "line_render F l f = Ok (l', f')" and "same_font f f'" and "cache_sound F f'"
    and "line_chars l' = line_chars l" and "line_diff l' = None" and "line_wf buf f l'" and "line_ok F f l'"
proof (cases "line_diff l")
  case None
  with assms that [of l f] show ?thesis by (simp add: line_render_def)
next
  case (Some d)
  obtain a b where d: "d = (a, b)" by (cases d)
  note w = line_wf_simps [OF assms(5,4,2)]
  have "(0 + length (line_chars l)) * unit_width f \<le> fb_width (line_buf l)" using w by simp
  from render_cells_ok [OF assms(1-3) w(1) this w(3)] obtain buf' f' where
    r: "render_cells F a b 0 (line_chars l) (line_buf l) f = Ok (buf', f')" "same_font f f'" "cache_sound F f'"
    "cells_drawn F f a b 0 (line_chars l) (line_buf l) buf'" by blast
  let ?l = "l\<lparr>line_buf := buf', line_diff := None\<rparr>"
  have "line_wf buf f ?l"
    using assms(5) r(4) same_shape_trans by (auto simp: line_wf_def cells_drawn_def)
  moreover have "line_ok F f ?l"
    unfolding line_ok_def
  proof (intro allI impI)
    fix i assume "i < length (line_chars ?l)"
    then have i: "i < length (line_chars l)" by simp
    have iw: "(i + 1) * unit_width f \<le> fb_width (line_buf l)"
      unfolding w(2) using i w(4) by (intro mult_le_mono1) simp
    show "diff_in (line_diff ?l) i \<or> line_chars ?l ! i = void_cell
        \<or> shows_at (line_buf ?l) (i * unit_width f) 0 (glyph_at F f (line_chars ?l ! i))"
    proof (cases "a \<le> i \<and> i < b")
      case True
      with r(4) i have "shows_at buf' ((0 + i) * unit_width f) 0 (glyph_at F f (line_chars l ! i))"
        unfolding cells_drawn_def by (metis add_0)
      then show ?thesis by simp
    next
      case False
      then have "\<not> diff_in (line_diff l) i" using Some d by simp
      with assms(6) i have "line_chars l ! i = void_cell \<or> shows_at (line_buf l) (i * unit_width f) 0 (glyph_at F f (line_chars l ! i))"
        unfolding line_ok_def by blast
      with r(4) iw False show ?thesis unfolding cells_drawn_def by auto
    qed
  qed
  ultimately show ?thesis
    using that [of ?l f'] r Some d by (simp add: line_render_def)
qed

section \<open>Drawing the lines\<close>

definition margin_x :: "frame_buffer \<Rightarrow> font \<Rightarrow> nat" where
  "margin_x buf f = (fb_width buf - columns buf f * unit_width f) div 2"

definition margin_y :: "frame_buffer \<Rightarrow> font \<Rightarrow> nat" where
  "margin_y buf f = (fb_height buf - rows_of buf f * unit_height f) div 2"

text \<open>The picture of a line is on the screen at row \<open>j\<close>.\<close>

definition row_shows :: "frame_buffer \<Rightarrow> font \<Rightarrow> nat \<Rightarrow> frame_buffer \<Rightarrow> bool" where
  "row_shows buf f j pic \<longleftrightarrow> shows_at buf (margin_x buf f) (margin_y buf f + j * unit_height f) pic"

lemma same_places:
  assumes "same_shape buf buf'" and "same_font f f'"
  shows "columns buf' f' = columns buf f" and "rows_of buf' f' = rows_of buf f"
    and "margin_x buf' f' = margin_x buf f" and "margin_y buf' f' = margin_y buf f"
    and "line_wf buf' f' l = line_wf buf f l" and "line_ok F f' l = line_ok F f l"
  using assms(1)
  by (simp_all add: same_font_simps [OF assms(2)] same_shape_def columns_def rows_of_def margin_x_def margin_y_def line_wf_def line_ok_def)

lemma row_fits:
  assumes "j < rows_of buf f"
  shows "margin_x buf f + columns buf f * unit_width f \<le> fb_width buf"
    and "margin_y buf f + j * unit_height f + unit_height f \<le> fb_height buf"
proof -
  have "columns buf f * unit_width f \<le> fb_width buf" by (simp add: columns_def)
  then show "margin_x buf f + columns buf f * unit_width f \<le> fb_width buf" by (simp add: margin_x_def)
  have "(j + 1) * unit_height f \<le> rows_of buf f * unit_height f" using assms by (intro mult_le_mono1) simp
  moreover have "rows_of buf f * unit_height f \<le> fb_height buf" by (simp add: rows_of_def)
  ultimately show "margin_y buf f + j * unit_height f + unit_height f \<le> fb_height buf" by (simp add: margin_y_def)
qed

lemma half_i32_nat [simp]: "half_i32 (int n) = int (n div 2)"
  by (simp add: half_i32_def zdiv_int)

lemma add_i32_nat: "m + n < 2 ^ 31 \<Longrightarrow> add_i32 (int m) (int n) = Ok (int (m + n))"
  by (simp add: add_i32_def i32_range_def)

lemma row_at:
  assumes "fb_ok buf" and "i < rows_of buf f"
  shows "add_i32 (half_i32 (as_i32 (fb_height buf - rows_of buf f * unit_height f))) (as_i32 (i * unit_height f))
      = (Ok (int (margin_y buf f + i * unit_height f)) :: (unit, int) outcome)"
    and "half_i32 (as_i32 (fb_width buf - columns buf f * unit_width f)) = int (margin_x buf f)"
proof -
  have b: "fb_height buf < 2 ^ 31" "fb_width buf < 2 ^ 31" using assms(1) by (auto simp: fb_ok_def)
  have "margin_y buf f + i * unit_height f < 2 ^ 31" using row_fits(2) [OF assms(2)] b by linarith
  then show "add_i32 (half_i32 (as_i32 (fb_height buf - rows_of buf f * unit_height f))) (as_i32 (i * unit_height f))
      = (Ok (int (margin_y buf f + i * unit_height f)) :: (unit, int) outcome)"
    using b add_i32_nat [of "margin_y buf f" "i * unit_height f"] by (simp add: margin_y_def del: of_nat_mult of_nat_add)
  show "half_i32 (as_i32 (fb_width buf - columns buf f * unit_width f)) = int (margin_x buf f)"
    using b by (simp add: margin_x_def)
qed

text \<open>Drawing one row shows it, and leaves the other rows.\<close>

definition row_drawn :: "font \<Rightarrow> nat \<Rightarrow> frame_buffer \<Rightarrow> frame_buffer \<Rightarrow> frame_buffer \<Rightarrow> bool" where
  "row_drawn f i pic buf buf' \<longleftrightarrow> same_shape buf buf' \<and> row_shows buf' f i pic
     \<and> (\<forall>j l. j < rows_of buf f \<longrightarrow> j \<noteq> i \<longrightarrow> line_wf buf f l \<longrightarrow> row_shows buf f j (line_buf l) \<longrightarrow> row_shows buf' f j (line_buf l))"

lemma blit_row:
  assumes "fb_ok buf" and "font_wf f" and "line_wf buf f l" and "i < rows_of buf f"
  obtains buf' where "blit buf (int (margin_x buf f)) (int (margin_y buf f + i * unit_height f)) (line_buf l) = Ok buf'"
    and "row_drawn f i (line_buf l) buf buf'"
proof -
  let ?x = "margin_x buf f" and ?y = "\<lambda>j. margin_y buf f + j * unit_height f"
  note w = line_wf_simps [OF assms(3,1,2)] and fit = row_fits [OF assms(4)]
  obtain buf' where b: "blit buf (int ?x) (int (?y i)) (line_buf l) = Ok buf'"
    "blit_spec buf (int ?x) (int (?y i)) (line_buf l) buf'"
    using blit_at [OF assms(1) w(1), of ?x "?y i"] w fit by auto
  have shape: "same_shape buf buf'" using b(2) by (simp add: blit_spec_def)
  note pl = same_places [OF shape same_font_refl]
  have "row_shows buf' f i (line_buf l)"
    unfolding row_shows_def pl by (rule blit_shows [OF b(2) assms(1)]) (use w fit in auto)
  moreover have "row_shows buf' f j (line_buf k)"
    if "j < rows_of buf f" "j \<noteq> i" "line_wf buf f k" "row_shows buf f j (line_buf k)" for j k
    unfolding row_shows_def pl
  proof (rule blit_keeps [OF b(2) assms(1) that(4) [unfolded row_shows_def]])
    note wk = line_wf_simps [OF that(3) assms(1,2)] and fk = row_fits [OF that(1)]
    show "?x + fb_width (line_buf k) \<le> fb_width buf" "?y j + fb_height (line_buf k) \<le> fb_height buf"
      using wk fk by auto
    have "(j + 1) * unit_height f \<le> i * unit_height f \<or> (i + 1) * unit_height f \<le> j * unit_height f"
      using that(2) by (metis Suc_eq_plus1 Suc_leI linorder_neqE_nat mult_le_mono1)
    then show "?x + fb_width (line_buf k) \<le> ?x \<or> ?x + fb_width (line_buf l) \<le> ?x
        \<or> ?y j + fb_height (line_buf k) \<le> ?y i \<or> ?y i + fb_height (line_buf l) \<le> ?y j"
      using wk w by (auto simp: add_mult_distrib)
  qed
  ultimately show ?thesis using that [OF b(1)] shape unfolding row_drawn_def by blast
qed

definition lines_drawn :: "'c font_face \<Rightarrow> font \<Rightarrow> nat \<Rightarrow> nat \<Rightarrow> nat \<Rightarrow> line list \<Rightarrow> frame_buffer \<Rightarrow> line list \<Rightarrow> frame_buffer \<Rightarrow> bool" where
  "lines_drawn F f a b i ls buf ls' buf' \<longleftrightarrow> same_shape buf buf' \<and> map line_chars ls' = map line_chars ls
     \<and> (\<forall>l\<in>set ls'. line_wf buf f l \<and> line_ok F f l)
     \<and> (\<forall>k<length ls. if a \<le> i + k \<and> i + k < b then line_diff (ls' ! k) = None \<and> row_shows buf' f (i + k) (line_buf (ls' ! k))
          else ls' ! k = ls ! k)
     \<and> (\<forall>j l. j < rows_of buf f \<longrightarrow> j < i \<or> \<not> (a \<le> j \<and> j < b) \<longrightarrow> line_wf buf f l \<longrightarrow> row_shows buf f j (line_buf l)
          \<longrightarrow> row_shows buf' f j (line_buf l))"

lemma lines_drawn_skip:
  assumes "lines_drawn F f a b (i + 1) ls buf ls' buf'" and "\<not> (a \<le> i \<and> i < b)" and "line_wf buf f l" and "line_ok F f l"
  shows "lines_drawn F f a b i (l # ls) buf (l # ls') buf'"
  unfolding lines_drawn_def
proof (intro conjI allI impI ballI)
  note d = assms(1) [unfolded lines_drawn_def]
  show "same_shape buf buf'" "map line_chars (l # ls') = map line_chars (l # ls)" using d by auto
  show "line_wf buf f m" "line_ok F f m" if "m \<in> set (l # ls')" for m using d that assms(3,4) by auto
  show "if a \<le> i + k \<and> i + k < b then line_diff ((l # ls') ! k) = None \<and> row_shows buf' f (i + k) (line_buf ((l # ls') ! k))
      else (l # ls') ! k = (l # ls) ! k" if "k < length (l # ls)" for k
    using d that assms(2) by (cases k) auto
  show "row_shows buf' f j (line_buf m)" if "j < rows_of buf f" "j < i \<or> \<not> (a \<le> j \<and> j < b)" "line_wf buf f m"
    "row_shows buf f j (line_buf m)" for j m
    using d that by (meson less_SucI add_lessD1 trans_less_add1)
qed

lemma lines_drawn_step:
  assumes "lines_drawn F f a b (i + 1) ls buf1 ls' buf'" and "row_drawn f i (line_buf l') buf buf1"
    and "a \<le> i" and "i < b" and "i < rows_of buf f"
    and "line_wf buf f l'" and "line_ok F f l'" and "line_diff l' = None" and "line_chars l' = line_chars l"
  shows "lines_drawn F f a b i (l # ls) buf (l' # ls') buf'"
  unfolding lines_drawn_def
proof (intro conjI allI impI ballI)
  note d = assms(1) [unfolded lines_drawn_def] and r = assms(2) [unfolded row_drawn_def]
  note pl = same_places [OF r [THEN conjunct1] same_font_refl]
  show "same_shape buf buf'" using d r same_shape_trans by blast
  show "map line_chars (l' # ls') = map line_chars (l # ls)" using d assms(9) by auto
  show "line_wf buf f m" "line_ok F f m" if "m \<in> set (l' # ls')" for m using d that assms(6,7) pl by auto
  have keep: "row_shows buf' f j (line_buf m)"
    if "j < rows_of buf f" "j < i + 1 \<or> \<not> (a \<le> j \<and> j < b)" "line_wf buf f m" "row_shows buf1 f j (line_buf m)" for j m
  proof -
    have "j < rows_of buf1 f" "line_wf buf1 f m" using that pl by simp_all
    with d that(2,4) show ?thesis by blast
  qed
  show "if a \<le> i + k \<and> i + k < b then line_diff ((l' # ls') ! k) = None \<and> row_shows buf' f (i + k) (line_buf ((l' # ls') ! k))
      else (l' # ls') ! k = (l # ls) ! k" if "k < length (l # ls)" for k
    using d that assms(3-8) keep r by (cases k) auto
  show "row_shows buf' f j (line_buf m)" if j: "j < rows_of buf f" "j < i \<or> \<not> (a \<le> j \<and> j < b)" "line_wf buf f m"
    "row_shows buf f j (line_buf m)" for j m
  proof (rule keep [OF j(1) _ j(3)])
    show "j < i + 1 \<or> \<not> (a \<le> j \<and> j < b)" using j(2) by auto
    have "j \<noteq> i" using j(2) assms(3,4) by auto
    with r j show "row_shows buf1 f j (line_buf m)" by blast
  qed
qed

lemma lines_drawn_font: "same_font f f' \<Longrightarrow> lines_drawn F f' a b i ls buf ls' buf' = lines_drawn F f a b i ls buf ls' buf'"
  by (simp add: lines_drawn_def row_shows_def same_font_simps same_places [OF same_shape_refl])

lemma render_lines_ok:
  assumes "face_ok F" and "font_wf f" and "cache_sound F f" and "fb_ok buf"
    and "i + length ls = rows_of buf f" and "\<forall>l\<in>set ls. line_wf buf f l \<and> line_ok F f l"
  shows "\<exists>ls' buf' f'. render_lines F (as_i32 (fb_height buf - rows_of buf f * unit_height f)) a b i ls buf f = Ok (ls', buf', f')
    \<and> same_font f f' \<and> cache_sound F f' \<and> lines_drawn F f a b i ls buf ls' buf'"
  using assms(2-6)
proof (induction ls arbitrary: i buf f)
  case Nil
  then show ?case by (auto simp: lines_drawn_def)
next
  case (Cons l ls)
  have l: "line_wf buf f l" "line_ok F f l" and i: "i < rows_of buf f" using Cons.prems(4,5) by auto
  show ?case
  proof (cases "a \<le> i \<and> i < b")
    case False
    from Cons.IH [OF Cons.prems(1-3), of "i + 1"] Cons.prems(4,5) obtain ls' buf' f' where
      r: "render_lines F (as_i32 (fb_height buf - rows_of buf f * unit_height f)) a b (i + 1) ls buf f = Ok (ls', buf', f')"
      "same_font f f'" "cache_sound F f'" "lines_drawn F f a b (i + 1) ls buf ls' buf'" by auto
    with lines_drawn_skip [OF r(4) False l] False show ?thesis by auto
  next
    case True
    obtain l' f1 where l': "line_render F l f = Ok (l', f1)" "same_font f f1" "cache_sound F f1" "line_chars l' = line_chars l"
      "line_diff l' = None" "line_wf buf f l'" "line_ok F f l'"
      using line_render_ok [OF assms(1) Cons.prems(1-3) l] by blast
    obtain buf1 where b1: "blit buf (int (margin_x buf f)) (int (margin_y buf f + i * unit_height f)) (line_buf l') = Ok buf1"
      "row_drawn f i (line_buf l') buf buf1"
      using blit_row [OF Cons.prems(3,1) l'(6) i] by blast
    have shape: "same_shape buf buf1" using b1(2) by (simp add: row_drawn_def)
    note pl = same_places [OF shape l'(2)] and f1 = same_font_simps [OF l'(2)] and b1_ok = same_shape_ok [OF shape Cons.prems(3)]
    have h: "fb_height buf1 = fb_height buf" using shape by (simp add: same_shape_def)
    from Cons.IH [OF _ l'(3) b1_ok, of "i + 1"] Cons.prems(1,4,5) obtain ls' buf' f' where
      r: "render_lines F (as_i32 (fb_height buf - rows_of buf f * unit_height f)) a b (i + 1) ls buf1 f1 = Ok (ls', buf', f')"
      "same_font f1 f'" "cache_sound F f'" "lines_drawn F f1 a b (i + 1) ls buf1 ls' buf'"
      by (auto simp: pl f1 h)
    have "lines_drawn F f a b i (l # ls) buf (l' # ls') buf'"
      by (rule lines_drawn_step [OF r(4) [unfolded lines_drawn_font [OF l'(2)]] b1(2)]) (use True i l' in auto)
    moreover have "length (line_chars l') = columns buf f" "columns buf f * unit_width f \<le> fb_width buf"
      using l'(6) by (auto simp: line_wf_def columns_def)
    ultimately show ?thesis
      using True l'(1) b1(1) r same_font_trans [OF l'(2) r(2)] row_at [OF Cons.prems(3) i]
      by (auto simp: f1)
  qed
qed

section \<open>The invariant of the text buffer\<close>

fun diff_wf :: "render_diff \<Rightarrow> bool" where
  "diff_wf None \<longleftrightarrow> True"
| "diff_wf (Some (a, b)) \<longleftrightarrow> a \<le> b"

lemma diff_wf_extend: "diff_wf d \<Longrightarrow> a \<le> b \<Longrightarrow> diff_wf (extend_render_diff d a b)"
  by (cases d) (auto simp: extend_render_diff_def)

text \<open>A row that is not to be drawn again is on the screen, or nothing was ever written to it.\<close>

definition row_ok :: "text_buffer \<Rightarrow> nat \<Rightarrow> bool" where
  "row_ok tb j \<longleftrightarrow> diff_in (tb_diff tb) j \<or> line_diff (tb_lines tb ! j) = None
     \<and> (row_shows (tb_buf tb) (tb_font tb) j (line_buf (tb_lines tb ! j)) \<or> (\<forall>c\<in>set (line_chars (tb_lines tb ! j)). c = void_cell))"

definition tb_ok :: "'c font_face \<Rightarrow> text_buffer \<Rightarrow> bool" where
  "tb_ok F tb \<longleftrightarrow> tb_wf F tb \<and> diff_wf (tb_diff tb) \<and> (\<forall>l\<in>set (tb_lines tb). line_ok F (tb_font tb) l)
     \<and> (\<forall>j<length (tb_lines tb). row_ok tb j)"

text \<open>From \<open>tb\<close> to \<open>tb'\<close>, only lines in the range recorded have changed.\<close>

definition tb_upd :: "text_buffer \<Rightarrow> text_buffer \<Rightarrow> bool" where
  "tb_upd tb tb' \<longleftrightarrow> tb_buf tb' = tb_buf tb \<and> tb_font tb' = tb_font tb \<and> list_all2 line_upd (tb_lines tb) (tb_lines tb')
     \<and> (diff_wf (tb_diff tb) \<longrightarrow> diff_wf (tb_diff tb'))
     \<and> (\<forall>j<length (tb_lines tb). diff_in (tb_diff tb) j \<or> tb_lines tb' ! j \<noteq> tb_lines tb ! j \<longrightarrow> diff_in (tb_diff tb') j)"

definition cursor_ok :: "text_buffer \<Rightarrow> bool" where
  "cursor_ok tb \<longleftrightarrow> fst (tb_cursor tb) \<le> columns (tb_buf tb) (tb_font tb) \<and> snd (tb_cursor tb) < rows_of (tb_buf tb) (tb_font tb)"

lemma list_all2_in: "list_all2 P xs ys \<Longrightarrow> y \<in> set ys \<Longrightarrow> \<exists>x\<in>set xs. P x y"
  by (metis in_set_conv_nth list_all2_conv_all_nth)

lemma tb_upd_ok:
  assumes "tb_ok F tb" and "tb_upd tb tb'" and "cursor_ok tb'"
  shows "tb_ok F tb'"
proof -
  note u = assms(2) [unfolded tb_upd_def] and ok = assms(1) [unfolded tb_ok_def]
  have same: "tb_buf tb' = tb_buf tb" "tb_font tb' = tb_font tb" and la: "list_all2 line_upd (tb_lines tb) (tb_lines tb')"
    using u by blast+
  have len: "length (tb_lines tb') = length (tb_lines tb)" using list_all2_lengthD [OF la] by simp
  have "line_wf (tb_buf tb) (tb_font tb) l \<and> line_ok F (tb_font tb) l" if "l \<in> set (tb_lines tb')" for l
  proof -
    from list_all2_in [OF la that] obtain k where k: "k \<in> set (tb_lines tb)" "line_upd k l" by blast
    with ok have "line_wf (tb_buf tb) (tb_font tb) k" "line_ok F (tb_font tb) k" unfolding tb_wf_def by blast+
    with k(2) show ?thesis using line_wf_upd line_ok_upd by blast
  qed
  moreover have "row_ok tb' j" if "j < length (tb_lines tb)" for j
  proof (cases "diff_in (tb_diff tb') j")
    case False
    then have "\<not> diff_in (tb_diff tb) j" "tb_lines tb' ! j = tb_lines tb ! j" using u that by blast+
    moreover have "row_ok tb j" using ok that by blast
    ultimately show ?thesis by (simp add: row_ok_def same)
  qed (simp add: row_ok_def)
  moreover have "diff_wf (tb_diff tb')" using ok u by blast
  ultimately show ?thesis using ok assms(3) unfolding tb_ok_def tb_wf_def cursor_ok_def len same by simp
qed

lemma tb_ok_cursor:
  assumes "tb_ok F tb" and "x \<le> columns (tb_buf tb) (tb_font tb)" and "y < rows_of (tb_buf tb) (tb_font tb)"
  shows "tb_ok F (tb\<lparr>tb_cursor := (x, y)\<rparr>)"
proof (rule tb_upd_ok [OF assms(1)])
  show "tb_upd tb (tb\<lparr>tb_cursor := (x, y)\<rparr>)" by (simp add: tb_upd_def line_upd_def list_all2_refl)
  show "cursor_ok (tb\<lparr>tb_cursor := (x, y)\<rparr>)" using assms(2,3) by (simp add: cursor_ok_def)
qed

lemma tb_ok_simps:
  assumes "tb_ok F tb"
  shows "length (tb_lines tb) = rows_of (tb_buf tb) (tb_font tb)" and "fst (tb_cursor tb) \<le> columns (tb_buf tb) (tb_font tb)"
    and "snd (tb_cursor tb) < rows_of (tb_buf tb) (tb_font tb)" and "0 < columns (tb_buf tb) (tb_font tb)"
    and "0 < rows_of (tb_buf tb) (tb_font tb)" and "fb_ok (tb_buf tb)" and "font_wf (tb_font tb)" and "cache_sound F (tb_font tb)"
    and "j < rows_of (tb_buf tb) (tb_font tb) \<Longrightarrow> length (line_chars (tb_lines tb ! j)) = columns (tb_buf tb) (tb_font tb)"
    and "columns (tb_buf tb) (tb_font tb) < 2 ^ 31" and "rows_of (tb_buf tb) (tb_font tb) < 2 ^ 31"
proof -
  note ok = assms [unfolded tb_ok_def tb_wf_def]
  show "length (tb_lines tb) = rows_of (tb_buf tb) (tb_font tb)" "fst (tb_cursor tb) \<le> columns (tb_buf tb) (tb_font tb)"
    "snd (tb_cursor tb) < rows_of (tb_buf tb) (tb_font tb)" "0 < columns (tb_buf tb) (tb_font tb)"
    "0 < rows_of (tb_buf tb) (tb_font tb)" "fb_ok (tb_buf tb)" "font_wf (tb_font tb)" "cache_sound F (tb_font tb)"
    using ok by auto
  show "length (line_chars (tb_lines tb ! j)) = columns (tb_buf tb) (tb_font tb)" if "j < rows_of (tb_buf tb) (tb_font tb)"
    using ok that by (auto simp: line_wf_def)
  have "fb_width (tb_buf tb) < 2 ^ 31" "fb_height (tb_buf tb) < 2 ^ 31" using ok by (auto simp: fb_ok_def)
  then show "columns (tb_buf tb) (tb_font tb) < 2 ^ 31" "rows_of (tb_buf tb) (tb_font tb) < 2 ^ 31"
    unfolding columns_def rows_of_def by (meson div_le_dividend le_less_trans)+
qed

lemma set_cursor_ok: "tb_ok F tb \<Longrightarrow> \<exists>tb'. set_cursor x y tb = Ok tb' \<and> tb_ok F tb'"
proof -
  assume ok: "tb_ok F tb"
  note s = tb_ok_simps [OF ok]
  define y' where "y' = min (length (tb_lines tb) - 1) (case y of Some n \<Rightarrow> n | None \<Rightarrow> snd (tb_cursor tb))"
  have y': "y' < rows_of (tb_buf tb) (tb_font tb)" using s by (auto simp: y'_def)
  define x' where "x' = min (length (line_chars (tb_lines tb ! y')) - 1) (case x of Some n \<Rightarrow> n | None \<Rightarrow> fst (tb_cursor tb))"
  have "tb_lines tb \<noteq> []" "line_chars (tb_lines tb ! y') \<noteq> []" using s(1,4,5) s(9) [OF y'] by auto
  then have "set_cursor x y tb = Ok (tb\<lparr>tb_cursor := (x', y')\<rparr>)"
    unfolding set_cursor_def Let_def y'_def [symmetric] x'_def [symmetric] by simp
  moreover have "x' \<le> columns (tb_buf tb) (tb_font tb)" using s(9) [OF y'] by (simp add: x'_def)
  ultimately show ?thesis using tb_ok_cursor [OF ok _ y'] by blast
qed

lemma move_cursor_ok:
  assumes "tb_ok F tb" and "i32_range dx" and "i32_range dy"
    and "dx \<le> 2 ^ 31 - 1 - int (fst (tb_cursor tb))" and "dy \<le> 2 ^ 31 - 1 - int (snd (tb_cursor tb))"
  shows "\<exists>tb'. move_cursor dx dy tb = Ok tb' \<and> tb_ok F tb'"
proof -
  note s = tb_ok_simps [OF assms(1)]
  obtain x y where xy: "tb_cursor tb = (x, y)" by (cases "tb_cursor tb")
  let ?cols = "columns (tb_buf tb) (tb_font tb)" and ?rows = "rows_of (tb_buf tb) (tb_font tb)"
  define y' where "y' = max 0 (min (int ?rows - 1) (int y + dy))"
  define x' where "x' = max 0 (min (int ?cols - 1) (int x + dx))"
  have b: "x < 2 ^ 31" "y < 2 ^ 31" "x \<le> ?cols" "y < ?rows" using s xy by auto
  have y': "nat y' < ?rows" and x': "nat x' \<le> ?cols" using s(4,5) by (auto simp: y'_def x'_def)
  have "add_i32 (as_i32 y) dy = (Ok (int y + dy) :: (unit, int) outcome)"
    "add_i32 (as_i32 x) dx = (Ok (int x + dx) :: (unit, int) outcome)"
    using b assms(2-5) xy by (auto simp: add_i32_def i32_range_def)
  moreover have "clamp_i32 0 (as_i32 (length (tb_lines tb)) - 1) (int y + dy) = Ok y'"
    using s(1,5,11) by (simp add: clamp_i32_def y'_def)
  moreover have "clamp_i32 0 (as_i32 (length (line_chars (tb_lines tb ! nat y'))) - 1) (int x + dx) = Ok x'"
    using s(4,10) s(9) [OF y'] by (simp add: clamp_i32_def x'_def)
  ultimately show ?thesis using tb_ok_cursor [OF assms(1) x' y'] xy by (simp add: move_cursor_def)
qed

lemma line_upd_refl [simp]: "line_upd l l"
  by (simp add: line_upd_def)

lemma line_upd_trans: "line_upd a b \<Longrightarrow> line_upd b c \<Longrightarrow> line_upd a c"
  unfolding line_upd_def by metis

text \<open>The loops over the lines keep count of the changed ones.\<close>

definition lines_upd :: "nat \<Rightarrow> line list \<Rightarrow> nat \<Rightarrow> nat \<Rightarrow> line list \<Rightarrow> nat \<Rightarrow> nat \<Rightarrow> bool" where
  "lines_upd i ls start fin ls' s e \<longleftrightarrow> list_all2 line_upd ls ls' \<and> s \<le> start \<and> fin \<le> e
     \<and> (\<forall>k<length ls. ls' ! k \<noteq> ls ! k \<longrightarrow> s \<le> i + k \<and> i + k < e)"

lemma lines_upd_refl [simp]: "lines_upd i ls s e ls s e"
  by (simp add: lines_upd_def list_all2_refl)

lemma lines_upd_trans:
  assumes "lines_upd i ls s0 e0 ls1 s1 e1" and "lines_upd i ls1 s1 e1 ls2 s2 e2"
  shows "lines_upd i ls s0 e0 ls2 s2 e2"
  unfolding lines_upd_def
proof (intro conjI allI impI)
  note a = assms(1) [unfolded lines_upd_def] and b = assms(2) [unfolded lines_upd_def]
  have len: "length ls1 = length ls" using a list_all2_lengthD by metis
  show "list_all2 line_upd ls ls2" using list_all2_trans [of line_upd line_upd line_upd ls ls1 ls2] a b line_upd_trans by blast
  show "s2 \<le> s0" "e0 \<le> e2" using a b by auto
  fix k assume k: "k < length ls" "ls2 ! k \<noteq> ls ! k"
  show "s2 \<le> i + k" "i + k < e2"
    using a b k len by (cases "ls1 ! k = ls ! k"; force)+
qed

lemma lines_upd_Cons:
  assumes "lines_upd (i + 1) ls start fin ls' s e" and "line_upd l l'" and "l' \<noteq> l \<longrightarrow> start \<le> i \<and> i < fin"
  shows "lines_upd i (l # ls) start fin (l' # ls') s e"
  unfolding lines_upd_def
proof (intro conjI allI impI)
  note a = assms(1) [unfolded lines_upd_def]
  show "list_all2 line_upd (l # ls) (l' # ls')" "s \<le> start" "fin \<le> e" using a assms(2) by auto
  fix k assume "k < length (l # ls)" "(l' # ls') ! k \<noteq> (l # ls) ! k"
  then show "s \<le> i + k" "i + k < e" using a assms(3) by (cases k; force)+
qed

lemma erase_lines_spec:
  "erase_lines bg P i ls start fin = (ls', s, e) \<Longrightarrow> lines_upd i ls start fin ls' s e"
proof (induction bg P i ls start fin arbitrary: ls' s e rule: erase_lines.induct)
  case (2 bg P i l ls start fin)
  obtain changed l' where l': "line_erase l bg 0 USIZE_MAX = (changed, l')" by (cases "line_erase l bg 0 USIZE_MAX")
  note upd = line_erase_upd [OF l']
  consider (out) "\<not> P i" | (same) "P i" "\<not> changed" | (changed) "P i" "changed" by blast
  then show ?case
  proof cases
    case out
    with 2(4) obtain ks where ks: "erase_lines bg P (i + 1) ls start fin = (ks, s, e)" "ls' = l # ks"
      by (auto split: prod.splits)
    from 2(3) [OF out ks(1)] show ?thesis unfolding ks(2) by (rule lines_upd_Cons) simp_all
  next
    case same
    with 2(4) l' obtain ks where ks: "erase_lines bg P (i + 1) ls start fin = (ks, s, e)" "ls' = l' # ks"
      by (auto split: prod.splits)
    from 2(2) [OF same(1) refl l' [symmetric] same(2) ks(1)] show ?thesis unfolding ks(2) by (rule lines_upd_Cons) (use upd same in auto)
  next
    case changed
    with 2(4) l' obtain ks where ks: "erase_lines bg P (i + 1) ls (min start i) (max fin (i + 1)) = (ks, s, e)" "ls' = l' # ks"
      by (auto split: prod.splits)
    from 2(1) [OF changed(1) refl l' [symmetric] changed(2) ks(1)]
    have "lines_upd i (l # ls) (min start i) (max fin (i + 1)) (l' # ks) s e" by (rule lines_upd_Cons) (use upd in auto)
    then show ?thesis unfolding ks(2) by (auto simp: lines_upd_def)
  qed
qed (simp add: lines_upd_def)

lemma line_upd_at:
  assumes "y < length ls" and "line_upd (ls ! y) l" and "l \<noteq> ls ! y \<longrightarrow> s' \<le> y \<and> y < e'" and "s' \<le> s" and "e \<le> e'"
  shows "lines_upd 0 ls s e (ls[y := l]) s' e'"
  unfolding lines_upd_def
proof (intro conjI allI impI)
  show "list_all2 line_upd ls (ls[y := l])"
    using assms(1,2) by (auto simp: list_all2_conv_all_nth nth_list_update)
  show "s' \<le> s" "e \<le> e'" by fact+
  fix k assume "k < length ls" "ls[y := l] ! k \<noteq> ls ! k"
  then show "s' \<le> 0 + k" "0 + k < e'" using assms(1,3) by (cases "k = y"; simp)+
qed

lemma lines_upd_tb:
  assumes "lines_upd 0 (tb_lines tb) USIZE_MAX 0 ls s e"
  shows "tb_upd tb (if s < e then tb\<lparr>tb_lines := ls, tb_diff := extend_render_diff (tb_diff tb) s e\<rparr> else tb\<lparr>tb_lines := ls\<rparr>)"
proof -
  note a = assms [unfolded lines_upd_def]
  show ?thesis
  proof (cases "s < e")
    case True
    have "diff_in (extend_render_diff (tb_diff tb) s e) j"
      if "j < length (tb_lines tb)" "diff_in (tb_diff tb) j \<or> ls ! j \<noteq> tb_lines tb ! j" for j
      using that a by (intro diff_in_extend) auto
    with True a show ?thesis by (simp add: tb_upd_def diff_wf_extend)
  next
    case False
    with a have "\<forall>k<length (tb_lines tb). ls ! k = tb_lines tb ! k" by force
    with False a show ?thesis by (simp add: tb_upd_def)
  qed
qed

lemma erase_text_ok: "tb_ok F tb \<Longrightarrow> \<exists>tb'. erase_text bg p q r t tb = Ok tb' \<and> tb_upd tb tb' \<and> tb_ok F tb'"
proof -
  assume ok: "tb_ok F tb"
  obtain x y where xy: "tb_cursor tb = (x, y)" by (cases "tb_cursor tb")
  note s = tb_ok_simps [OF ok]
  obtain ls1 s1 e1 where l1: "(if p then erase_lines bg (\<lambda>i. i < y) 0 (tb_lines tb) USIZE_MAX 0 else (tb_lines tb, USIZE_MAX, 0)) = (ls1, s1, e1)"
    by (metis surj_pair)
  then have u1: "lines_upd 0 (tb_lines tb) USIZE_MAX 0 ls1 s1 e1" by (auto split: if_splits dest: erase_lines_spec)
  then have y: "y < length ls1" using s xy list_all2_lengthD by (fastforce simp: lines_upd_def)
  let ?a = "if q then 0 else x" and ?b = "if r then USIZE_MAX else x"
  obtain ch l where l: "line_erase (ls1 ! y) bg ?a ?b = (ch, l)" by (metis surj_pair)
  define s2 e2 where "s2 = (if ch then min s1 y else s1)" and "e2 = (if ch then max e1 (y + 1) else e1)"
  have u2: "lines_upd 0 ls1 s1 e1 (ls1[y := l]) s2 e2"
    using line_erase_upd [OF l] by (intro line_upd_at [OF y]) (auto simp: s2_def e2_def)
  obtain ls3 s3 e3 where l3: "(if t then erase_lines bg (\<lambda>i. y + 1 \<le> i) 0 (ls1[y := l]) s2 e2 else (ls1[y := l], s2, e2)) = (ls3, s3, e3)"
    by (metis surj_pair)
  then have "lines_upd 0 (ls1[y := l]) s2 e2 ls3 s3 e3" by (auto split: if_splits dest: erase_lines_spec)
  from lines_upd_tb [OF lines_upd_trans [OF u1 lines_upd_trans [OF u2 this]]]
  have u: "tb_upd tb (if s3 < e3 then tb\<lparr>tb_lines := ls3, tb_diff := extend_render_diff (tb_diff tb) s3 e3\<rparr> else tb\<lparr>tb_lines := ls3\<rparr>)"
    (is "tb_upd tb ?tb'") .
  have "(if ch then (min s1 y, max e1 (y + 1)) else (s1, e1)) = (s2, e2)" by (simp add: s2_def e2_def)
  then have "erase_text bg p q r t tb = Ok ?tb'"
    using y l l3 unfolding erase_text_def xy Let_def prod.case l1 by (simp del: One_nat_def)
  moreover have "cursor_ok ?tb'" using s xy by (simp add: cursor_ok_def)
  ultimately show ?thesis using tb_upd_ok [OF ok u] u by blast
qed

lemma next_text_line_ok:
  assumes "tb_ok F tb"
  shows "\<exists>tb'. next_text_line bg tb = Ok tb' \<and> tb_ok F tb' \<and> fst (tb_cursor tb') = 0"
proof -
  obtain x y where xy: "tb_cursor tb = (x, y)" by (cases "tb_cursor tb")
  note s = tb_ok_simps [OF assms]
  show ?thesis
  proof (cases "length (tb_lines tb) \<le> y + 1")
    case False
    then have "tb_ok F (tb\<lparr>tb_cursor := (0, y + 1)\<rparr>)" using tb_ok_cursor [OF assms] s by simp
    with False xy show ?thesis by (auto simp: next_text_line_def)
  next
    case True
    obtain l ls where ls: "tb_lines tb = l # ls" using s(1,5) by (cases "tb_lines tb") auto
    obtain ch l' where l': "line_erase l bg 0 USIZE_MAX = (ch, l')" by (cases "line_erase l bg 0 USIZE_MAX")
    let ?tb = "tb\<lparr>tb_lines := ls @ [l'], tb_diff := Some (0, length (ls @ [l'])), tb_cursor := (0, length (ls @ [l']) - 1)\<rparr>"
    have "line_upd l l'" using line_erase_upd [OF l'] by blast
    moreover have "\<forall>k\<in>set (l # ls). line_wf (tb_buf tb) (tb_font tb) k \<and> line_ok F (tb_font tb) k"
      using assms ls by (auto simp: tb_ok_def tb_wf_def)
    ultimately have "\<forall>k\<in>set (ls @ [l']). line_wf (tb_buf tb) (tb_font tb) k \<and> line_ok F (tb_font tb) k"
      using line_wf_upd line_ok_upd by auto
    then have "tb_ok F ?tb" using s(1-8) ls by (auto simp: tb_ok_def tb_wf_def row_ok_def)
    with True xy ls l' show ?thesis by (auto simp: next_text_line_def)
  qed
qed

lemma tb_upd_at:
  assumes "y < length (tb_lines tb)" and "line_upd (tb_lines tb ! y) l" and "ch \<or> l = tb_lines tb ! y"
  shows "tb_upd tb (tb\<lparr>tb_lines := (tb_lines tb)[y := l], tb_cursor := c,
    tb_diff := if ch then extend_render_diff (tb_diff tb) y (y + 1) else tb_diff tb\<rparr>)"
proof -
  have u: "lines_upd 0 (tb_lines tb) (y + 1) 0 ((tb_lines tb)[y := l]) y (y + 1)"
    using assms(2) by (intro line_upd_at [OF assms(1)]) auto
  have "diff_in (extend_render_diff (tb_diff tb) y (y + 1)) j"
    if "j < length (tb_lines tb)" "diff_in (tb_diff tb) j \<or> (tb_lines tb)[y := l] ! j \<noteq> tb_lines tb ! j" for j
    using that u by (intro diff_in_extend) (auto simp: lines_upd_def)
  with u assms(3) show ?thesis by (auto simp: tb_upd_def lines_upd_def diff_wf_extend)
qed

lemma put_text_fits:
  assumes u: "tb_ok F u" and fits: "c = 10 \<or> fst (tb_cursor u) < columns (tb_buf u) (tb_font u)"
  shows "\<exists>tb'. put_text (Suc n) c fg bg style u = Ok tb' \<and> tb_ok F tb'"
proof -
  obtain x y where xy: "tb_cursor u = (x, y)" by (cases "tb_cursor u")
  note s = tb_ok_simps [OF u]
  have y: "y < length (tb_lines u)" using s xy by simp
  obtain r l where l: "line_put (tb_lines u ! y) c fg bg style x = (r, l)" by (metis surj_pair)
  note p = line_put_upd [OF l]
  show ?thesis
  proof (cases r)
    case LineFeed
    with p have "u\<lparr>tb_lines := (tb_lines u)[y := l]\<rparr> = u" by simp
    with next_text_line_ok [OF u, of bg] LineFeed xy y l show ?thesis by auto
  next
    case Wrapping
    with p have "length (line_chars (tb_lines u ! y)) \<le> x" by simp
    with l fits s(9) [of y] s xy Wrapping show ?thesis by (auto simp: line_put_def split: if_splits prod.splits)
  next
    case (NextCell ch x')
    let ?u = "u\<lparr>tb_lines := (tb_lines u)[y := l], tb_cursor := (x', y),
      tb_diff := if ch then extend_render_diff (tb_diff u) y (y + 1) else tb_diff u\<rparr>"
    have x': "x' = x + 1" "x < columns (tb_buf u) (tb_font u)" using p NextCell s(9) [of y] s xy by auto
    have "tb_upd u ?u" by (rule tb_upd_at [OF y]) (use p NextCell x' in auto)
    moreover have "cursor_ok ?u" using x' s xy by (simp add: cursor_ok_def)
    ultimately have "tb_ok F ?u" by (rule tb_upd_ok [OF u])
    moreover have "put_text (Suc n) c fg bg style u = Ok ?u" using NextCell xy y l by (cases ch) (simp_all add: Let_def)
    ultimately show ?thesis by blast
  qed
qed

text \<open>A character is put after at most one wrap, so two calls are enough.\<close>

lemma put_text_ok:
  assumes "tb_ok F tb" and "2 \<le> n"
  shows "\<exists>tb'. put_text n c fg bg style tb = Ok tb' \<and> tb_ok F tb'"
proof -
  obtain m where n: "n = Suc (Suc m)" using assms(2) by (metis add_2_eq_Suc le_Suc_ex)
  obtain x y where xy: "tb_cursor tb = (x, y)" by (cases "tb_cursor tb")
  note s = tb_ok_simps [OF assms(1)]
  show ?thesis
  proof (cases "c = 10 \<or> x < columns (tb_buf tb) (tb_font tb)")
    case True
    with put_text_fits [OF assms(1)] xy n show ?thesis by simp
  next
    case False
    have y: "y < length (tb_lines tb)" using s xy by simp
    have "line_put (tb_lines tb ! y) c fg bg style x = (Wrapping, tb_lines tb ! y)"
      using False s(9) [of y] s xy by (simp add: line_put_def)
    then have wrap: "put_text n c fg bg style tb = try_then (next_text_line bg tb) (\<lambda>tb''. put_text (Suc m) c fg bg style tb'')"
      using xy y n by (simp del: put_text.simps(2) add: put_text.simps(2) [of "Suc m"])
    obtain tb1 where t1: "next_text_line bg tb = Ok tb1" "tb_ok F tb1" "fst (tb_cursor tb1) = 0"
      using next_text_line_ok [OF assms(1)] by blast
    then have "fst (tb_cursor tb1) < columns (tb_buf tb1) (tb_font tb1)" using tb_ok_simps(4) [OF t1(2)] by simp
    from put_text_fits [OF t1(2) disjI2 [OF this]] show ?thesis unfolding wrap t1(1) by simp
  qed
qed

section \<open>The screen shows the text\<close>

lemma shows_at_within:
  assumes "shows_at buf x y pic" and "shows_at pic u v g" and "u + fb_width g \<le> fb_width pic" and "v + fb_height g \<le> fb_height pic"
  shows "shows_at buf (x + u) (y + v) g"
  unfolding shows_at_def
proof (intro allI impI)
  fix i j assume ij: "i < fb_width g" "j < fb_height g"
  then have "u + i < fb_width pic" "v + j < fb_height pic" using assms(3,4) by auto
  then have "fb_pixel buf (x + (u + i)) (y + (v + j)) = fb_pixel pic (u + i) (v + j)" using assms(1) unfolding shows_at_def by blast
  with assms(2) ij show "fb_pixel buf (x + u + i) (y + v + j) = fb_pixel g i j" by (simp add: shows_at_def add.assoc)
qed

text \<open>The character in a column of a row is on the screen.\<close>

definition char_shown :: "'c font_face \<Rightarrow> text_buffer \<Rightarrow> nat \<Rightarrow> nat \<Rightarrow> bool" where
  "char_shown F tb j i \<longleftrightarrow> shows_at (tb_buf tb)
     (margin_x (tb_buf tb) (tb_font tb) + i * unit_width (tb_font tb)) (margin_y (tb_buf tb) (tb_font tb) + j * unit_height (tb_font tb))
     (glyph_at F (tb_font tb) (line_chars (tb_lines tb ! j) ! i))"

lemma tb_ok_shown:
  assumes "face_ok F" and "tb_ok F tb" and "tb_diff tb = None" and "j < length (tb_lines tb)"
    and "i < length (line_chars (tb_lines tb ! j))" and "line_chars (tb_lines tb ! j) ! i \<noteq> void_cell"
  shows "char_shown F tb j i"
proof -
  let ?l = "tb_lines tb ! j" and ?f = "tb_font tb" and ?c = "line_chars (tb_lines tb ! j) ! i"
  note s = tb_ok_simps [OF assms(2)]
  have l: "line_wf (tb_buf tb) ?f ?l" "line_ok F ?f ?l" "row_ok tb j" using assms(2,4) by (auto simp: tb_ok_def tb_wf_def)
  have row: "line_diff ?l = None" "row_shows (tb_buf tb) ?f j (line_buf ?l)"
    using l(3) assms(3,5,6) by (auto simp: row_ok_def)
  have "shows_at (line_buf ?l) (i * unit_width ?f) 0 (glyph_at F ?f ?c)"
    using l(2) row(1) assms(5,6) unfolding line_ok_def by auto
  note w = line_wf_simps [OF l(1) s(6,7)] and g = glyph_simps [OF assms(1) s(7), of ?c]
  have "(i + 1) * unit_width ?f \<le> fb_width (line_buf ?l)" unfolding w(2) using assms(5) w(4) by (intro mult_le_mono1) simp
  then have "i * unit_width ?f + fb_width (glyph_at F ?f ?c) \<le> fb_width (line_buf ?l)" by (simp add: g)
  moreover have "0 + fb_height (glyph_at F ?f ?c) \<le> fb_height (line_buf ?l)" by (simp add: g w)
  ultimately show ?thesis
    using shows_at_within [OF row(2) [unfolded row_shows_def] \<open>shows_at (line_buf ?l) _ _ _\<close>] by (simp add: char_shown_def)
qed

lemma render_text_ok:
  assumes "face_ok F" and "tb_ok F tb"
  shows "\<exists>tb'. render_text F tb = Ok tb' \<and> tb_ok F tb' \<and> tb_diff tb' = None \<and> tb_cursor tb' = tb_cursor tb
    \<and> map line_chars (tb_lines tb') = map line_chars (tb_lines tb) \<and> same_shape (tb_buf tb) (tb_buf tb')"
proof (cases "tb_diff tb")
  case None
  then show ?thesis using assms by (simp add: render_text_def)
next
  case (Some d)
  obtain a b where d: "d = (a, b)" by (cases d)
  note s = tb_ok_simps [OF assms(2)]
  let ?buf = "tb_buf tb" and ?f = "tb_font tb" and ?ls = "tb_lines tb"
  have "\<forall>l\<in>set ?ls. line_wf ?buf ?f l \<and> line_ok F ?f l" using assms(2) by (auto simp: tb_ok_def tb_wf_def)
  from render_lines_ok [OF assms(1) s(7,8,6) _ this, of 0 a b] obtain ls buf f where
    r: "render_lines F (as_i32 (fb_height ?buf - rows_of ?buf ?f * unit_height ?f)) a b 0 ?ls ?buf ?f = Ok (ls, buf, f)"
    "same_font ?f f" "cache_sound F f" "lines_drawn F ?f a b 0 ?ls ?buf ls buf" using s(1) by auto
  let ?tb = "tb\<lparr>tb_lines := ls, tb_buf := buf, tb_diff := None, tb_font := f\<rparr>"
  note dr = r(4) [unfolded lines_drawn_def]
  have shape: "same_shape ?buf buf" using dr by blast
  note pl = same_places [OF shape r(2)] and f = same_font_simps [OF r(2)] and b_ok = same_shape_ok [OF shape s(6)]
  have len: "length ls = length ?ls" using dr by (metis length_map)
  have "row_ok ?tb j" if j: "j < length ls" for j
  proof -
    have rows: "j < rows_of ?buf ?f" using j len s(1) by simp
    have fj: "row_shows buf f j p \<longleftrightarrow> row_shows buf ?f j p" for p
      by (simp add: row_shows_def f same_places [OF same_shape_refl r(2)])
    show ?thesis
    proof (cases "a \<le> j \<and> j < b")
      case True
      with dr j len have "line_diff (ls ! j) = None \<and> row_shows buf ?f (0 + j) (line_buf (ls ! j))" by (metis add_0)
      then show ?thesis by (simp add: row_ok_def fj)
    next
      case False
      with dr j len have l: "ls ! j = ?ls ! j" by (metis add_0)
      have "row_ok tb j" using assms(2) j len by (simp add: tb_ok_def)
      moreover have "line_wf ?buf ?f (?ls ! j)" using assms(2) j len by (simp add: tb_ok_def tb_wf_def)
      ultimately show ?thesis using dr False rows Some d by (auto simp: row_ok_def fj l)
    qed
  qed
  moreover have "\<forall>l\<in>set ls. line_wf buf f l \<and> line_ok F f l" using dr pl by blast
  ultimately have "tb_ok F ?tb" using s b_ok r(3) len by (auto simp: tb_ok_def tb_wf_def pl f)
  moreover have "rows_of ?buf ?f * unit_height ?f \<le> fb_height ?buf" by (simp add: rows_of_def)
  moreover have "a \<le> b" using assms(2) Some d by (simp add: tb_ok_def)
  ultimately show ?thesis using Some d r(1) s(1) dr by (simp add: render_text_def)
qed

lemma new_text_buffer_ok:
  assumes "fb_ok buf" and "font_wf f" and "cache_sound F f" and "fb_format buf = font_format f"
    and "unit_width f \<le> fb_width buf" and "unit_height f \<le> fb_height buf"
  shows "\<exists>tb. new_text_buffer buf f = Ok tb \<and> tb_ok F tb \<and> tb_buf tb = buf \<and> tb_font tb = f"
proof -
  note u = unit_range [OF assms(2)]
  let ?tb = "\<lparr>tb_lines = replicate (fb_height buf div unit_height f) (new_line buf f), tb_buf = buf,
    tb_diff = None, tb_font = f, tb_cursor = (0, 0)\<rparr>"
  have l: "line_wf buf f (new_line buf f)" "line_ok F f (new_line buf f)"
    using assms(4) by (simp_all add: line_wf_def line_ok_def new_line_def Let_def columns_def)
  have "row_ok ?tb j" if "j < fb_height buf div unit_height f" for j
    using that by (simp add: row_ok_def new_line_def Let_def)
  moreover have "0 < columns buf f" "0 < rows_of buf f"
    using assms(5,6) u by (auto simp: columns_def rows_of_def div_greater_zero_iff)
  ultimately have "tb_ok F ?tb" using assms(1-3) l by (auto simp: tb_ok_def tb_wf_def rows_of_def)
  with assms(4) u show ?thesis by (simp add: new_text_buffer_def)
qed

end
