(* ===== verification/Ansi.thy ===== *)
theory Ansi
  imports Unicode
begin

text \<open>
  ANSI escape codes, \<open>console/ansi.rs\<close>: the decoder, a state machine that takes one character at a
  time, the escape sequences and graphic renditions it yields, and the colors of a color scheme
  (\<open>console/theme.rs\<close>). Parameters are \<open>u32\<close>; where one does not fit, the debug build panics.
\<close>

abbreviation ascii :: "char \<Rightarrow> rchar" where
  "ascii c \<equiv> of_char c"

section \<open>Colors and graphic renditions\<close>

datatype named_color = Black | Red | Green | Yellow | Blue | Magenta | Cyan | White

datatype named_color_variation = ForceDimmer | Dimmer | Brighter | ForceBrighter

datatype ansi_color =
    DefaultColor
  | Named named_color named_color_variation
  | Rgb nat
  | Grayscale nat

datatype sgr =
    Reset | Bold | Faint | ResetBoldFaint
  | Italic bool | Underline bool | Blinking bool | Inverse bool | Hidden bool | Strikethrough bool
  | Fg ansi_color | Bg ansi_color

definition is_dimmer :: "named_color_variation \<Rightarrow> bool" where
  "is_dimmer v \<longleftrightarrow> v = ForceDimmer \<or> v = Dimmer"

text \<open>\<open>Color::from_256\<close>; the \<open>match\<close> on the first 16 numbers is a table.\<close>

definition named_table :: "(nat \<times> ansi_color) list" where
  "named_table =
     [(0, Named Black Dimmer), (1, Named Red Dimmer), (2, Named Green Dimmer), (3, Named Yellow Dimmer),
      (4, Named Blue Dimmer), (5, Named Magenta Dimmer), (6, Named Cyan Dimmer), (7, Named White Dimmer),
      (8, Named Black ForceBrighter), (9, Named Red ForceBrighter), (10, Named Green ForceBrighter),
      (11, Named Yellow ForceBrighter), (12, Named Blue ForceBrighter), (13, Named Magenta ForceBrighter),
      (14, Named Cyan ForceBrighter), (15, Named White ForceBrighter)]"

definition from_256 :: "nat \<Rightarrow> ansi_color option" where
  "from_256 n =
     (case map_of named_table n of
        Some c \<Rightarrow> Some c
      | None \<Rightarrow>
          if 16 \<le> n \<and> n \<le> 231 then Some (Rgb (n - 16))
          else if 232 \<le> n \<and> n \<le> 255 then Some (Grayscale (n - 232))
          else None)"

fun brighter :: "ansi_color \<Rightarrow> ansi_color" where
  "brighter (Named c Dimmer) = Named c Brighter"
| "brighter c = c"

fun dimmer :: "ansi_color \<Rightarrow> ansi_color" where
  "dimmer (Named c Brighter) = Named c Dimmer"
| "dimmer c = c"

definition sgr_table :: "(nat \<times> sgr) list" where
  "sgr_table =
     [(0, Reset), (1, Bold), (2, Faint), (3, Italic True), (4, Underline True), (5, Blinking True),
      (7, Inverse True), (8, Hidden True), (9, Strikethrough True), (22, ResetBoldFaint),
      (23, Italic False), (24, Underline False), (25, Blinking False), (27, Inverse False),
      (28, Hidden False), (29, Strikethrough False),
      (30, Fg (Named Black Dimmer)), (31, Fg (Named Red Dimmer)), (32, Fg (Named Green Dimmer)),
      (33, Fg (Named Yellow Dimmer)), (34, Fg (Named Blue Dimmer)), (35, Fg (Named Magenta Dimmer)),
      (36, Fg (Named Cyan Dimmer)), (37, Fg (Named White Dimmer)), (39, Fg DefaultColor),
      (40, Bg (Named Black ForceDimmer)), (41, Bg (Named Red ForceDimmer)), (42, Bg (Named Green ForceDimmer)),
      (43, Bg (Named Yellow ForceDimmer)), (44, Bg (Named Blue ForceDimmer)), (45, Bg (Named Magenta ForceDimmer)),
      (46, Bg (Named Cyan ForceDimmer)), (47, Bg (Named White ForceDimmer)), (49, Bg DefaultColor),
      (90, Fg (Named Black ForceBrighter)), (91, Fg (Named Red ForceBrighter)), (92, Fg (Named Green ForceBrighter)),
      (93, Fg (Named Yellow ForceBrighter)), (94, Fg (Named Blue ForceBrighter)), (95, Fg (Named Magenta ForceBrighter)),
      (96, Fg (Named Cyan ForceBrighter)), (97, Fg (Named White ForceBrighter)),
      (100, Bg (Named Black ForceBrighter)), (101, Bg (Named Red ForceBrighter)), (102, Bg (Named Green ForceBrighter)),
      (103, Bg (Named Yellow ForceBrighter)), (104, Bg (Named Blue ForceBrighter)), (105, Bg (Named Magenta ForceBrighter)),
      (106, Bg (Named Cyan ForceBrighter)), (107, Bg (Named White ForceBrighter))]"

definition sgr_from_param :: "nat \<Rightarrow> sgr option" where
  "sgr_from_param n = map_of sgr_table n"

section \<open>Color schemes\<close>

type_synonym rgb8 = "u8 \<times> u8 \<times> u8"

text \<open>The methods a \<open>ColorScheme\<close> has to provide; the bright variant is chosen by the flag.\<close>

record color_scheme =
  foreground :: rgb8
  background :: rgb8
  dim_color :: "named_color \<Rightarrow> rgb8"
  bright_color :: "named_color \<Rightarrow> rgb8"

text \<open>\<open>51 * r\<close> and \<open>n * 11\<close> are \<open>u8\<close> products, which panic where they overflow.\<close>

definition mul_u8 :: "nat \<Rightarrow> nat \<Rightarrow> (unit, u8) outcome" where
  "mul_u8 a b = (if a * b < 256 then Ok (word_of_nat (a * b)) else Panic)"

fun scheme_get :: "color_scheme \<Rightarrow> ansi_color \<Rightarrow> (unit, rgb8 option) outcome" where
  "scheme_get s DefaultColor = Ok None"
| "scheme_get s (Named c v) = Ok (Some (if is_dimmer v then dim_color s c else bright_color s c))"
| "scheme_get s (Rgb n) =
     (let b = n mod 6; g = (n - b) div 6 mod 6; r = ((n - b) div 6 - g) div 6 in
      try_then (mul_u8 51 r) (\<lambda>r. try_then (mul_u8 51 g) (\<lambda>g. try_then (mul_u8 51 b) (\<lambda>b. Ok (Some (r, g, b))))))"
| "scheme_get s (Grayscale n) =
     (if n = 23 then Ok (Some (255, 255, 255))
      else try_then (mul_u8 n 11) (\<lambda>v. Ok (Some (v, v, v))))"

definition get_fg :: "color_scheme \<Rightarrow> ansi_color \<Rightarrow> (unit, rgb8) outcome" where
  "get_fg s c = try_then (scheme_get s c) (\<lambda>v. Ok (case v of Some rgb \<Rightarrow> rgb | None \<Rightarrow> foreground s))"

definition get_bg :: "color_scheme \<Rightarrow> ansi_color \<Rightarrow> (unit, rgb8) outcome" where
  "get_bg s c = try_then (scheme_get s c) (\<lambda>v. Ok (case v of Some rgb \<Rightarrow> rgb | None \<Rightarrow> background s))"

fun one_monokai_dim :: "named_color \<Rightarrow> rgb8" where
  "one_monokai_dim Black = (0x2d, 0x31, 0x39)"
| "one_monokai_dim Red = (0xe0, 0x6c, 0x75)"
| "one_monokai_dim Green = (0x98, 0xc3, 0x79)"
| "one_monokai_dim Yellow = (0xe5, 0xc0, 0x7b)"
| "one_monokai_dim Blue = (0x52, 0x8b, 0xff)"
| "one_monokai_dim Magenta = (0xc6, 0x78, 0xdd)"
| "one_monokai_dim Cyan = (0x56, 0xb2, 0xc2)"
| "one_monokai_dim White = (0xd7, 0xda, 0xe0)"

fun one_monokai_bright :: "named_color \<Rightarrow> rgb8" where
  "one_monokai_bright Black = (0x7f, 0x84, 0x8e)"
| "one_monokai_bright Red = (0xf4, 0x47, 0x47)"
| "one_monokai_bright Green = (0x98, 0xc3, 0x79)"
| "one_monokai_bright Yellow = (0xe5, 0xc0, 0x7b)"
| "one_monokai_bright Blue = (0x52, 0x8b, 0xff)"
| "one_monokai_bright Magenta = (0x7e, 0x00, 0x97)"
| "one_monokai_bright Cyan = (0x56, 0xb6, 0xc2)"
| "one_monokai_bright White = (0xd7, 0xda, 0xe0)"

definition one_monokai :: color_scheme where
  "one_monokai =
     \<lparr>foreground = (0xab, 0xb2, 0xbf), background = (0x28, 0x2c, 0x34),
      dim_color = one_monokai_dim, bright_color = one_monokai_bright\<rparr>"

section \<open>Escape sequences\<close>

datatype escape_sequence =
    CursorUp nat | CursorDown nat | CursorForward nat | CursorBack nat | CursorNextLine nat
  | CursorPreviousLine nat | CursorHorizontalAbsolute nat | CursorPosition nat nat
  | EraseInDisplay nat | EraseInLine nat | HorizontalVerticalPosition nat nat
  | Sgr1 sgr | Sgr2 sgr sgr | Sgr3 sgr sgr sgr
  | EsHome | EsInsert | EsDelete | EsEnd | EsPgUp | EsPgDn

definition unwrap_or :: "'a option \<Rightarrow> 'a \<Rightarrow> 'a" where
  "unwrap_or v d = (case v of Some x \<Rightarrow> x | None \<Rightarrow> d)"

fun from_sgr_params :: "nat \<Rightarrow> nat option \<Rightarrow> nat option \<Rightarrow> escape_sequence option" where
  "from_sgr_params n (Some m) (Some l) =
     (if n = 38 \<and> m = 5 then map_option (\<lambda>c. Sgr1 (Fg c)) (from_256 l)
      else if n = 48 \<and> m = 5 then map_option (\<lambda>c. Sgr1 (Bg c)) (from_256 l)
      else case (sgr_from_param n, sgr_from_param m, sgr_from_param l) of
             (Some a, Some b, Some c) \<Rightarrow> Some (Sgr3 a b c)
           | _ \<Rightarrow> None)"
| "from_sgr_params n None None = map_option Sgr1 (sgr_from_param n)"
| "from_sgr_params n (Some m) None =
     (case (sgr_from_param n, sgr_from_param m) of
        (Some a, Some b) \<Rightarrow> Some (Sgr2 a b)
      | _ \<Rightarrow> None)"
| "from_sgr_params n None (Some l) = None"

definition tilde_table :: "(nat \<times> escape_sequence) list" where
  "tilde_table =
     [(1, EsHome), (2, EsInsert), (3, EsDelete), (4, EsEnd), (5, EsPgUp), (6, EsPgDn), (7, EsHome), (8, EsEnd)]"

definition from_csi :: "nat option \<Rightarrow> nat option \<Rightarrow> nat option \<Rightarrow> rchar \<Rightarrow> escape_sequence option" where
  "from_csi n m l c =
     (if c = ascii CHR ''A'' then Some (CursorUp (unwrap_or n 1))
      else if c = ascii CHR ''B'' then Some (CursorDown (unwrap_or n 1))
      else if c = ascii CHR ''C'' then Some (CursorForward (unwrap_or n 1))
      else if c = ascii CHR ''D'' then Some (CursorBack (unwrap_or n 1))
      else if c = ascii CHR ''E'' then Some (CursorNextLine (unwrap_or n 1))
      else if c = ascii CHR ''F'' then Some (CursorPreviousLine (unwrap_or n 1))
      else if c = ascii CHR ''G'' then Some (CursorHorizontalAbsolute (unwrap_or n 1))
      else if c = ascii CHR ''H'' then Some (CursorPosition (unwrap_or n 1) (unwrap_or m 1))
      else if c = ascii CHR ''J'' then Some (EraseInDisplay (unwrap_or n 0))
      else if c = ascii CHR ''K'' then Some (EraseInLine (unwrap_or n 0))
      else if c = ascii CHR ''f'' then Some (HorizontalVerticalPosition (unwrap_or n 1) (unwrap_or m 1))
      else if c = ascii CHR ''m'' then from_sgr_params (unwrap_or n 0) m l
      else if c = ascii CHR ''~'' then Option.bind n (map_of tilde_table)
      else None)"

text \<open>\<open>Input\<close> (\<open>console.rs\<close>), and what of a decoded sequence is one.\<close>

datatype input =
    InChar rchar | InCtrl rchar | InInsert | InHome | InEnd | InPageUp | InPageDown
  | InArrowUp | InArrowDown | InArrowLeft | InArrowRight

fun escape_to_input :: "escape_sequence \<Rightarrow> input option" where
  "escape_to_input (CursorUp n) = (if n = 1 then Some InArrowUp else None)"
| "escape_to_input (CursorDown n) = (if n = 1 then Some InArrowDown else None)"
| "escape_to_input (CursorForward n) = (if n = 1 then Some InArrowRight else None)"
| "escape_to_input (CursorBack n) = (if n = 1 then Some InArrowLeft else None)"
| "escape_to_input (CursorPreviousLine n) = (if n = 1 then Some InEnd else None)"
| "escape_to_input (CursorPosition n m) = (if n = 1 \<and> m = 1 then Some InHome else None)"
| "escape_to_input EsHome = Some InHome"
| "escape_to_input EsInsert = Some InInsert"
| "escape_to_input EsDelete = Some (InChar 0x7f)"
| "escape_to_input EsEnd = Some InEnd"
| "escape_to_input EsPgUp = Some InPageUp"
| "escape_to_input EsPgDn = Some InPageDown"
| "escape_to_input _ = None"

section \<open>The decoder\<close>

datatype decoder_state =
    DInit | DEsc | Csi "nat option" | Csi2 "nat option" "nat option" | Csi3 "nat option" "nat option" "nat option"

datatype decode_result = Just rchar | EscSeq escape_sequence

fun result_to_input :: "decode_result \<Rightarrow> input option" where
  "result_to_input (Just c) = Some (InChar c)"
| "result_to_input (EscSeq s) = escape_to_input s"

definition is_digit_char :: "rchar \<Rightarrow> bool" where
  "is_digit_char c \<longleftrightarrow> 48 \<le> c \<and> c \<le> 57"

text \<open>\<open>n * 10 + digit\<close> on \<open>u32\<close>.\<close>

definition csi_param :: "nat option \<Rightarrow> rchar \<Rightarrow> (unit, nat option) outcome" where
  "csi_param n c =
     (case n of
        Some k \<Rightarrow> if k * 10 + (c - 48) < 2 ^ 32 then Ok (Some (k * 10 + (c - 48))) else Panic
      | None \<Rightarrow> Ok (Some (c - 48)))"

text \<open>
  \<open>add_char\<close>, which yields a result at the end of a character or of a sequence. A sequence that
  cannot go on is given up, and its last character taken again in the initial state.
\<close>

function (sequential) add_char ::
    "rchar \<Rightarrow> decoder_state \<Rightarrow> (unit, decode_result option \<times> decoder_state) outcome" where
  "add_char c DInit =
     (if c = 0x1b then Ok (None, DEsc)
      else if c \<in> {0x08, 0x09, 0x0a, 0x7f} \<or> (32 \<le> c \<and> c \<le> 126) then Ok (Some (Just c), DInit)
      else Ok (None, DInit))"
| "add_char c DEsc = (if c = ascii CHR ''['' then Ok (None, Csi None) else add_char c DInit)"
| "add_char c (Csi n) =
     (if is_digit_char c then try_then (csi_param n c) (\<lambda>n. Ok (None, Csi n))
      else if c = ascii CHR '';'' then Ok (None, Csi2 n None)
      else case from_csi n None None c of
             Some es \<Rightarrow> Ok (Some (EscSeq es), DInit)
           | None \<Rightarrow> add_char c DInit)"
| "add_char c (Csi2 n m) =
     (if is_digit_char c then try_then (csi_param m c) (\<lambda>m. Ok (None, Csi2 n m))
      else if c = ascii CHR '';'' then Ok (None, Csi3 n m None)
      else case from_csi n m None c of
             Some es \<Rightarrow> Ok (Some (EscSeq es), DInit)
           | None \<Rightarrow> add_char c DInit)"
| "add_char c (Csi3 n m l) =
     (if is_digit_char c then try_then (csi_param l c) (\<lambda>l. Ok (None, Csi3 n m l))
      else if c = ascii CHR '';'' then Ok (None, Csi3 n m None)
      else case from_csi n m l c of
             Some es \<Rightarrow> Ok (Some (EscSeq es), DInit)
           | None \<Rightarrow> add_char c DInit)"
  by pat_completeness auto
termination
  by (relation "measure (\<lambda>(c, st). if st = DInit then 0 else 1)") auto

text \<open>The decoder on the characters of a string: the results, and the state it is left in.\<close>

fun decode :: "rstring \<Rightarrow> decoder_state \<Rightarrow> (unit, decode_result list \<times> decoder_state) outcome" where
  "decode [] st = Ok ([], st)"
| "decode (c # cs) st =
     try_then (add_char c st) (\<lambda>(r, st).
     try_then (decode cs st) (\<lambda>(rs, st). Ok (case r of None \<Rightarrow> rs | Some x \<Rightarrow> x # rs, st)))"

section \<open>Decoding what a program writes\<close>

text \<open>A number in decimal, and the control sequences with their parameters, an omitted one empty.\<close>

fun digits :: "nat \<Rightarrow> rstring" where
  "digits n = (if n < 10 then [48 + n] else digits (n div 10) @ [48 + n mod 10])"

declare digits.simps [simp del]

fun param_text :: "nat option \<Rightarrow> rstring" where
  "param_text None = []"
| "param_text (Some n) = digits n"

fun params_text :: "nat option list \<Rightarrow> rstring" where
  "params_text [] = []"
| "params_text [p] = param_text p"
| "params_text (p # ps) = param_text p @ [ascii CHR '';''] @ params_text ps"

definition csi_text :: "nat option list \<Rightarrow> rchar \<Rightarrow> rstring" where
  "csi_text ps c = [0x1b, ascii CHR ''[''] @ params_text ps @ [c]"

definition param_ok :: "nat option \<Rightarrow> bool" where
  "param_ok p \<longleftrightarrow> (case p of None \<Rightarrow> True | Some n \<Rightarrow> n < 2 ^ 32)"

lemma param_ok_simps [simp]: "param_ok None" "param_ok (Some n) \<longleftrightarrow> n < 2 ^ 32"
  by (simp_all add: param_ok_def)

text \<open>The three states that collect a parameter.\<close>

definition collects :: "(nat option \<Rightarrow> decoder_state) \<Rightarrow> bool" where
  "collects f \<longleftrightarrow> (\<forall>c k. is_digit_char c \<longrightarrow> add_char c (f k) = try_then (csi_param k c) (\<lambda>k. Ok (None, f k)))"

lemma collects_csi: "collects Csi" "collects (Csi2 n)" "collects (Csi3 n m)"
  by (simp_all add: collects_def)

lemma decode_digits:
  assumes "collects f" and "n < 2 ^ 32"
  shows "decode (digits n @ rest) (f None) = decode rest (f (Some n))"
  using assms(2)
proof (induction n arbitrary: rest rule: digits.induct)
  case (1 n)
  have digit: "is_digit_char (48 + n mod 10)" by (simp add: is_digit_char_def)
  show ?case
  proof (cases "n < 10")
    case True
    then have "is_digit_char (48 + n)" by (simp add: is_digit_char_def)
    then have "add_char (48 + n) (f None) = Ok (None, f (Some n))"
      using assms(1) by (simp add: collects_def csi_param_def)
    then show ?thesis using True by (simp add: digits.simps [of n] split: outcome.splits prod.splits)
  next
    case False
    have "n div 10 * 10 + n mod 10 = n" by simp
    then have "add_char (48 + n mod 10) (f (Some (n div 10))) = Ok (None, f (Some n))"
      using assms(1) digit 1(2) unfolding collects_def by (simp add: csi_param_def)
    moreover have "decode (digits (n div 10) @ [48 + n mod 10] @ rest) (f None)
        = decode ([48 + n mod 10] @ rest) (f (Some (n div 10)))"
      using 1(2) by (intro 1(1) [OF False]) simp
    ultimately show ?thesis using False by (simp add: digits.simps [of n] split: outcome.splits prod.splits)
  qed
qed

lemma decode_digits_overflow:
  assumes "collects f" and "2 ^ 32 \<le> n"
  shows "decode (digits n @ rest) (f None) = Panic"
  using assms(2)
proof (induction n arbitrary: rest rule: digits.induct)
  case (1 n)
  then have n: "\<not> n < 10" by simp
  have digit: "is_digit_char (48 + n mod 10)" by (simp add: is_digit_char_def)
  show ?case
  proof (cases "2 ^ 32 \<le> n div 10")
    case True
    from 1(1) [OF n this, of "[48 + n mod 10] @ rest"] n show ?thesis by (simp add: digits.simps [of n])
  next
    case False
    have "n div 10 * 10 + n mod 10 = n" by simp
    then have "add_char (48 + n mod 10) (f (Some (n div 10))) = Panic"
      using assms(1) digit 1(2) unfolding collects_def by (simp add: csi_param_def)
    then show ?thesis using n False decode_digits [OF assms(1), of "n div 10" "[48 + n mod 10] @ rest"]
      by (simp add: digits.simps [of n])
  qed
qed

lemma decode_param:
  assumes "collects f" and "param_ok p"
  shows "decode (param_text p @ rest) (f None) = decode rest (f p)"
  using assms by (cases p) (simp_all add: decode_digits)

lemma from_csi_final:
  assumes "from_csi n m l c = Some es"
  shows "\<not> is_digit_char c" and "c \<noteq> ascii CHR '';''"
  using assms by (auto simp: from_csi_def is_digit_char_def split: if_splits)

lemma decode_None: "add_char c st = Ok (None, st') \<Longrightarrow> decode (c # cs) st = decode cs st'"
  by simp

lemma decode_semi:
  "decode (59 # s) (Csi n) = decode s (Csi2 n None)"
  "decode (59 # s) (Csi2 n m) = decode s (Csi3 n m None)"
  by (simp_all add: is_digit_char_def)

lemma decode_final:
  assumes "from_csi n m l c = Some es"
  shows "decode (c # s) (Csi3 n m l) = try_then (decode s DInit) (\<lambda>(rs, st). Ok (EscSeq es # rs, st))"
    and "l = None \<Longrightarrow> decode (c # s) (Csi2 n m) = try_then (decode s DInit) (\<lambda>(rs, st). Ok (EscSeq es # rs, st))"
    and "m = None \<Longrightarrow> l = None \<Longrightarrow>
      decode (c # s) (Csi n) = try_then (decode s DInit) (\<lambda>(rs, st). Ok (EscSeq es # rs, st))"
  using from_csi_final [OF assms] assms by simp_all

lemmas decode_csi = decode_semi decode_param [OF collects_csi(1)] decode_param [OF collects_csi(2)]
  decode_param [OF collects_csi(3)]

lemma decode_csi_text:
  "decode (csi_text ps c @ rest) DInit = decode (params_text ps @ c # rest) (Csi None)"
  by (simp add: csi_text_def)

definition nth_param :: "nat option list \<Rightarrow> nat \<Rightarrow> nat option" where
  "nth_param ps i = (if i < length ps then ps ! i else None)"

text \<open>
  C28: the decoder understands every control sequence a program writes: for one to three parameters, each
  left out or a \<open>u32\<close> in decimal, and a final character that makes a sequence of them, the text
  \<open>ESC [ n ; m ; l c\<close> is decoded to exactly that sequence, the decoder is back in its initial state, and
  what follows is decoded as if nothing had come before.
\<close>

theorem csi_decoded:
  assumes "ps \<noteq> []" and "length ps \<le> 3" and "list_all param_ok ps"
    and "from_csi (nth_param ps 0) (nth_param ps 1) (nth_param ps 2) c = Some es"
  shows "decode (csi_text ps c @ rest) DInit
    = try_then (decode rest DInit) (\<lambda>(rs, st). Ok (EscSeq es # rs, st))"
proof -
  obtain p qs where ps: "ps = p # qs" using assms(1) by (cases ps) auto
  consider "qs = []" | q where "qs = [q]" | q r where "qs = [q, r]"
    using assms(2) ps by (cases qs rule: remdups_adj.cases) auto
  then show ?thesis
  proof cases
    case 1
    with assms(3,4) ps show ?thesis
      unfolding decode_csi_text by (simp add: decode_csi decode_final nth_param_def del: decode.simps)
  next
    case (2 q)
    with assms(3,4) ps show ?thesis
      unfolding decode_csi_text by (simp add: decode_csi decode_final nth_param_def del: decode.simps)
  next
    case (3 q r)
    with assms(3,4) ps show ?thesis
      unfolding decode_csi_text by (simp add: decode_csi decode_final nth_param_def del: decode.simps)
  qed
qed

theorem csi_decoded_witness:
  "decode (csi_text [Some 38, Some 5, Some 200] (ascii CHR ''m'') @ str_of ''x'') DInit
    = Ok ([EscSeq (Sgr1 (Fg (Rgb 184))), Just (ascii CHR ''x'')], DInit)"
proof -
  have "from_256 200 = Some (Rgb 184)" by (simp add: from_256_def named_table_def)
  then have "from_csi (nth_param [Some 38, Some 5, Some 200] 0) (nth_param [Some 38, Some 5, Some 200] 1)
      (nth_param [Some 38, Some 5, Some 200] 2) (ascii CHR ''m'') = Some (Sgr1 (Fg (Rgb 184)))"
    by (simp add: from_csi_def nth_param_def unwrap_or_def)
  from csi_decoded [OF _ _ _ this, of "str_of ''x''"] show ?thesis by (simp add: str_of_def)
qed

text \<open>
  C37: a control sequence with a parameter that does not fit \<open>u32\<close> stops the kernel: whoever prints a
  number of ten or more digits above \<open>2 ^ 32\<close> behind \<open>ESC [\<close>, on the console or on the serial line, makes
  the multiplication in \<open>param\<close> overflow.
\<close>

theorem csi_parameter_overflow:
  assumes "2 ^ 32 \<le> n"
  shows "decode (csi_text (Some n # ps) c @ rest) DInit = Panic"
proof -
  have "\<exists>s. params_text (Some n # ps) @ c # rest = digits n @ s" by (cases ps) auto
  then obtain s where s: "params_text (Some n # ps) @ c # rest = digits n @ s" by blast
  show ?thesis unfolding decode_csi_text s by (rule decode_digits_overflow [OF collects_csi(1) assms])
qed

theorem csi_parameter_overflow_witness:
  "decode (csi_text [Some 4294967296] (ascii CHR ''A'') @ []) DInit = Panic"
  by (rule csi_parameter_overflow) simp

section \<open>The colors of the 256-color palette\<close>

lemma mul_51: "k < 6 \<Longrightarrow> mul_u8 51 k = Ok (word_of_nat (51 * k))"
  by (simp add: mul_u8_def)

lemma scheme_get_rgb:
  assumes "r < 6" and "g < 6" and "b < 6"
  shows "scheme_get s (Rgb (36 * r + 6 * g + b)) = Ok (Some (word_of_nat (51 * r), word_of_nat (51 * g), word_of_nat (51 * b)))"
proof -
  have "36 * r + 6 * g + b = b + 6 * (6 * r + g)" by simp
  then have "(36 * r + 6 * g + b) mod 6 = b" using assms by (simp only: mod_mult_self2 mod_less)
  moreover have "(36 * r + 6 * g + b - b) div 6 = 6 * r + g" by simp
  ultimately show ?thesis using assms by (simp add: Let_def mul_51)
qed

text \<open>The colors of the palette.\<close>

fun color_ok :: "ansi_color \<Rightarrow> bool" where
  "color_ok (Rgb k) \<longleftrightarrow> k < 216"
| "color_ok (Grayscale k) \<longleftrightarrow> k < 24"
| "color_ok _ \<longleftrightarrow> True"

lemma scheme_get_ok:
  assumes "color_ok c"
  shows "\<exists>v. scheme_get s c = Ok v"
proof (cases c)
  case (Rgb k)
  define r g b where "r = k div 36" and "g = k div 6 mod 6" and "b = k mod 6"
  have "k = 6 * (k div 6) + b" "k div 6 = 6 * r + g"
    by (simp_all add: r_def g_def b_def div_mult2_eq [of k 6 6, simplified])
  then have "k = 36 * r + 6 * g + b" by simp
  moreover have "r < 6" "g < 6" "b < 6" using assms Rgb by (simp_all add: r_def g_def b_def)
  ultimately show ?thesis using scheme_get_rgb Rgb by auto
next
  case (Grayscale k)
  with assms have "k = 23 \<or> k * 11 < 256" by auto
  with Grayscale show ?thesis by (auto simp: mul_u8_def)
qed simp_all

lemma from_256_color_ok: "from_256 n = Some c \<Longrightarrow> color_ok c"
proof -
  have "\<exists>a v. c = Named a v" if "map_of named_table n = Some c" for c
    using map_of_SomeD [OF that] by (auto simp: named_table_def)
  then show "from_256 n = Some c \<Longrightarrow> color_ok c"
    by (fastforce simp: from_256_def split: option.splits if_splits)
qed

text \<open>
  The 256-color palette is total on the numbers up to 255 and on them only, and turning such a
  color into red, green and blue never overflows \<open>u8\<close>: the color cube is read in base 6, each digit
  in steps of 51, and the gray ramp goes up in steps of 11 to white.
\<close>

theorem palette_colors:
  "(from_256 n = None \<longleftrightarrow> 255 < n)
   \<and> (\<forall>c. from_256 n = Some c \<longrightarrow> (\<exists>fg bg. get_fg s c = Ok fg \<and> get_bg s c = Ok bg))
   \<and> (\<forall>r < 6. \<forall>g < 6. \<forall>b < 6. Option.bind (from_256 (16 + 36 * r + 6 * g + b)) (\<lambda>c. Some (get_fg s c))
        = Some (Ok (word_of_nat (51 * r), word_of_nat (51 * g), word_of_nat (51 * b))))"
proof (intro conjI)
  have low: "map_of named_table n = None \<longleftrightarrow> 15 < n" for n
  proof -
    have "map fst named_table = [0..<16]" by code_simp
    then have "fst ` set named_table = {0..<16}" by (metis atLeastLessThan_upt list.set_map)
    then show ?thesis by (auto simp: map_of_eq_None_iff)
  qed
  show "from_256 n = None \<longleftrightarrow> 255 < n"
    using low [of n] by (auto simp: from_256_def split: option.splits)
  show "\<forall>r < 6. \<forall>g < 6. \<forall>b < 6. Option.bind (from_256 (16 + 36 * r + 6 * g + b)) (\<lambda>c. Some (get_fg s c))
        = Some (Ok (word_of_nat (51 * r), word_of_nat (51 * g), word_of_nat (51 * b)))"
  proof (intro allI impI)
    fix r g b :: nat assume d: "r < 6" "g < 6" "b < 6"
    then have "from_256 (16 + 36 * r + 6 * g + b) = Some (Rgb (36 * r + 6 * g + b))"
      using low [of "16 + 36 * r + 6 * g + b"] by (simp add: from_256_def)
    with scheme_get_rgb [OF d] show "Option.bind (from_256 (16 + 36 * r + 6 * g + b)) (\<lambda>c. Some (get_fg s c))
        = Some (Ok (word_of_nat (51 * r), word_of_nat (51 * g), word_of_nat (51 * b)))"
      by (simp add: get_fg_def del: scheme_get.simps)
  qed
  show "\<forall>c. from_256 n = Some c \<longrightarrow> (\<exists>fg bg. get_fg s c = Ok fg \<and> get_bg s c = Ok bg)"
  proof (intro allI impI)
    fix c assume c: "from_256 n = Some c"
    have "color_ok c" by (rule from_256_color_ok [OF c])
    from scheme_get_ok [OF this] obtain v where "scheme_get s c = Ok v" by blast
    then show "\<exists>fg bg. get_fg s c = Ok fg \<and> get_bg s c = Ok bg"
      by (simp only: get_fg_def get_bg_def try_then.simps outcome.inject) blast
  qed
qed

theorem palette_colors_witness:
  "from_256 300 = None \<and> Option.bind (from_256 (16 + 36 * 5 + 6 * 0 + 1)) (\<lambda>c. Some (get_fg one_monokai c)) = Some (Ok (255, 0, 51))"
proof -
  have "Option.bind (from_256 (16 + 36 * 5 + 6 * 0 + 1)) (\<lambda>c. Some (get_fg one_monokai c))
      = Some (Ok (word_of_nat (51 * 5), word_of_nat (51 * 0), word_of_nat (51 * 1)))"
    by (rule palette_colors [of 0 one_monokai, THEN conjunct2, THEN conjunct2, rule_format]) simp_all
  moreover have "from_256 300 = None" using palette_colors [of 300 one_monokai] by simp
  ultimately show ?thesis by simp
qed

end
