(* ===== verification/Console.thy ===== *)
theory Console
  imports Text_Buffer Ansi
begin

text \<open>
  The console: the screen that carries out escape sequences (\<open>console/screen.rs\<close>), the keyboard decoder
  (\<open>console/kbd.rs\<close>) and the two tasks of \<open>console.rs\<close>, one that shows what is printed and one that turns
  raw input into the input of the shell. The \<open>pc_keyboard\<close> crate is a parameter.
\<close>

section \<open>The screen\<close>

record screen =
  scr_buf :: text_buffer
  scr_theme :: color_scheme
  scr_fg :: ansi_color
  scr_bg :: ansi_color
  scr_style :: font_style

definition FONT_SIZE :: nat where
  "FONT_SIZE = 14"

definition new_screen :: "frame_buffer \<Rightarrow> color_scheme \<Rightarrow> (unit, screen) outcome" where
  "new_screen buf theme =
     try_then (new_text_buffer buf (new_font FONT_SIZE (fb_format buf))) (\<lambda>tb.
       Ok \<lparr>scr_buf = tb, scr_theme = theme, scr_fg = DefaultColor, scr_bg = DefaultColor, scr_style = NormalStyle\<rparr>)"

definition with_buf :: "(text_buffer \<Rightarrow> (unit, text_buffer) outcome) \<Rightarrow> screen \<Rightarrow> (unit, screen) outcome" where
  "with_buf f s = try_then (f (scr_buf s)) (\<lambda>tb. Ok (s\<lparr>scr_buf := tb\<rparr>))"

definition screen_render :: "'c font_face \<Rightarrow> screen \<Rightarrow> (unit, screen) outcome" where
  "screen_render F s = with_buf (render_text F) s"

definition screen_put_char :: "rchar \<Rightarrow> screen \<Rightarrow> (unit, screen) outcome" where
  "screen_put_char ch s =
     try_then (get_fg (scr_theme s) (scr_fg s)) (\<lambda>fg.
     try_then (get_bg (scr_theme s) (scr_bg s)) (\<lambda>bg.
       with_buf (put_text 2 ch (color_from fg) (color_from bg) (scr_style s)) s))"

definition screen_erase :: "bool \<Rightarrow> bool \<Rightarrow> bool \<Rightarrow> bool \<Rightarrow> screen \<Rightarrow> (unit, screen) outcome" where
  "screen_erase before_lines before_chars after_chars after_lines s =
     try_then (get_bg (scr_theme s) (scr_bg s)) (\<lambda>bg.
       with_buf (erase_text (color_from bg) before_lines before_chars after_chars after_lines) s)"

fun handle_sgr :: "sgr \<Rightarrow> screen \<Rightarrow> screen" where
  "handle_sgr Reset s = s\<lparr>scr_fg := DefaultColor, scr_bg := DefaultColor, scr_style := NormalStyle\<rparr>"
| "handle_sgr Bold s = s\<lparr>scr_style := BoldStyle, scr_fg := brighter (scr_fg s)\<rparr>"
| "handle_sgr Faint s = s\<lparr>scr_style := NormalStyle, scr_fg := dimmer (scr_fg s)\<rparr>"
| "handle_sgr ResetBoldFaint s = s\<lparr>scr_style := NormalStyle, scr_fg := dimmer (scr_fg s)\<rparr>"
| "handle_sgr (Fg c) s = s\<lparr>scr_fg := if is_bold (scr_style s) then brighter c else dimmer c\<rparr>"
| "handle_sgr (Bg c) s = s\<lparr>scr_bg := c\<rparr>"
| "handle_sgr _ s = s"

text \<open>\<open>-(n as i32)\<close> and \<open>n - 1\<close> on \<open>u32\<close>, which panic where they overflow.\<close>

definition I32_MIN :: int where
  "I32_MIN = - (2 ^ 31)"

definition neg_i32 :: "int \<Rightarrow> (unit, int) outcome" where
  "neg_i32 z = (if z = I32_MIN then Panic else Ok (- z))"

definition pred_u32 :: "nat \<Rightarrow> (unit, nat) outcome" where
  "pred_u32 n = (if n = 0 then Panic else Ok (n - 1))"

fun handle_escape_sequence :: "escape_sequence \<Rightarrow> screen \<Rightarrow> (unit, screen) outcome" where
  "handle_escape_sequence (CursorUp n) s = try_then (neg_i32 (as_i32 n)) (\<lambda>d. with_buf (move_cursor 0 d) s)"
| "handle_escape_sequence (CursorDown n) s = with_buf (move_cursor 0 (as_i32 n)) s"
| "handle_escape_sequence (CursorForward n) s = with_buf (move_cursor (as_i32 n) 0) s"
| "handle_escape_sequence (CursorBack n) s = try_then (neg_i32 (as_i32 n)) (\<lambda>d. with_buf (move_cursor d 0) s)"
| "handle_escape_sequence (CursorNextLine n) s = with_buf (move_cursor I32_MIN (as_i32 n)) s"
| "handle_escape_sequence (CursorPreviousLine n) s =
     try_then (neg_i32 (as_i32 n)) (\<lambda>d. with_buf (move_cursor I32_MIN d) s)"
| "handle_escape_sequence (CursorHorizontalAbsolute n) s =
     try_then (pred_u32 n) (\<lambda>x. with_buf (set_cursor (Some x) None) s)"
| "handle_escape_sequence (CursorPosition n m) s =
     try_then (pred_u32 m) (\<lambda>x. try_then (pred_u32 n) (\<lambda>y. with_buf (set_cursor (Some x) (Some y)) s))"
| "handle_escape_sequence (EraseInDisplay n) s =
     (if n = 0 then screen_erase False False True True s
      else if n = 1 then screen_erase True True False False s
      else if n = 2 then screen_erase True True True True s else Ok s)"
| "handle_escape_sequence (EraseInLine n) s =
     (if n = 0 then screen_erase False False True False s
      else if n = 1 then screen_erase False True False False s
      else if n = 2 then screen_erase False True True False s else Ok s)"
| "handle_escape_sequence (HorizontalVerticalPosition n m) s =
     try_then (pred_u32 m) (\<lambda>x. try_then (pred_u32 n) (\<lambda>y. with_buf (set_cursor (Some x) (Some y)) s))"
| "handle_escape_sequence (Sgr1 a) s = Ok (handle_sgr a s)"
| "handle_escape_sequence (Sgr2 a b) s = Ok (handle_sgr b (handle_sgr a s))"
| "handle_escape_sequence (Sgr3 a b c) s = Ok (handle_sgr c (handle_sgr b (handle_sgr a s)))"
| "handle_escape_sequence _ s = Ok s"

section \<open>Printing to the console\<close>

text \<open>
  \<open>ConsoleWrite::write_str\<close> cuts a string into chunks that fit the messages of the queue, at the boundaries of
  characters: \<open>is_char_boundary\<close> and \<open>split_at\<close> count the bytes of the UTF-8 encoding.
\<close>

definition OUT_CHUNK_SIZE :: nat where
  "OUT_CHUNK_SIZE = 64"

fun is_char_boundary :: "rstring \<Rightarrow> nat \<Rightarrow> bool" where
  "is_char_boundary s 0 \<longleftrightarrow> True"
| "is_char_boundary [] (Suc i) \<longleftrightarrow> False"
| "is_char_boundary (c # cs) (Suc i) \<longleftrightarrow> utf8_len c \<le> Suc i \<and> is_char_boundary cs (Suc i - utf8_len c)"

fun floor_boundary :: "rstring \<Rightarrow> nat \<Rightarrow> nat" where
  "floor_boundary s 0 = 0"
| "floor_boundary s (Suc i) = (if is_char_boundary s (Suc i) then Suc i else floor_boundary s i)"

fun split_at :: "rstring \<Rightarrow> nat \<Rightarrow> rstring \<times> rstring" where
  "split_at s 0 = ([], s)"
| "split_at [] (Suc i) = ([], [])"
| "split_at (c # cs) (Suc i) = (let (a, b) = split_at cs (Suc i - utf8_len c) in (c # a, b))"

lemma utf8_len_range: "0 < utf8_len c" "utf8_len c \<le> 4"
  by (simp_all add: utf8_len_def)

lemma split_at_append: "fst (split_at s i) @ snd (split_at s i) = s"
  by (induction s i rule: split_at.induct) (simp_all add: case_prod_unfold Let_def)

lemma str_len_simps [simp]: "str_len [] = 0" "str_len (c # s) = utf8_len c + str_len s"
  by (simp_all add: str_len_def)

lemma split_at_len: "is_char_boundary s i \<Longrightarrow> str_len (fst (split_at s i)) = i"
proof (induction s i rule: split_at.induct)
  case (3 c cs i)
  then have "str_len (fst (split_at cs (Suc i - utf8_len c))) = Suc i - utf8_len c" by simp
  with 3(2) show ?case by (simp add: case_prod_unfold Let_def)
qed simp_all

lemma floor_boundary_ok: "is_char_boundary s (floor_boundary s i)" "floor_boundary s i \<le> i"
  by (induction i) simp_all

lemma floor_boundary_first:
  assumes "utf8_len c \<le> i"
  shows "utf8_len c \<le> floor_boundary (c # cs) i"
  using assms
proof (induction i)
  case (Suc i)
  then show ?case by (cases "utf8_len c = Suc i") auto
qed (simp add: utf8_len_def)

function write_str :: "rstring \<Rightarrow> rstring list" where
  "write_str s =
     (if s = [] then []
      else let i = floor_boundary s (min (str_len s) OUT_CHUNK_SIZE);
               (chunk, next_s) = split_at s i
        in chunk # write_str next_s)"
  by pat_completeness auto
termination
proof (relation "measure length", simp)
  fix s i p chunk next_s
  assume s: "s \<noteq> []" and i: "i = floor_boundary s (min (str_len s) OUT_CHUNK_SIZE)"
    and p: "p = split_at s i" "(chunk, next_s) = p"
  obtain c cs where c: "s = c # cs" using s by (cases s) auto
  have "utf8_len c \<le> i"
    unfolding i c by (rule floor_boundary_first) (use utf8_len_range [of c] in \<open>simp add: OUT_CHUNK_SIZE_def\<close>)
  then have "chunk \<noteq> []" using p c utf8_len_range [of c] by (cases i) (auto simp: case_prod_unfold Let_def)
  moreover have "chunk @ next_s = s" using split_at_append [of s i] p by (metis fst_conv snd_conv)
  ultimately have "length next_s < length s" by (metis length_append length_greater_0_conv less_add_same_cancel2)
  then show "(next_s, s) \<in> measure length" by simp
qed

declare write_str.simps [simp del]

text \<open>
  One iteration of the loop of \<open>handle_output\<close>. \<open>t\<close> and \<open>t'\<close> are what its two calls of \<open>ticks\<close> return, the second one
  only where the screen is rendered, and \<open>out\<close> is what \<open>dequeue_timeout\<close> returns.
\<close>

definition TIMER_FREQ :: nat where
  "TIMER_FREQ = 250"

definition RENDER_INTERVAL :: nat where
  "RENDER_INTERVAL = TIMER_FREQ div 30"

record output_state =
  out_screen :: screen
  next_render_ticks :: nat
  out_decoder :: decoder_state

definition new_output :: "frame_buffer \<Rightarrow> (unit, output_state) outcome" where
  "new_output buf = try_then (new_screen buf one_monokai) (\<lambda>s.
     Ok \<lparr>out_screen = s, next_render_ticks = 0, out_decoder = DInit\<rparr>)"

fun output_chars :: "rstring \<Rightarrow> screen \<times> decoder_state \<Rightarrow> (unit, screen \<times> decoder_state) outcome" where
  "output_chars [] st = Ok st"
| "output_chars (ch # chs) (s, d) =
    try_then (add_char ch d) (\<lambda>(r, d').
    try_then (case r of
        Some (Just c) \<Rightarrow> screen_put_char c s
      | Some (EscSeq es) \<Rightarrow> handle_escape_sequence es s
      | None \<Rightarrow> Ok s) (\<lambda>s'. output_chars chs (s', d')))"

definition output_step :: "'c font_face \<Rightarrow> nat \<Rightarrow> nat \<Rightarrow> rstring option \<Rightarrow> output_state \<Rightarrow> (unit, output_state) outcome" where
  "output_step F t t' out st =
     try_then (if next_render_ticks st \<le> t
         then try_then (screen_render F (out_screen st)) (\<lambda>s.
           Ok (st\<lparr>out_screen := s, next_render_ticks := t' + RENDER_INTERVAL\<rparr>))
         else Ok st) (\<lambda>st.
       if next_render_ticks st < t then Panic
       else case out of
           None \<Rightarrow> Ok st
         | Some s \<Rightarrow> try_then (output_chars s (out_screen st, out_decoder st)) (\<lambda>(scr, d).
             Ok (st\<lparr>out_screen := scr, out_decoder := d\<rparr>)))"

fun output_run :: "'c font_face \<Rightarrow> (nat \<times> nat \<times> rstring option) list \<Rightarrow> output_state \<Rightarrow> (unit, output_state) outcome" where
  "output_run F [] st = Ok st"
| "output_run F ((t, t', out) # its) st = try_then (output_step F t t' out st) (output_run F its)"

section \<open>Input\<close>

text \<open>
  The codes of \<open>pc_keyboard\<close> that the decoder looks at, and the crate's keyboard: \<open>add_byte\<close> yields an event at
  the end of a scancode, and \<open>process_keyevent\<close> a key.
\<close>

datatype key_code =
    ControlLeft | ControlRight | KeyInsert | KeyHome | KeyEnd | KeyPageUp | KeyPageDown
  | KeyArrowUp | KeyArrowDown | KeyArrowLeft | KeyArrowRight | OtherKey nat

datatype key_state = KeyUp | KeyDown

record key_event =
  key_code :: key_code
  key_state :: key_state

datatype decoded_key = RawKey key_code | UnicodeKey rchar

record 'k keyboard =
  add_byte :: "'k \<Rightarrow> u8 \<Rightarrow> key_event option option \<times> 'k"
  process_keyevent :: "'k \<Rightarrow> key_event \<Rightarrow> decoded_key option \<times> 'k"

record 'k kbd_decoder =
  kbd_inner :: 'k
  lctrl :: bool
  rctrl :: bool

definition new_kbd_decoder :: "'k \<Rightarrow> 'k kbd_decoder" where
  "new_kbd_decoder k = \<lparr>kbd_inner = k, lctrl = False, rctrl = False\<rparr>"

fun key_to_input :: "bool \<Rightarrow> decoded_key \<Rightarrow> input option" where
  "key_to_input ctrl (RawKey KeyInsert) = Some InInsert"
| "key_to_input ctrl (RawKey KeyHome) = Some InHome"
| "key_to_input ctrl (RawKey KeyEnd) = Some InEnd"
| "key_to_input ctrl (RawKey KeyPageUp) = Some InPageUp"
| "key_to_input ctrl (RawKey KeyPageDown) = Some InPageDown"
| "key_to_input ctrl (RawKey KeyArrowUp) = Some InArrowUp"
| "key_to_input ctrl (RawKey KeyArrowDown) = Some InArrowDown"
| "key_to_input ctrl (RawKey KeyArrowLeft) = Some InArrowLeft"
| "key_to_input ctrl (RawKey KeyArrowRight) = Some InArrowRight"
| "key_to_input ctrl (UnicodeKey c) =
     (if c \<in> {0x08, 0x09, 0x0a, 0x7f} \<or> (32 \<le> c \<and> c \<le> 126) then Some (if ctrl then InCtrl c else InChar c) else None)"
| "key_to_input ctrl _ = None"

definition kbd_add :: "'k keyboard \<Rightarrow> u8 \<Rightarrow> 'k kbd_decoder \<Rightarrow> input option \<times> 'k kbd_decoder" where
  "kbd_add K b d = (case add_byte K (kbd_inner d) b of
      (Some (Some e), k) \<Rightarrow>
        (let d1 = d\<lparr>kbd_inner := k,
               lctrl := if key_code e = ControlLeft then key_state e = KeyDown else lctrl d,
               rctrl := if key_code e = ControlRight then key_state e = KeyDown else rctrl d\<rparr>;
             (key, k') = process_keyevent K k e
         in (Option.bind key (key_to_input (lctrl d1 \<or> rctrl d1)), d1\<lparr>kbd_inner := k'\<rparr>))
    | (_, k) \<Rightarrow> (None, d\<lparr>kbd_inner := k\<rparr>))"

datatype raw_input = Kbd u8 | Com1 u8

text \<open>One iteration of \<open>handle_raw_input\<close>: the input to put into the queue, if any.\<close>

fun raw_input_step :: "'k keyboard \<Rightarrow> raw_input \<Rightarrow> 'k kbd_decoder \<times> decoder_state
    \<Rightarrow> (unit, input option \<times> 'k kbd_decoder \<times> decoder_state) outcome" where
  "raw_input_step K (Kbd b) (k, d) = (let (i, k') = kbd_add K b k in Ok (i, k', d))"
| "raw_input_step K (Com1 b) (k, d) =
    (if b = 0x7f then Ok (Some (InChar 0x08), k, d)
     else if b = 0x0d then Ok (Some (InChar 0x0a), k, d)
     else if b \<le> 0x7e then try_then (add_char (unat b) d) (\<lambda>(r, d'). Ok (Option.bind r result_to_input, k, d'))
     else Ok (None, k, d))"

fun raw_input_run :: "'k keyboard \<Rightarrow> raw_input list \<Rightarrow> 'k kbd_decoder \<times> decoder_state
    \<Rightarrow> (unit, input list \<times> 'k kbd_decoder \<times> decoder_state) outcome" where
  "raw_input_run K [] st = Ok ([], st)"
| "raw_input_run K (r # rs) st =
    try_then (raw_input_step K r st) (\<lambda>(i, st').
    try_then (raw_input_run K rs st') (\<lambda>(is, st''). Ok (case i of None \<Rightarrow> is | Some x \<Rightarrow> x # is, st'')))"

section \<open>What is printed is cut into messages\<close>


section \<open>The screen shows what is printed\<close>

fun sgr_colors :: "sgr \<Rightarrow> bool" where
  "sgr_colors (Fg c) \<longleftrightarrow> color_ok c"
| "sgr_colors (Bg c) \<longleftrightarrow> color_ok c"
| "sgr_colors _ \<longleftrightarrow> True"

fun es_colors :: "escape_sequence \<Rightarrow> bool" where
  "es_colors (Sgr1 a) \<longleftrightarrow> sgr_colors a"
| "es_colors (Sgr2 a b) \<longleftrightarrow> sgr_colors a \<and> sgr_colors b"
| "es_colors (Sgr3 a b c) \<longleftrightarrow> sgr_colors a \<and> sgr_colors b \<and> sgr_colors c"
| "es_colors _ \<longleftrightarrow> True"

text \<open>
  The cursor movements that cannot overflow on a screen whose width and height add up to \<open>w\<close>: less than
  \<open>2 ^ 31 - w\<close> places, and absolute positions counted from one.
\<close>

fun es_safe :: "nat \<Rightarrow> escape_sequence \<Rightarrow> bool" where
  "es_safe w (CursorUp n) \<longleftrightarrow> n < 2 ^ 31"
| "es_safe w (CursorDown n) \<longleftrightarrow> n + w < 2 ^ 31"
| "es_safe w (CursorForward n) \<longleftrightarrow> n + w < 2 ^ 31"
| "es_safe w (CursorBack n) \<longleftrightarrow> n < 2 ^ 31"
| "es_safe w (CursorNextLine n) \<longleftrightarrow> n + w < 2 ^ 31"
| "es_safe w (CursorPreviousLine n) \<longleftrightarrow> n < 2 ^ 31"
| "es_safe w (CursorHorizontalAbsolute n) \<longleftrightarrow> 0 < n"
| "es_safe w (CursorPosition n m) \<longleftrightarrow> 0 < n \<and> 0 < m"
| "es_safe w (HorizontalVerticalPosition n m) \<longleftrightarrow> 0 < n \<and> 0 < m"
| "es_safe w _ \<longleftrightarrow> True"

fun result_safe :: "nat \<Rightarrow> decode_result \<Rightarrow> bool" where
  "result_safe w (Just c) \<longleftrightarrow> True"
| "result_safe w (EscSeq es) \<longleftrightarrow> es_safe w es"

lemma sgr_from_param_colors: "sgr_from_param n = Some a \<Longrightarrow> sgr_colors a"
  unfolding sgr_from_param_def by (drule map_of_SomeD) (auto simp: sgr_table_def)

lemma from_sgr_params_colors: "from_sgr_params n m l = Some es \<Longrightarrow> es_colors es"
  by (induction n m l rule: from_sgr_params.induct)
    (auto split: if_splits option.splits dest: sgr_from_param_colors from_256_color_ok)

lemma tilde_colors: "map_of tilde_table n = Some es \<Longrightarrow> es_colors es"
  by (drule map_of_SomeD) (auto simp: tilde_table_def)

lemma from_csi_colors: "from_csi n m l c = Some es \<Longrightarrow> es_colors es"
  by (auto simp: from_csi_def bind_eq_Some_conv split: if_splits dest: from_sgr_params_colors tilde_colors)

lemma add_char_colors: "add_char c d = Ok (Some (EscSeq es), d') \<Longrightarrow> es_colors es"
  by (induction c d arbitrary: d' rule: add_char.induct)
    (auto split: if_splits option.splits dest: from_csi_colors)

definition screen_ok :: "'c font_face \<Rightarrow> nat \<Rightarrow> screen \<Rightarrow> bool" where
  "screen_ok F w s \<longleftrightarrow> tb_ok F (scr_buf s) \<and> fb_width (tb_buf (scr_buf s)) + fb_height (tb_buf (scr_buf s)) = w
     \<and> color_ok (scr_fg s) \<and> color_ok (scr_bg s)"

lemma color_ok_shade [simp]: "color_ok (brighter c) = color_ok c" "color_ok (dimmer c) = color_ok c"
  by (cases c rule: brighter.cases; simp)+

lemma handle_sgr_ok: "screen_ok F w s \<Longrightarrow> sgr_colors a \<Longrightarrow> screen_ok F w (handle_sgr a s)"
  by (cases a) (simp_all add: screen_ok_def)

lemma move_cursor_buf: "move_cursor dx dy tb = Ok tb' \<Longrightarrow> tb_buf tb' = tb_buf tb"
  by (auto simp: move_cursor_def split: prod.splits)

lemma set_cursor_buf: "set_cursor x y tb = Ok tb' \<Longrightarrow> tb_buf tb' = tb_buf tb"
  by (auto simp: set_cursor_def Let_def split: if_splits)

lemma next_text_line_buf: "next_text_line bg tb = Ok tb' \<Longrightarrow> tb_buf tb' = tb_buf tb"
  by (auto simp: next_text_line_def Let_def split: if_splits list.splits prod.splits)

lemma put_text_buf: "put_text n c fg bg style tb = Ok tb' \<Longrightarrow> tb_buf tb' = tb_buf tb"
  by (induction n c fg bg style tb arbitrary: tb' rule: put_text.induct)
    (auto simp: Let_def split: if_splits prod.splits line_put_result.splits dest: next_text_line_buf)

lemma with_buf_ok:
  assumes "screen_ok F w s" and "\<exists>tb. f (scr_buf s) = Ok tb \<and> tb_ok F tb"
    and "\<And>tb. f (scr_buf s) = Ok tb \<Longrightarrow> tb_buf tb = tb_buf (scr_buf s)"
  shows "\<exists>s'. with_buf f s = Ok s' \<and> screen_ok F w s'"
  using assms by (force simp: with_buf_def screen_ok_def)

lemma screen_move_ok:
  assumes "screen_ok F w s" and "i32_range dx" and "i32_range dy" and "dx + int w < 2 ^ 31" and "dy + int w < 2 ^ 31"
  shows "\<exists>s'. with_buf (move_cursor dx dy) s = Ok s' \<and> screen_ok F w s'"
proof (rule with_buf_ok [OF assms(1) _ move_cursor_buf])
  have ok: "tb_ok F (scr_buf s)" using assms(1) by (simp add: screen_ok_def)
  note t = tb_ok_simps [OF ok]
  have "columns (tb_buf (scr_buf s)) (tb_font (scr_buf s)) \<le> fb_width (tb_buf (scr_buf s))"
    "rows_of (tb_buf (scr_buf s)) (tb_font (scr_buf s)) \<le> fb_height (tb_buf (scr_buf s))"
    by (simp_all add: columns_def rows_of_def)
  with t have "fst (tb_cursor (scr_buf s)) \<le> w" "snd (tb_cursor (scr_buf s)) \<le> w"
    using assms(1) by (auto simp: screen_ok_def)
  with assms(4,5) show "\<exists>tb. move_cursor dx dy (scr_buf s) = Ok tb \<and> tb_ok F tb"
    by (intro move_cursor_ok [OF ok assms(2,3)]) auto
qed

lemma screen_set_ok: "screen_ok F w s \<Longrightarrow> \<exists>s'. with_buf (set_cursor x y) s = Ok s' \<and> screen_ok F w s'"
  by (rule with_buf_ok [OF _ set_cursor_ok set_cursor_buf]) (auto simp: screen_ok_def)

lemma theme_ok:
  assumes "screen_ok F w s"
  shows "\<exists>fg. get_fg (scr_theme s) (scr_fg s) = Ok fg" and "\<exists>bg. get_bg (scr_theme s) (scr_bg s) = Ok bg"
  using assms scheme_get_ok [of "scr_fg s" "scr_theme s"] scheme_get_ok [of "scr_bg s" "scr_theme s"]
  by (auto simp: screen_ok_def get_fg_def get_bg_def simp del: split_paired_Ex)

lemma screen_erase_ok:
  assumes "screen_ok F w s"
  shows "\<exists>s'. screen_erase p q r t s = Ok s' \<and> screen_ok F w s'"
proof -
  obtain bg where bg: "get_bg (scr_theme s) (scr_bg s) = Ok bg" using theme_ok(2) [OF assms] by blast
  have ok: "tb_ok F (scr_buf s)" using assms by (simp add: screen_ok_def)
  obtain tb where tb: "erase_text (color_from bg) p q r t (scr_buf s) = Ok tb" "tb_upd (scr_buf s) tb" "tb_ok F tb"
    using erase_text_ok [OF ok] by blast
  have "\<exists>s'. with_buf (erase_text (color_from bg) p q r t) s = Ok s' \<and> screen_ok F w s'"
    by (rule with_buf_ok [OF assms]) (use tb in \<open>auto simp: tb_upd_def\<close>)
  with bg show ?thesis by (simp add: screen_erase_def)
qed

lemma screen_put_char_ok:
  assumes "screen_ok F w s"
  shows "\<exists>s'. screen_put_char c s = Ok s' \<and> screen_ok F w s'"
proof -
  obtain fg bg where "get_fg (scr_theme s) (scr_fg s) = Ok fg" "get_bg (scr_theme s) (scr_bg s) = Ok bg"
    using theme_ok [OF assms] by blast
  moreover have "\<exists>s'. with_buf (put_text 2 c (color_from fg) (color_from bg) (scr_style s)) s = Ok s' \<and> screen_ok F w s'"
    by (rule with_buf_ok [OF assms put_text_ok put_text_buf]) (use assms in \<open>auto simp: screen_ok_def\<close>)
  ultimately show ?thesis by (simp add: screen_put_char_def)
qed

lemma neg_i32_nat [simp]: "neg_i32 (int n) = Ok (- int n)"
  by (simp add: neg_i32_def I32_MIN_def)

lemma handle_escape_sequence_ok:
  assumes "screen_ok F w s" and "es_safe w es" and "es_colors es" and "w < 2 ^ 31"
  shows "\<exists>s'. handle_escape_sequence es s = Ok s' \<and> screen_ok F w s'"
proof -
  note move = screen_move_ok [OF assms(1), unfolded i32_range_def]
  note ok = screen_set_ok [OF assms(1)] screen_erase_ok [OF assms(1)] handle_sgr_ok assms(1)
  show ?thesis
    using assms(2-4)
    by (cases es) (auto simp: I32_MIN_def pred_u32_def intro!: move ok)
qed

lemma output_chars_ok:
  assumes "screen_ok F w s" and "decode chs d = Ok (rs, d')" and "list_all (result_safe w) rs" and "w < 2 ^ 31"
  shows "\<exists>s'. output_chars chs (s, d) = Ok (s', d') \<and> screen_ok F w s'"
  using assms(1-3)
proof (induction chs arbitrary: s d rs)
  case (Cons c chs)
  from Cons.prems(2) obtain r d1 rs1 where r: "add_char c d = Ok (r, d1)" "decode chs d1 = Ok (rs1, d')"
    "rs = (case r of None \<Rightarrow> rs1 | Some x \<Rightarrow> x # rs1)" by auto
  have "\<exists>s1. (case r of Some (Just c) \<Rightarrow> screen_put_char c s | Some (EscSeq es) \<Rightarrow> handle_escape_sequence es s | None \<Rightarrow> Ok s) = Ok s1
      \<and> screen_ok F w s1"
  proof (cases r)
    case (Some x)
    with r(3) Cons.prems(3) have "result_safe w x" by simp
    with Some r(1) Cons.prems(1) assms(4) show ?thesis
      by (cases x) (auto intro!: screen_put_char_ok handle_escape_sequence_ok dest: add_char_colors)
  qed (use Cons.prems(1) in simp)
  then obtain s1 where s1: "(case r of Some (Just c) \<Rightarrow> screen_put_char c s | Some (EscSeq es) \<Rightarrow> handle_escape_sequence es s | None \<Rightarrow> Ok s) = Ok s1"
    "screen_ok F w s1" by blast
  have "list_all (result_safe w) rs1" using r(3) Cons.prems(3) by (cases r) auto
  from Cons.IH [OF s1(2) r(2) this] r(1) s1(1) show ?case by auto
qed simp

lemma decode_append:
  "decode (a @ b) d = try_then (decode a d) (\<lambda>(rs, d'). try_then (decode b d') (\<lambda>(rs', d''). Ok (rs @ rs', d'')))"
proof (induction a arbitrary: d)
  case Nil
  show ?case by (cases "decode b d") (auto simp: case_prod_unfold)
next
  case (Cons c a)
  show ?case
  proof (cases "add_char c d")
    case (Ok p)
    obtain r d1 where p: "p = (r, d1)" by (cases p)
    show ?thesis
    proof (cases "decode a d1")
      case (Ok q)
      obtain rs d2 where q: "q = (rs, d2)" by (cases q)
      show ?thesis
        using Ok \<open>add_char c d = Ok p\<close> p q Cons.IH [of d1] by (cases "decode b d2") (auto split: option.split)
    qed (use Ok p Cons.IH [of d1] in simp_all)
  qed simp_all
qed

lemma screen_render_ok:
  assumes "face_ok F" and "screen_ok F w s"
  shows "\<exists>s'. screen_render F s = Ok s' \<and> screen_ok F w s' \<and> tb_diff (scr_buf s') = None
    \<and> map line_chars (tb_lines (scr_buf s')) = map line_chars (tb_lines (scr_buf s))"
proof -
  have "tb_ok F (scr_buf s)" using assms(2) by (simp add: screen_ok_def)
  from render_text_ok [OF assms(1) this] assms(2) show ?thesis
    by (auto simp: screen_render_def with_buf_def screen_ok_def same_shape_def)
qed

definition printed :: "(nat \<times> nat \<times> rstring option) list \<Rightarrow> rstring" where
  "printed its = concat (map (\<lambda>(t, t', out). case out of None \<Rightarrow> [] | Some s \<Rightarrow> s) its)"

lemma output_step_ok:
  assumes "face_ok F" and "screen_ok F w (out_screen st)" and "t \<le> t'" and "w < 2 ^ 31"
    and "decode (case out of None \<Rightarrow> [] | Some s \<Rightarrow> s) (out_decoder st) = Ok (rs, d)" and "list_all (result_safe w) rs"
  shows "\<exists>st'. output_step F t t' out st = Ok st' \<and> screen_ok F w (out_screen st') \<and> out_decoder st' = d"
proof -
  have "\<exists>st1. (if next_render_ticks st \<le> t
         then try_then (screen_render F (out_screen st)) (\<lambda>s.
           Ok (st\<lparr>out_screen := s, next_render_ticks := t' + RENDER_INTERVAL\<rparr>))
         else Ok st) = Ok st1 \<and> screen_ok F w (out_screen st1) \<and> out_decoder st1 = out_decoder st \<and> t \<le> next_render_ticks st1"
    using screen_render_ok [OF assms(1,2)] assms(2,3) by auto
  then obtain st1 where st1: "(if next_render_ticks st \<le> t
         then try_then (screen_render F (out_screen st)) (\<lambda>s.
           Ok (st\<lparr>out_screen := s, next_render_ticks := t' + RENDER_INTERVAL\<rparr>))
         else Ok st) = Ok st1" "screen_ok F w (out_screen st1)" "out_decoder st1 = out_decoder st" "t \<le> next_render_ticks st1" by blast
  show ?thesis
  proof (cases out)
    case None
    with st1 assms(5) show ?thesis unfolding output_step_def st1(1) by auto
  next
    case (Some s)
    with assms(5) have "decode s (out_decoder st1) = Ok (rs, d)" using st1(3) by simp
    from output_chars_ok [OF st1(2) this assms(6,4)] Some st1(4) show ?thesis unfolding output_step_def st1(1) by auto
  qed
qed

lemma output_run_ok:
  assumes "face_ok F" and "screen_ok F w (out_screen st)" and "list_all (\<lambda>(t, t', out). t \<le> t') its" and "w < 2 ^ 31"
    and "decode (printed its) (out_decoder st) = Ok (rs, d)" and "list_all (result_safe w) rs"
  shows "\<exists>st'. output_run F its st = Ok st' \<and> screen_ok F w (out_screen st')"
  using assms(2,3,5,6)
proof (induction its arbitrary: st rs)
  case (Cons it its)
  obtain t t' out where it: "it = (t, t', out)" by (cases it)
  have "printed (it # its) = (case out of None \<Rightarrow> [] | Some s \<Rightarrow> s) @ printed its" by (simp add: printed_def it)
  with Cons.prems(3) obtain rs1 d1 rs2 where d: "decode (case out of None \<Rightarrow> [] | Some s \<Rightarrow> s) (out_decoder st) = Ok (rs1, d1)"
    "decode (printed its) d1 = Ok (rs2, d)" "rs = rs1 @ rs2" by (auto simp: decode_append)
  have t: "t \<le> t'" using Cons.prems(2) it by simp
  from d(3) Cons.prems(4) have "list_all (result_safe w) rs1" "list_all (result_safe w) rs2" by simp_all
  with output_step_ok [OF assms(1) Cons.prems(1) t assms(4) d(1)] obtain st1 where
    "output_step F t t' out st = Ok st1" "screen_ok F w (out_screen st1)" "out_decoder st1 = d1" by blast
  with Cons.IH [of st1 rs2] d(2) \<open>list_all (result_safe w) rs2\<close> Cons.prems(2) it show ?case by simp
qed simp

text \<open>Every character that was written is on the screen.\<close>

definition text_shown :: "'c font_face \<Rightarrow> text_buffer \<Rightarrow> bool" where
  "text_shown F tb \<longleftrightarrow> (\<forall>j<length (tb_lines tb). \<forall>i<length (line_chars (tb_lines tb ! j)).
     line_chars (tb_lines tb ! j) ! i = void_cell \<or> char_shown F tb j i)"

text \<open>
  C17: the output task never stops, and the screen shows what was printed. On a frame buffer with room for a
  character, whatever strings arrive at whatever times, the iterations of the loop return as long as the decoder
  accepts what is printed and no cursor movement overflows; and when the screen is rendered then, by drawing only
  what has changed since the last time, every character of the text buffer is on the frame buffer at its place.
\<close>

theorem console_shows_output:
  assumes "face_ok F" and "fb_ok buf" and "7 \<le> fb_width buf" and "14 \<le> fb_height buf"
    and "fb_width buf + fb_height buf < 2 ^ 31" and "list_all (\<lambda>(t, t', out). t \<le> t') its"
    and "decode (printed its) DInit = Ok (rs, d)" and "list_all (result_safe (fb_width buf + fb_height buf)) rs"
  shows "\<exists>st st' scr. new_output buf = Ok st \<and> output_run F its st = Ok st' \<and> screen_render F (out_screen st') = Ok scr
    \<and> text_shown F (scr_buf scr)
    \<and> map line_chars (tb_lines (scr_buf scr)) = map line_chars (tb_lines (scr_buf (out_screen st')))"
proof -
  let ?f = "new_font FONT_SIZE (fb_format buf)"
  have f: "font_wf ?f" "cache_sound F ?f" "fb_format buf = font_format ?f" "unit_width ?f = 7" "unit_height ?f = 14"
    by (simp_all add: font_wf_def cache_sound_def new_font_def FONT_SIZE_def unit_width_def unit_height_def)
  obtain tb where tb: "new_text_buffer buf ?f = Ok tb" "tb_ok F tb" "tb_buf tb = buf"
    using new_text_buffer_ok [OF assms(2) f(1-3)] f(4,5) assms(3,4) by auto
  define st where "st = \<lparr>out_screen = \<lparr>scr_buf = tb, scr_theme = one_monokai, scr_fg = DefaultColor, scr_bg = DefaultColor,
    scr_style = NormalStyle\<rparr>, next_render_ticks = 0, out_decoder = DInit\<rparr>"
  have st: "new_output buf = Ok st" "screen_ok F (fb_width buf + fb_height buf) (out_screen st)" "out_decoder st = DInit"
    using tb by (simp_all add: st_def new_output_def new_screen_def screen_ok_def)
  obtain st' where st': "output_run F its st = Ok st'" "screen_ok F (fb_width buf + fb_height buf) (out_screen st')"
    using output_run_ok [OF assms(1) st(2) assms(6,5) _ assms(8)] assms(7) st(3) by auto
  obtain scr where scr: "screen_render F (out_screen st') = Ok scr" "screen_ok F (fb_width buf + fb_height buf) scr"
    "tb_diff (scr_buf scr) = None" "map line_chars (tb_lines (scr_buf scr)) = map line_chars (tb_lines (scr_buf (out_screen st')))"
    using screen_render_ok [OF assms(1) st'(2)] by blast
  have "text_shown F (scr_buf scr)"
    using tb_ok_shown [OF assms(1) _ scr(3)] scr(2) unfolding text_shown_def screen_ok_def by blast
  with st(1) st'(1) scr show ?thesis by blast
qed

definition sample_face :: "unit font_face" where
  "sample_face = \<lparr>outline_glyph = \<lambda>ch style. if ch = 104 then Some ((1, 1), [(0, 0, ()), (0, 1, ())]) else None,
     mix_color = \<lambda>bg fg c. fg\<rparr>"

lemma sample_run:
  "try_then (new_output (new_vec_buffer 14 28 Rgbx)) (\<lambda>st.
     try_then (output_run sample_face [(0, 0, Some (str_of ''h'')), (5, 5, None)] st) (\<lambda>st'.
       Ok (map (\<lambda>l. map cell_value (line_chars l)) (tb_lines (scr_buf (out_screen st')))))) = Ok [[104, 0], [0, 0]]"
  by code_simp

theorem console_shows_output_witness:
  "\<exists>st st' scr. new_output (new_vec_buffer 14 28 Rgbx) = Ok st
    \<and> output_run sample_face [(0, 0, Some (str_of ''h'')), (5, 5, None)] st = Ok st'
    \<and> screen_render sample_face (out_screen st') = Ok scr \<and> text_shown sample_face (scr_buf scr)
    \<and> map (\<lambda>l. map cell_value (line_chars l)) (tb_lines (scr_buf scr)) = [[104, 0], [0, 0]]"
proof -
  have face: "face_ok sample_face" by (simp add: face_ok_def sample_face_def i32_range_def as_i32_def)
  have d: "decode (printed [(0, 0, Some (str_of ''h'')), (5, 5, None)]) DInit = Ok ([Just 104], DInit)"
    by (simp add: printed_def str_of_def)
  have "fb_ok (new_vec_buffer 14 28 Rgbx)" "7 \<le> fb_width (new_vec_buffer 14 28 Rgbx)" "14 \<le> fb_height (new_vec_buffer 14 28 Rgbx)"
    "fb_width (new_vec_buffer 14 28 Rgbx) + fb_height (new_vec_buffer 14 28 Rgbx) < 2 ^ 31"
    by (simp_all add: new_vec_buffer_ok) (simp_all add: new_vec_buffer_def)
  from console_shows_output [OF face this _ d] obtain st st' scr where st: "new_output (new_vec_buffer 14 28 Rgbx) = Ok st"
    "output_run sample_face [(0, 0, Some (str_of ''h'')), (5, 5, None)] st = Ok st'"
    "screen_render sample_face (out_screen st') = Ok scr" "text_shown sample_face (scr_buf scr)"
    "map line_chars (tb_lines (scr_buf scr)) = map line_chars (tb_lines (scr_buf (out_screen st')))"
    by (auto simp del: output_run.simps)
  have "map (\<lambda>l. map cell_value (line_chars l)) (tb_lines (scr_buf (out_screen st'))) = [[104, 0], [0, 0]]"
    using sample_run st(1,2) by (simp del: output_run.simps)
  moreover have "map (\<lambda>l. map cell_value (line_chars l)) (tb_lines (scr_buf scr))
      = map (\<lambda>l. map cell_value (line_chars l)) (tb_lines (scr_buf (out_screen st')))"
    using arg_cong [OF st(5), of "map (map cell_value)"] by (simp add: comp_def)
  ultimately show ?thesis using st by metis
qed

end
