(* ===== verification/Non_Contiguous.thy ===== *)
theory Non_Contiguous
  imports Ors_Prelude
begin

text \<open>
  The fixed-size array with non-contiguous indices of \<open>ors-common/src/non_contiguous.rs\<close>, which holds the processors
  by their ids: a hash table with open addressing and no removal. It is shown to be a finite map.
\<close>

section \<open>The array\<close>

text \<open>The key type is one that converts to \<open>usize\<close>; a key is that number. \<open>N\<close> is the length of the buckets.\<close>

record 'v nc_array =
  nc_len :: nat
  buckets :: "(nat \<times> 'v) option list"

datatype bucket_index = Vacant nat | Occupied nat

definition nc_new :: "nat \<Rightarrow> 'v nc_array" where
  "nc_new n = \<lparr>nc_len = 0, buckets = replicate n None\<rparr>"

definition nc_clear :: "'v nc_array \<Rightarrow> 'v nc_array" where
  "nc_clear a = a\<lparr>buckets := map (\<lambda>_. None) (buckets a), nc_len := 0\<rparr>"

fun probe_from :: "(nat \<times> 'v) option list \<Rightarrow> nat \<Rightarrow> nat list \<Rightarrow> bucket_index option" where
  "probe_from bs i [] = None"
| "probe_from bs i (offset # offsets) =
    (let index = (i + offset) mod length bs in
     case bs ! index of
       None \<Rightarrow> Some (Vacant index)
     | Some (j, _) \<Rightarrow> if i = j then Some (Occupied index) else probe_from bs i offsets)"

definition nc_bucket_index :: "'v nc_array \<Rightarrow> nat \<Rightarrow> bucket_index option" where
  "nc_bucket_index a i = probe_from (buckets a) i [0..<length (buckets a)]"

definition nc_get :: "'v nc_array \<Rightarrow> nat \<Rightarrow> 'v option" where
  "nc_get a i = (case nc_bucket_index a i of
      Some (Occupied index) \<Rightarrow> map_option snd (buckets a ! index)
    | _ \<Rightarrow> None)"

text \<open>Writing through the reference that \<open>get_mut\<close> returns.\<close>

definition nc_get_mut :: "'v nc_array \<Rightarrow> nat \<Rightarrow> ('v \<Rightarrow> 'v) \<Rightarrow> 'v nc_array option" where
  "nc_get_mut a i f = (case nc_bucket_index a i of
      Some (Occupied index) \<Rightarrow> Some (a\<lparr>buckets := (buckets a)[index := map_option (\<lambda>(k, v). (k, f v)) (buckets a ! index)]\<rparr>)
    | _ \<Rightarrow> None)"

definition nc_insert :: "'v nc_array \<Rightarrow> nat \<Rightarrow> 'v \<Rightarrow> (unit, 'v option \<times> 'v nc_array) outcome" where
  "nc_insert a i v = (case nc_bucket_index a i of
      None \<Rightarrow> Panic
    | Some (Vacant index) \<Rightarrow> Ok (None, a\<lparr>buckets := (buckets a)[index := Some (i, v)], nc_len := nc_len a + 1\<rparr>)
    | Some (Occupied index) \<Rightarrow>
        Ok (map_option snd (buckets a ! index), a\<lparr>buckets := (buckets a)[index := Some (i, v)]\<rparr>))"

fun nc_extend :: "'v nc_array \<Rightarrow> (nat \<times> 'v) list \<Rightarrow> (unit, 'v nc_array) outcome" where
  "nc_extend a [] = Ok a"
| "nc_extend a ((i, v) # xs) = try_then (nc_insert a i v) (\<lambda>(_, a'). nc_extend a' xs)"

definition nc_from_iter :: "nat \<Rightarrow> (nat \<times> 'v) list \<Rightarrow> (unit, 'v nc_array) outcome" where
  "nc_from_iter n xs = nc_extend (nc_new n) xs"

fun nc_flatten :: "'a option list \<Rightarrow> 'a list" where
  "nc_flatten [] = []"
| "nc_flatten (None # xs) = nc_flatten xs"
| "nc_flatten (Some x # xs) = x # nc_flatten xs"

definition nc_iter :: "'v nc_array \<Rightarrow> (nat \<times> 'v) list" where
  "nc_iter a = nc_flatten (buckets a)"

section \<open>Probing\<close>

text \<open>Every entry is found by probing from its key: the buckets before it hold other keys.\<close>

definition probes_to :: "(nat \<times> 'v) option list \<Rightarrow> nat \<Rightarrow> nat \<Rightarrow> bool" where
  "probes_to bs i d \<longleftrightarrow> d < length bs \<and> (\<forall>o'<d. \<exists>j v. bs ! ((i + o') mod length bs) = Some (j, v) \<and> j \<noteq> i)"

definition nc_ok :: "'v nc_array \<Rightarrow> bool" where
  "nc_ok a \<longleftrightarrow> (\<forall>x<length (buckets a). \<forall>i v. buckets a ! x = Some (i, v) \<longrightarrow>
       (\<exists>d. x = (i + d) mod length (buckets a) \<and> probes_to (buckets a) i d))
     \<and> nc_len a = card (dom (map_of (nc_iter a)))"

lemma probe_from_spec:
  assumes "probe_from bs i [k..<length bs] = r" and "\<forall>o'<k. \<exists>j v. bs ! ((i + o') mod length bs) = Some (j, v) \<and> j \<noteq> i"
  shows "case r of
      Some (Vacant x) \<Rightarrow> \<exists>d. x = (i + d) mod length bs \<and> probes_to bs i d \<and> bs ! x = None
    | Some (Occupied x) \<Rightarrow> \<exists>d v. x = (i + d) mod length bs \<and> probes_to bs i d \<and> bs ! x = Some (i, v)
    | None \<Rightarrow> \<forall>o'<length bs. \<exists>j v. bs ! ((i + o') mod length bs) = Some (j, v) \<and> j \<noteq> i"
  using assms
proof (induction "length bs - k" arbitrary: k)
  case 0
  then show ?case by auto
next
  case (Suc n)
  then have k: "k < length bs" and up: "[k..<length bs] = k # [Suc k..<length bs]" by (simp_all add: upt_rec)
  consider (vacant) "bs ! ((i + k) mod length bs) = None" | (hit) v where "bs ! ((i + k) mod length bs) = Some (i, v)"
    | (other) j v where "bs ! ((i + k) mod length bs) = Some (j, v)" "j \<noteq> i"
    by (metis option.exhaust surj_pair)
  then show ?case
  proof cases
    case vacant
    with Suc.prems k have "r = Some (Vacant ((i + k) mod length bs))" unfolding up by simp
    with vacant k Suc.prems(2) show ?thesis by (auto simp: probes_to_def)
  next
    case hit
    with Suc.prems k have "r = Some (Occupied ((i + k) mod length bs))" unfolding up by simp
    with hit k Suc.prems(2) show ?thesis by (auto simp: probes_to_def)
  next
    case other
    with Suc.prems have "probe_from bs i [Suc k..<length bs] = r" unfolding up by auto
    moreover have "\<forall>o'<Suc k. \<exists>j v. bs ! ((i + o') mod length bs) = Some (j, v) \<and> j \<noteq> i"
      using Suc.prems(2) other by (auto simp: less_Suc_eq)
    ultimately show ?thesis using Suc.hyps(1) [of "Suc k"] Suc.hyps(2) by simp
  qed
qed

lemma mod_between: "x < n \<Longrightarrow> \<exists>d<n. x = (i + d) mod n" for x n i :: nat
proof (intro exI conjI)
  assume x: "x < n"
  then show "(x + n - i mod n) mod n < n" by simp
  have "(i + (x + n - i mod n) mod n) mod n = (i mod n + (x + n - i mod n)) mod n" by (simp add: mod_add_left_eq mod_add_right_eq)
  also have "i mod n + (x + n - i mod n) = x + n" using x by (simp add: less_imp_le_nat trans_le_add2)
  finally show "x = (i + (x + n - i mod n) mod n) mod n" using x by simp
qed

text \<open>A key is in at most one bucket.\<close>

lemma probes_to_unique:
  assumes "probes_to bs i d" and "probes_to bs i e" and "bs ! ((i + d) mod length bs) = Some (i, v)"
    and "bs ! ((i + e) mod length bs) = None \<or> bs ! ((i + e) mod length bs) = Some (i, w)"
  shows "e = d"
  using assms by (cases d e rule: linorder_cases) (fastforce simp: probes_to_def)+

definition keys_unique :: "(nat \<times> 'v) option list \<Rightarrow> bool" where
  "keys_unique bs \<longleftrightarrow> (\<forall>x y i v w. x < length bs \<longrightarrow> y < length bs \<longrightarrow> bs ! x = Some (i, v) \<longrightarrow> bs ! y = Some (i, w) \<longrightarrow> x = y)"

lemma nc_ok_unique: "nc_ok a \<Longrightarrow> keys_unique (buckets a)"
  unfolding keys_unique_def
proof (intro allI impI)
  fix x y i v w
  assume a: "nc_ok a" "x < length (buckets a)" "y < length (buckets a)" "buckets a ! x = Some (i, v)" "buckets a ! y = Some (i, w)"
  then obtain d e where "x = (i + d) mod length (buckets a)" "probes_to (buckets a) i d"
    "y = (i + e) mod length (buckets a)" "probes_to (buckets a) i e" unfolding nc_ok_def by metis
  with a(4,5) probes_to_unique [of "buckets a" i d e v w] show "x = y" by simp
qed

lemma set_nc_flatten: "x \<in> set (nc_flatten bs) \<longleftrightarrow> (\<exists>k<length bs. bs ! k = Some x)"
proof -
  have "x \<in> set (nc_flatten bs) \<longleftrightarrow> Some x \<in> set bs" by (induction bs rule: nc_flatten.induct) auto
  then show ?thesis by (auto simp: in_set_conv_nth)
qed

lemma length_nc_flatten: "length (nc_flatten bs) \<le> length bs" "None \<notin> set bs \<Longrightarrow> length (nc_flatten bs) = length bs"
  by (induction bs rule: nc_flatten.induct) auto

lemma keys_unique_ConsD: "keys_unique (b # bs) \<Longrightarrow> keys_unique bs"
  unfolding keys_unique_def by (metis Suc_inject Suc_less_eq length_Cons nth_Cons_Suc)

lemma distinct_keys: "keys_unique bs \<Longrightarrow> distinct (map fst (nc_flatten bs))"
proof (induction bs rule: nc_flatten.induct)
  case (3 p bs)
  obtain i v where p: "p = (i, v)" by (cases p)
  have "i \<notin> fst ` set (nc_flatten bs)"
  proof
    assume "i \<in> fst ` set (nc_flatten bs)"
    then obtain w k where "k < length bs" "bs ! k = Some (i, w)" by (auto simp: set_nc_flatten)
    with 3(2) p show False unfolding keys_unique_def by (metis Suc_less_eq length_Cons nat.distinct(1) nth_Cons_0 nth_Cons_Suc zero_less_Suc)
  qed
  with 3(1) [OF keys_unique_ConsD [OF 3(2)]] p show ?case by simp
qed (auto dest: keys_unique_ConsD)

lemma map_of_flatten:
  assumes "keys_unique bs"
  shows "map_of (nc_flatten bs) i = Some v \<longleftrightarrow> (\<exists>x<length bs. bs ! x = Some (i, v))"
  using distinct_keys [OF assms] by (simp add: map_of_eq_Some_iff set_nc_flatten)

lemma card_dom_flatten:
  assumes "keys_unique bs"
  shows "card (dom (map_of (nc_flatten bs))) = length (nc_flatten bs)"
proof -
  have "card (dom (map_of (nc_flatten bs))) = card (set (map fst (nc_flatten bs)))" by (simp add: dom_map_of_conv_image_fst)
  then show ?thesis using distinct_card [OF distinct_keys [OF assms]] by simp
qed

lemma nc_bucket_cases:
  assumes "nc_ok a"
  obtains (vacant) x d where "nc_bucket_index a i = Some (Vacant x)" and "x = (i + d) mod length (buckets a)"
    and "probes_to (buckets a) i d" and "buckets a ! x = None" and "map_of (nc_iter a) i = None"
  | (occupied) x d v where "nc_bucket_index a i = Some (Occupied x)" and "x = (i + d) mod length (buckets a)"
    and "probes_to (buckets a) i d" and "buckets a ! x = Some (i, v)" and "map_of (nc_iter a) i = Some v"
  | (full) "nc_bucket_index a i = None" and "None \<notin> set (buckets a)" and "map_of (nc_iter a) i = None"
proof -
  let ?bs = "buckets a"
  note u = nc_ok_unique [OF assms]
  note spec = probe_from_spec [of ?bs i 0 "nc_bucket_index a i", unfolded nc_bucket_index_def, OF refl, folded nc_bucket_index_def]
  have absent: "map_of (nc_iter a) i = None" if "\<And>e w. probes_to ?bs i e \<Longrightarrow> ?bs ! ((i + e) mod length ?bs) \<noteq> Some (i, w)"
  proof (rule ccontr)
    assume "map_of (nc_iter a) i \<noteq> None"
    then obtain w x where "x < length ?bs" "?bs ! x = Some (i, w)" using map_of_flatten [OF u] by (auto simp: nc_iter_def)
    with assms that show False unfolding nc_ok_def by metis
  qed
  show ?thesis
  proof (cases "nc_bucket_index a i")
    case None
    with spec have all: "\<forall>o'<length ?bs. \<exists>j v. ?bs ! ((i + o') mod length ?bs) = Some (j, v) \<and> j \<noteq> i" by simp
    have "None \<notin> set ?bs"
    proof
      assume "None \<in> set ?bs"
      then obtain x where "x < length ?bs" "?bs ! x = None" by (auto simp: in_set_conv_nth)
      with mod_between [of x "length ?bs" i] all show False by force
    qed
    moreover have "map_of (nc_iter a) i = None" using all by (intro absent) (fastforce simp: probes_to_def)
    ultimately show ?thesis using full None by blast
  next
    case (Some b)
    show ?thesis
    proof (cases b)
      case (Vacant x)
      with spec Some obtain d where d: "x = (i + d) mod length ?bs" "probes_to ?bs i d" "?bs ! x = None" by auto
      have "map_of (nc_iter a) i = None"
      proof (rule absent, rule notI)
        fix e w assume "probes_to ?bs i e" "?bs ! ((i + e) mod length ?bs) = Some (i, w)"
        with probes_to_unique [of ?bs i e d w] d show False by auto
      qed
      with vacant Some Vacant d show ?thesis by blast
    next
      case (Occupied x)
      with spec Some obtain d v where d: "x = (i + d) mod length ?bs" "probes_to ?bs i d" "?bs ! x = Some (i, v)" by auto
      then have "x < length ?bs" by (auto simp: probes_to_def intro: mod_less_divisor)
      with d have "map_of (nc_iter a) i = Some v" using map_of_flatten [OF u] by (auto simp: nc_iter_def)
      with occupied Some Occupied d show ?thesis by blast
    qed
  qed
qed

section \<open>The array is a map\<close>

lemma nc_insert_vacant:
  assumes "nc_ok a" and "x = (i + d) mod length (buckets a)" and "probes_to (buckets a) i d" and "buckets a ! x = None"
  shows "\<forall>y<length (buckets a). \<forall>j w. (buckets a)[x := Some (i, v)] ! y = Some (j, w) \<longrightarrow>
    (\<exists>e. y = (j + e) mod length (buckets a) \<and> probes_to ((buckets a)[x := Some (i, v)]) j e)"
proof (intro allI impI)
  let ?bs = "buckets a"
  fix y j w assume y: "y < length ?bs" "?bs[x := Some (i, v)] ! y = Some (j, w)"
  have keep: "probes_to (?bs[x := Some (i, v)]) k e" if "probes_to ?bs k e" for k e
    using that assms(4) unfolding probes_to_def by (metis length_list_update nth_list_update_neq option.distinct(1))
  show "\<exists>e. y = (j + e) mod length ?bs \<and> probes_to (?bs[x := Some (i, v)]) j e"
  proof (cases "y = x")
    case True
    with y have "j = i" by simp
    with keep [OF assms(3)] assms(2) True show ?thesis by blast
  next
    case False
    with y have "?bs ! y = Some (j, w)" by simp
    with assms(1) y(1) keep show ?thesis unfolding nc_ok_def by metis
  qed
qed

lemma nc_insert_occupied:
  assumes "nc_ok a" and "buckets a ! x = Some (i, v0)" and "x < length (buckets a)"
  shows "\<forall>y<length (buckets a). \<forall>j w. (buckets a)[x := Some (i, v)] ! y = Some (j, w) \<longrightarrow>
    (\<exists>e. y = (j + e) mod length (buckets a) \<and> probes_to ((buckets a)[x := Some (i, v)]) j e)"
proof (intro allI impI)
  let ?bs = "buckets a"
  fix y j w assume y: "y < length ?bs" "?bs[x := Some (i, v)] ! y = Some (j, w)"
  have keep: "probes_to (?bs[x := Some (i, v)]) k e" if "probes_to ?bs k e" for k e
    unfolding probes_to_def
  proof (intro conjI allI impI)
    show "e < length (?bs[x := Some (i, v)])" using that by (simp add: probes_to_def)
    fix o' assume "o' < e"
    with that obtain m u where m: "?bs ! ((k + o') mod length ?bs) = Some (m, u)" "m \<noteq> k" unfolding probes_to_def by blast
    then show "\<exists>j va. ?bs[x := Some (i, v)] ! ((k + o') mod length (?bs[x := Some (i, v)])) = Some (j, va) \<and> j \<noteq> k"
      using assms(2,3) by (cases "(k + o') mod length ?bs = x") auto
  qed
  have "\<exists>u. ?bs ! y = Some (j, u)" using y assms(2) by (cases "y = x") auto
  with assms(1) y(1) keep show "\<exists>e. y = (j + e) mod length ?bs \<and> probes_to (?bs[x := Some (i, v)]) j e"
    unfolding nc_ok_def by metis
qed

lemma keys_unique_probes:
  assumes "\<forall>y<length bs. \<forall>j w. bs ! y = Some (j, w) \<longrightarrow> (\<exists>e. y = (j + e) mod length bs \<and> probes_to bs j e)"
  shows "keys_unique bs"
  unfolding keys_unique_def
proof (intro allI impI)
  fix x y i v w
  assume a: "x < length bs" "y < length bs" "bs ! x = Some (i, v)" "bs ! y = Some (i, w)"
  with assms obtain d e where "x = (i + d) mod length bs" "probes_to bs i d" "y = (i + e) mod length bs" "probes_to bs i e"
    by metis
  with a(3,4) probes_to_unique [of bs i d e v w] show "x = y" by simp
qed

lemma map_of_flatten_update:
  assumes "keys_unique bs" and "keys_unique (bs[x := Some (i, v)])" and "x < length bs" and "bs ! x = None \<or> (\<exists>w. bs ! x = Some (i, w))"
  shows "map_of (nc_flatten (bs[x := Some (i, v)])) = (map_of (nc_flatten bs))(i \<mapsto> v)"
proof (rule ext)
  fix j
  have "map_of (nc_flatten (bs[x := Some (i, v)])) j = Some w \<longleftrightarrow> ((map_of (nc_flatten bs))(i \<mapsto> v)) j = Some w" for w
  proof (cases "j = i")
    case True
    have "map_of (nc_flatten (bs[x := Some (i, v)])) i = Some v"
      using map_of_flatten [OF assms(2)] assms(3) by (metis length_list_update nth_list_update_eq)
    with True show ?thesis by simp
  next
    case False
    have "bs[x := Some (i, v)] ! y = Some (j, w) \<longleftrightarrow> bs ! y = Some (j, w)" for y
      using assms(3,4) False by (cases "y = x") auto
    with False show ?thesis using map_of_flatten [OF assms(1), of j w] map_of_flatten [OF assms(2), of j w] by simp
  qed
  then show "map_of (nc_flatten (bs[x := Some (i, v)])) j = ((map_of (nc_flatten bs))(i \<mapsto> v)) j" by (metis option.exhaust)
qed

lemma nc_insert_ok:
  assumes "nc_ok a"
  shows "case nc_insert a i v of
      Ok (old, a') \<Rightarrow> old = map_of (nc_iter a) i \<and> map_of (nc_iter a') = (map_of (nc_iter a))(i \<mapsto> v)
        \<and> nc_ok a' \<and> length (buckets a') = length (buckets a)
    | Panic \<Rightarrow> map_of (nc_iter a) i = None \<and> nc_len a = length (buckets a)
    | _ \<Rightarrow> False"
  using assms
proof (cases rule: nc_bucket_cases [where i = i])
  case (vacant x d)
  let ?bs = "(buckets a)[x := Some (i, v)]"
  note p = nc_insert_vacant [OF assms vacant(2-4), of v]
  have x: "x < length (buckets a)" using vacant(2,3) by (auto simp: probes_to_def intro: mod_less_divisor)
  have m: "map_of (nc_flatten ?bs) = (map_of (nc_iter a))(i \<mapsto> v)"
    using map_of_flatten_update [OF nc_ok_unique [OF assms] keys_unique_probes x] p vacant(4) by (simp add: nc_iter_def)
  have "card (dom (map_of (nc_flatten ?bs))) = nc_len a + 1"
    using vacant(5) assms by (simp add: m nc_ok_def finite_dom_map_of domIff)
  with vacant p m show ?thesis by (simp add: nc_insert_def nc_ok_def nc_iter_def)
next
  case (occupied x d v0)
  let ?bs = "(buckets a)[x := Some (i, v)]"
  have x: "x < length (buckets a)" using occupied(2,3) by (auto simp: probes_to_def intro: mod_less_divisor)
  note p = nc_insert_occupied [OF assms occupied(4) x, of v]
  have m: "map_of (nc_flatten ?bs) = (map_of (nc_iter a))(i \<mapsto> v)"
    using map_of_flatten_update [OF nc_ok_unique [OF assms] keys_unique_probes x] p occupied(4) by (simp add: nc_iter_def)
  have "card (dom (map_of (nc_flatten ?bs))) = nc_len a"
    using occupied(5) assms by (simp add: m nc_ok_def finite_dom_map_of domIff insert_absorb)
  with occupied p m show ?thesis by (simp add: nc_insert_def nc_ok_def nc_iter_def)
next
  case full
  then show ?thesis using assms card_dom_flatten [OF nc_ok_unique [OF assms]] length_nc_flatten(2)
    by (simp add: nc_insert_def nc_ok_def nc_iter_def)
qed

lemma nc_get_map:
  assumes "nc_ok a"
  shows "nc_get a i = map_of (nc_iter a) i"
  using assms by (cases rule: nc_bucket_cases [where i = i]) (simp_all add: nc_get_def)

lemma nc_flatten_None [simp]: "nc_flatten (replicate n None) = []"
  by (induction n) simp_all

lemma nc_new_iter: "nc_iter (nc_new n) = []"
  by (simp add: nc_new_def nc_iter_def)

lemma nc_new_ok: "nc_ok (nc_new n)"
  by (simp add: nc_ok_def nc_new_iter) (simp add: nc_new_def)

lemma nc_len_le:
  assumes "nc_ok a"
  shows "nc_len a \<le> length (buckets a)"
  using assms card_dom_flatten [OF nc_ok_unique [OF assms]] length_nc_flatten(1) [of "buckets a"]
  by (simp add: nc_ok_def nc_iter_def)

lemma nc_extend_ok:
  assumes "nc_ok a"
  shows "case nc_extend a xs of
      Ok a' \<Rightarrow> nc_ok a' \<and> map_of (nc_iter a') = map_of (nc_iter a) ++ map_of (rev xs) \<and> length (buckets a') = length (buckets a)
    | Panic \<Rightarrow> length (buckets a) < card (dom (map_of (nc_iter a)) \<union> fst ` set xs)
    | _ \<Rightarrow> False"
  using assms
proof (induction xs arbitrary: a)
  case (Cons p xs)
  obtain i v where p: "p = (i, v)" by (cases p)
  note ins = nc_insert_ok [OF Cons.prems, of i v]
  show ?case
  proof (cases "nc_insert a i v")
    case (Ok r)
    obtain old a' where r: "r = (old, a')" by (cases r)
    with Ok ins have a': "map_of (nc_iter a') = (map_of (nc_iter a))(i \<mapsto> v)" "nc_ok a'" "length (buckets a') = length (buckets a)"
      by auto
    have "(map_of (nc_iter a))(i \<mapsto> v) ++ map_of (rev xs) = map_of (nc_iter a) ++ map_of (rev (p # xs))"
      by (simp add: p map_add_def fun_eq_iff split: option.split)
    moreover have "dom (map_of (nc_iter a')) \<union> fst ` set xs = dom (map_of (nc_iter a)) \<union> fst ` set (p # xs)"
      by (simp add: a'(1) p insert_commute)
    ultimately show ?thesis using Cons.IH [OF a'(2)] Ok r p a'(1,3) by (simp split: outcome.splits)
  next
    case Panic
    with ins have full: "map_of (nc_iter a) i = None" "nc_len a = length (buckets a)" by auto
    have "card (dom (map_of (nc_iter a))) < card (insert i (dom (map_of (nc_iter a))))"
      using full(1) by (simp add: finite_dom_map_of domIff)
    also have "\<dots> \<le> card (dom (map_of (nc_iter a)) \<union> fst ` set (p # xs))"
      by (rule card_mono) (auto simp: p finite_dom_map_of)
    finally show ?thesis using full(2) Cons.prems Panic p by (simp add: nc_ok_def)
  qed (use ins in simp_all)
qed simp


end
