(* ===== verification/Spec2Isabelle.thy ===== *)
theory Spec2Isabelle
  imports Sync Pci Kernel_Allocator File_Data Task_Scheduler Virtio_Block Console Non_Contiguous
begin

text \<open>
  Header.
\<close>

end
